(* ===== verification/Prelude.thy ===== *)
theory Prelude
  imports Main "HOL-Library.Word" "HOL-Library.Signed_Division" "HOL-Library.Monad_Syntax"
begin

text \<open>
  Shared vocabulary of the development: names for the C integer types, the
  treatment of C strings and arrays, closed forms for counted loops, first-match
  search loops, and a simulation locale that lifts a one-step refinement to runs.

  Conventions. A counted C loop is \<open>fold body [a..<b]\<close>; a search loop that leaves at
  the first match is \<open>List.find\<close> over the same index list. The value \<open>None\<close> of an
  operation stands for undefined behaviour or for a loop that does not return.
\<close>

unbundle bit_operations_syntax

type_synonym u8 = "8 word"
type_synonym u16 = "16 word"
type_synonym u32 = "32 word"
type_synonym u64 = "64 word"

named_theorems frame_simps \<open>fields an operation leaves unchanged\<close>
named_theorems loop_simps \<open>closed forms of counted loops\<close>


subsection \<open>Words\<close>

lemma unat_u8_less: "unat (x :: u8) < 256"
  using unsigned_less [of x, where ?'a = nat] by simp

lemma unat_u16_less: "unat (x :: u16) < 65536"
  using unsigned_less [of x, where ?'a = nat] by simp

lemma unat_u32_less: "unat (x :: u32) < 4294967296"
  using unsigned_less [of x, where ?'a = nat] by simp

lemma unat_u64_less: "unat (x :: u64) < 18446744073709551616"
  using unsigned_less [of x, where ?'a = nat] by simp

lemma unat_ucast_8_16: "unat (ucast (x :: u8) :: u16) = unat x"
  using unat_u8_less [of x] by (simp add: unsigned_ucast_eq take_bit_nat_eq_self_iff)

lemma unat_ucast_16_8: "unat (ucast (x :: u16) :: u8) = unat x mod 256"
  by (simp add: unsigned_ucast_eq take_bit_eq_mod)

lemma unat_ucast_32_64: "unat (ucast (x :: u32) :: u64) = unat x"
  using unat_u32_less [of x] by (simp add: unsigned_ucast_eq take_bit_nat_eq_self_iff)

lemma unat_ucast_64_32: "unat (ucast (x :: u64) :: u32) = unat x mod 4294967296"
  by (simp add: unsigned_ucast_eq take_bit_eq_mod)

lemma unat_drop_bit: "unat (drop_bit n (x :: 'a::len word)) = unat x div 2 ^ n"
  by (simp only: unat_drop_bit_eq drop_bit_eq_div [where 'a = nat])


subsection \<open>C strings and arrays\<close>

abbreviation NUL :: char where "NUL \<equiv> CHR 0x00"

text \<open>The string stored in a character array: everything before the first NUL.\<close>

definition cstr :: "string \<Rightarrow> string" where
  "cstr buf = takeWhile (\<lambda>c. c \<noteq> NUL) buf"

text \<open>Array access; \<open>None\<close> is an access outside the array.\<close>

definition arr_get :: "'a list \<Rightarrow> nat \<Rightarrow> 'a option" where
  "arr_get xs i = (if i < length xs then Some (xs ! i) else None)"

definition arr_set :: "'a list \<Rightarrow> nat \<Rightarrow> 'a \<Rightarrow> 'a list option" where
  "arr_set xs i v = (if i < length xs then Some (xs[i := v]) else None)"

lemma cstr_Nil [simp]: "cstr [] = []"
  by (simp add: cstr_def)

lemma cstr_NUL [simp]: "cstr (NUL # cs) = []"
  by (simp add: cstr_def)

lemma cstr_Cons [simp]: "c \<noteq> NUL \<Longrightarrow> cstr (c # cs) = c # cstr cs"
  by (simp add: cstr_def)

lemma NUL_notin_cstr [simp]: "NUL \<notin> set (cstr buf)"
  by (auto simp: cstr_def dest: set_takeWhileD)

lemma cstr_append_NUL: "NUL \<notin> set s \<Longrightarrow> cstr (s @ NUL # rest) = s"
  by (induction s) auto

lemma cstr_id: "NUL \<notin> set s \<Longrightarrow> cstr s = s"
  by (induction s) auto

lemma length_cstr_less: "NUL \<in> set buf \<Longrightarrow> length (cstr buf) < length buf"
  by (induction buf) (auto simp: cstr_def)

lemma arr_get_eq [simp]: "i < length xs \<Longrightarrow> arr_get xs i = Some (xs ! i)"
  by (simp add: arr_get_def)

lemma arr_set_eq [simp]: "i < length xs \<Longrightarrow> arr_set xs i v = Some (xs[i := v])"
  by (simp add: arr_set_def)

lemma arr_set_SomeD: "arr_set xs i v = Some ys \<Longrightarrow> i < length xs \<and> ys = xs[i := v]"
  by (simp add: arr_set_def split: if_splits)


subsection \<open>Counted loops over arrays\<close>

lemma fold_upd_closed [loop_simps]:
  "fold (\<lambda>i f. f(i := g i)) [0..<n] f0 = (\<lambda>i. if i < n then g i else f0 i)"
  by (induction n) (auto simp: fun_eq_iff)

lemma fold_upd_offset [loop_simps]:
  fixes b :: nat
  shows "fold (\<lambda>i f. f(b + i := g i)) [0..<n] f0
    = (\<lambda>j. if b \<le> j \<and> j < b + n then g (j - b) else f0 j)"
proof (induction n)
  case (Suc n)
  then show ?case by (auto simp: fun_eq_iff less_Suc_eq)
qed (auto simp: fun_eq_iff)

lemma fold_inv:
  assumes "P s" and "\<And>i s. i \<in> set xs \<Longrightarrow> P s \<Longrightarrow> P (f i s)"
  shows "P (fold f xs s)"
  using assms by (induction xs arbitrary: s) auto

lemma fold_id: "(\<And>i s. i \<in> set xs \<Longrightarrow> f i s = s) \<Longrightarrow> fold f xs s = s"
  by (induction xs arbitrary: s) auto


subsection \<open>Search loops\<close>

lemma find_upt_Some:
  "List.find P [0..<n] = Some i \<longleftrightarrow> i < n \<and> P i \<and> (\<forall>j<i. \<not> P j)"
  by (auto simp: find_Some_iff)

lemma find_upt_None: "List.find P [0..<n] = None \<longleftrightarrow> (\<forall>i<n. \<not> P i)"
  by (auto simp: find_None_iff)

lemma find_upt_exists: "i < n \<Longrightarrow> P i \<Longrightarrow> \<exists>j. List.find P [0..<n] = Some j \<and> j < n \<and> P j"
  by (cases "List.find P [0..<n]") (auto simp: find_upt_None find_upt_Some)


subsection \<open>Simulations\<close>

text \<open>
  Operations that may fail (\<open>None\<close>: undefined behaviour or no return) refine an abstract
  machine when, from related states, every operation the abstract machine allows succeeds and
  leads to related states; then so does every allowed sequence of operations.
\<close>

fun run :: "('e \<Rightarrow> 'c \<Rightarrow> 'c option) \<Rightarrow> 'e list \<Rightarrow> 'c \<Rightarrow> 'c option" where
  "run cstep [] c = Some c"
| "run cstep (e # es) c = (case cstep e c of None \<Rightarrow> None | Some c' \<Rightarrow> run cstep es c')"

fun legal :: "('e \<Rightarrow> 'a \<Rightarrow> bool) \<Rightarrow> ('e \<Rightarrow> 'a \<Rightarrow> 'a) \<Rightarrow> 'e list \<Rightarrow> 'a \<Rightarrow> bool" where
  "legal pre astep [] a \<longleftrightarrow> True"
| "legal pre astep (e # es) a \<longleftrightarrow> pre e a \<and> legal pre astep es (astep e a)"

locale simulation =
  fixes R :: "'c \<Rightarrow> 'a \<Rightarrow> bool"
    and cstep :: "'e \<Rightarrow> 'c \<Rightarrow> 'c option"
    and astep :: "'e \<Rightarrow> 'a \<Rightarrow> 'a"
    and pre :: "'e \<Rightarrow> 'a \<Rightarrow> bool"
  assumes step: "R c a \<Longrightarrow> pre e a \<Longrightarrow> \<exists>c'. cstep e c = Some c' \<and> R c' (astep e a)"
begin

lemma run_refines:
  "R c a \<Longrightarrow> legal pre astep es a \<Longrightarrow> \<exists>c'. run cstep es c = Some c' \<and> R c' (fold astep es a)"
proof (induction es arbitrary: c a)
  case (Cons e es)
  then obtain c' where "cstep e c = Some c'" "R c' (astep e a)" using step [of c a e] by auto
  with Cons show ?case by simp
qed simp

end


subsection \<open>Bounded logs\<close>

text \<open>
  A log that keeps the latest \<open>cap\<close> entries and may refuse an entry. The console's ring
  of saved lines and the shell's array of past commands both promise this contract.
\<close>

definition last_n :: "nat \<Rightarrow> 'a list \<Rightarrow> 'a list" where
  "last_n n xs = drop (length xs - n) xs"

lemma length_last_n [simp]: "length (last_n n xs) = min n (length xs)"
  by (auto simp: last_n_def)

lemma last_n_short [simp]: "length xs \<le> n \<Longrightarrow> last_n n xs = xs"
  by (simp add: last_n_def)

lemma last_n_append: "last_n n (last_n n xs @ ys) = last_n n (xs @ ys)"
  by (cases "n \<le> length xs") (auto simp: last_n_def add.commute)

lemma last_last_n: "0 < n \<Longrightarrow> xs \<noteq> [] \<Longrightarrow> last (last_n n xs) = last xs"
  by (simp add: last_n_def)

fun accepted_items :: "('a \<Rightarrow> 's \<Rightarrow> bool) \<Rightarrow> ('a \<Rightarrow> 's \<Rightarrow> 'e) \<Rightarrow> ('a \<Rightarrow> 's \<Rightarrow> 's) \<Rightarrow> 'a list \<Rightarrow> 's \<Rightarrow> 'e list"
where
  "accepted_items ref item add [] s = []"
| "accepted_items ref item add (a # as) s =
     (if ref a s then [] else [item a s]) @ accepted_items ref item add as (add a s)"

locale bounded_log =
  fixes cap :: nat
    and inv :: "'s \<Rightarrow> bool"
    and entries :: "'s \<Rightarrow> 'e list"
    and refused :: "'a \<Rightarrow> 's \<Rightarrow> bool"
    and item :: "'a \<Rightarrow> 's \<Rightarrow> 'e"
    and add :: "'a \<Rightarrow> 's \<Rightarrow> 's"
  assumes cap_pos: "0 < cap"
    and inv_add: "inv s \<Longrightarrow> inv (add a s)"
    and entries_cap: "inv s \<Longrightarrow> length (entries s) \<le> cap"
    and entries_refused: "inv s \<Longrightarrow> refused a s \<Longrightarrow> entries (add a s) = entries s"
    and entries_add: "inv s \<Longrightarrow> \<not> refused a s
      \<Longrightarrow> entries (add a s) = last_n cap (entries s @ [item a s])"
begin

lemma inv_adds: "inv s \<Longrightarrow> inv (fold add as s)"
  by (induction as arbitrary: s) (auto simp: inv_add)

lemma latest: "inv s \<Longrightarrow> \<not> refused a s \<Longrightarrow> last (entries (add a s)) = item a s"
  by (simp add: entries_add last_last_n cap_pos)

lemma entries_adds:
  "inv s \<Longrightarrow> entries (fold add as s) = last_n cap (entries s @ accepted_items refused item add as s)"
proof (induction as arbitrary: s)
  case Nil
  then show ?case by (simp add: entries_cap)
next
  case (Cons a as)
  show ?case
  proof (cases "refused a s")
    case True
    with Cons show ?thesis by (simp add: inv_add entries_refused)
  next
    case False
    with Cons show ?thesis
      by (simp add: inv_add entries_add last_n_append)
  qed
qed

end

end
