(* ===== verification/Ram.thy ===== *)
theory Ram
  imports Prelude
begin

text \<open>
  The byte-addressed memory of the machine, little-endian loads and stores of 32- and
  64-bit values, and the interfaces \<open>cell_field\<close> and \<open>cell_fields\<close> that the linked structures of
  the kernel (page descriptors, heap headers), 24-byte cells, are read and written through.
\<close>

type_synonym ram = "u64 \<Rightarrow> u8"

definition load_bytes :: "ram \<Rightarrow> u64 \<Rightarrow> nat \<Rightarrow> u8 list" where
  "load_bytes m a n = map (\<lambda>i. m (a + of_nat i)) [0..<n]"

fun store_bytes :: "ram \<Rightarrow> u64 \<Rightarrow> u8 list \<Rightarrow> ram" where
  "store_bytes m a [] = m"
| "store_bytes m a (b # bs) = store_bytes (m(a := b)) (a + 1) bs"

definition bytes_of :: "'a::len word \<Rightarrow> nat \<Rightarrow> u8 list" where
  "bytes_of w n = map (\<lambda>i. ucast (drop_bit (8 * i) w)) [0..<n]"

definition word_of :: "u8 list \<Rightarrow> 'a::len word" where
  "word_of bs = foldr (\<lambda>b acc. push_bit 8 acc OR ucast b) bs 0"

definition ld64 :: "ram \<Rightarrow> u64 \<Rightarrow> u64" where
  "ld64 m a = word_of (load_bytes m a 8)"

definition st64 :: "ram \<Rightarrow> u64 \<Rightarrow> u64 \<Rightarrow> ram" where
  "st64 m a w = store_bytes m a (bytes_of w 8)"

definition ld32 :: "ram \<Rightarrow> u64 \<Rightarrow> u32" where
  "ld32 m a = word_of (load_bytes m a 4)"

definition st32 :: "ram \<Rightarrow> u64 \<Rightarrow> u32 \<Rightarrow> ram" where
  "st32 m a w = store_bytes m a (bytes_of w 4)"

text \<open>The addresses of \<open>n\<close> bytes from \<open>a\<close> (wrapping at the top, as the hardware does).\<close>

definition span :: "u64 \<Rightarrow> nat \<Rightarrow> u64 set" where
  "span a n = (\<lambda>i. a + of_nat i) ` {..<n}"


subsection \<open>Spans and intervals\<close>

lemma span_0 [simp]: "span a 0 = {}"
  by (simp add: span_def)

lemma span_Suc: "span a (Suc n) = insert a (span (a + 1) n)"
proof -
  have "{..<Suc n} = insert 0 (Suc ` {..<n})"
    by (auto simp: lessThan_Suc_eq_insert_0)
  then show ?thesis
    by (simp add: span_def image_image add.assoc)
qed

lemma span_mono: "k \<le> n \<Longrightarrow> span a k \<subseteq> span a n"
  by (auto simp: span_def)

lemma span_offset: "k + j \<le> n \<Longrightarrow> span (a + of_nat k) j \<subseteq> span a n"
proof
  fix x assume "k + j \<le> n" and "x \<in> span (a + of_nat k) j"
  then obtain i where "i < j" and "x = a + of_nat (k + i)"
    by (auto simp: span_def add.assoc)
  with \<open>k + j \<le> n\<close> show "x \<in> span a n"
    by (auto simp: span_def intro!: image_eqI [where x = "k + i"])
qed

lemma unat_plus_nat:
  "unat (a::u64) + n < 2 ^ 64 \<Longrightarrow> unat (a + of_nat n) = unat a + n"
  by (simp add: unat_of_nat unat_word_ariths)

lemma span_interval:
  assumes "unat a + n \<le> 2 ^ 64"
  shows "x \<in> span a n \<longleftrightarrow> unat a \<le> unat x \<and> unat x < unat a + n"
proof
  assume "x \<in> span a n"
  then obtain i where "i < n" and "x = a + of_nat i" by (auto simp: span_def)
  with assms show "unat a \<le> unat x \<and> unat x < unat a + n"
    by (simp add: unat_plus_nat)
next
  assume x: "unat a \<le> unat x \<and> unat x < unat a + n"
  then have "x = a + of_nat (unat x - unat a)"
    by (simp add: word_le_nat_alt)
  moreover from x have "unat x - unat a < n" by auto
  ultimately show "x \<in> span a n"
    by (auto simp: span_def)
qed

lemma span_nat:
  assumes "a + n \<le> 2 ^ 64" and "x < 2 ^ 64" and "a < 2 ^ 64"
  shows "(of_nat x :: u64) \<in> span (of_nat a) n \<longleftrightarrow> a \<le> x \<and> x < a + n"
  using assms by (subst span_interval) (auto simp: unat_of_nat)


subsection \<open>Loads and stores\<close>

lemma length_load_bytes [simp]: "length (load_bytes m a n) = n"
  by (simp add: load_bytes_def)

lemma length_bytes_of [simp]: "length (bytes_of w n) = n"
  by (simp add: bytes_of_def)

lemma nth_load_bytes [simp]: "i < n \<Longrightarrow> load_bytes m a n ! i = m (a + of_nat i)"
  by (simp add: load_bytes_def)

lemma load_bytes_cong:
  "(\<And>x. x \<in> span a n \<Longrightarrow> m x = m' x) \<Longrightarrow> load_bytes m a n = load_bytes m' a n"
  by (auto simp: load_bytes_def span_def)

lemma store_bytes_other: "x \<notin> span a (length bs) \<Longrightarrow> store_bytes m a bs x = m x"
  by (induction bs arbitrary: m a) (auto simp: span_Suc)

lemma store_bytes_nth:
  "i < length bs \<Longrightarrow> length bs \<le> 2 ^ 64 \<Longrightarrow> store_bytes m a bs (a + of_nat i) = bs ! i"
proof (induction bs arbitrary: m a i)
  case (Cons b bs)
  show ?case
  proof (cases i)
    case 0
    have "a \<notin> span (a + 1) (length bs)"
    proof
      assume "a \<in> span (a + 1) (length bs)"
      then obtain j where j: "j < length bs" "a = a + 1 + of_nat j" by (auto simp: span_def)
      then have "(of_nat (Suc j) :: u64) = 0" by (simp add: add.assoc)
      then have "2 ^ LENGTH(64) dvd Suc j" by (simp only: word_of_nat_eq_0_iff)
      then have "2 ^ LENGTH(64) \<le> Suc j" by (rule dvd_imp_le) simp
      with j Cons.prems show False by simp
    qed
    with 0 show ?thesis by (simp add: store_bytes_other)
  next
    case (Suc j)
    have eq: "a + of_nat i = (a + 1) + of_nat j" by (simp add: Suc add.assoc)
    have "store_bytes m a (b # bs) (a + of_nat i)
        = store_bytes (m(a := b)) (a + 1) bs ((a + 1) + of_nat j)"
      by (simp only: store_bytes.simps eq)
    also have "\<dots> = bs ! j"
      by (rule Cons.IH) (use Suc Cons.prems in auto)
    finally show ?thesis by (simp add: Suc)
  qed
qed simp

lemma load_store_bytes:
  "length bs = n \<Longrightarrow> n \<le> 2 ^ 64 \<Longrightarrow> load_bytes (store_bytes m a bs) a n = bs"
  by (auto intro!: nth_equalityI simp: store_bytes_nth)

lemma store_load_bytes: "store_bytes m a (load_bytes m a n) = m"
proof (induction n arbitrary: a)
  case (Suc n)
  have "load_bytes m a (Suc n) = m a # load_bytes m (a + 1) n"
    by (simp add: load_bytes_def upt_conv_Cons map_Suc_upt [symmetric] add.assoc del: upt_Suc)
  with Suc show ?case by simp
qed (simp add: load_bytes_def)

lemma store_bytes_append:
  "store_bytes m a (xs @ ys) = store_bytes (store_bytes m a xs) (a + of_nat (length xs)) ys"
  by (induction xs arbitrary: m a) (auto simp: add.assoc)

lemma bit_word_of:
  "bit (word_of bs :: 'a::len word) k \<longleftrightarrow>
     k < LENGTH('a) \<and> k div 8 < length bs \<and> bit (bs ! (k div 8)) (k mod 8)"
proof (induction bs arbitrary: k)
  case Nil
  then show ?case by (simp add: word_of_def)
next
  case (Cons b bs)
  have step: "bit (word_of (b # bs) :: 'a word) k \<longleftrightarrow>
      k < LENGTH('a) \<and> (8 \<le> k \<and> bit (word_of bs :: 'a word) (k - 8) \<or> k < 8 \<and> bit b k)"
    by (auto simp: word_of_def bit_simps bit_imp_le_length
        dest: bit_imp_le_length)
  show ?case
  proof (cases "k < 8")
    case True
    with step show ?thesis by auto
  next
    case False
    then obtain j where k: "k = j + 8" by (metis add.commute le_Suc_ex not_less)
    then have "k div 8 = Suc (j div 8)" and "k mod 8 = j mod 8" by simp_all
    with k step Cons.IH [of j] show ?thesis by auto
  qed
qed

lemma word_of_bytes_of:
  assumes "LENGTH('a::len) \<le> 8 * n"
  shows "word_of (bytes_of (w :: 'a word) n) = w"
proof (rule bit_word_eqI)
  fix k assume k: "k < LENGTH('a)"
  with assms have "k div 8 < n" by auto
  with k show "bit (word_of (bytes_of w n) :: 'a word) k \<longleftrightarrow> bit w k"
    by (auto simp: bit_word_of bytes_of_def bit_simps)
qed

lemma ld64_st64 [simp]: "ld64 (st64 m a w) a = w"
  by (simp add: ld64_def st64_def load_store_bytes word_of_bytes_of)

lemma ld32_st32 [simp]: "ld32 (st32 m a w) a = w"
  by (simp add: ld32_def st32_def load_store_bytes word_of_bytes_of)

lemma ld64_cong: "(\<And>x. x \<in> span a 8 \<Longrightarrow> m x = m' x) \<Longrightarrow> ld64 m a = ld64 m' a"
  by (simp add: ld64_def cong: load_bytes_cong)

lemma ld32_cong: "(\<And>x. x \<in> span a 4 \<Longrightarrow> m x = m' x) \<Longrightarrow> ld32 m a = ld32 m' a"
  by (simp add: ld32_def cong: load_bytes_cong)

lemma st64_other: "x \<notin> span a 8 \<Longrightarrow> st64 m a w x = m x"
  by (simp add: st64_def store_bytes_other)

lemma st32_other: "x \<notin> span a 4 \<Longrightarrow> st32 m a w x = m x"
  by (simp add: st32_def store_bytes_other)


subsection \<open>Fields of a 24-byte cell\<close>

text \<open>
  A field of a structure in memory: a reader and a writer of the bytes at an offset. The
  contract lets clients reason about structures without their byte layout.
\<close>

locale cell_field =
  fixes get :: "ram \<Rightarrow> u64 \<Rightarrow> 'v"
    and put :: "u64 \<Rightarrow> 'v \<Rightarrow> ram \<Rightarrow> ram"
    and off len :: nat
  assumes get_put: "get (put a v m) a = v"
    and put_other: "x \<notin> span (a + of_nat off) len \<Longrightarrow> put a v m x = m x"
    and get_cong: "(\<And>x. x \<in> span (a + of_nat off) len \<Longrightarrow> m x = m' x) \<Longrightarrow> get m a = get m' a"
    and inside: "off + len \<le> 24"
begin

lemma field_in_cell: "span (a + of_nat off) len \<subseteq> span a 24"
  by (rule span_offset) (rule inside)

lemma put_outside: "x \<notin> span a 24 \<Longrightarrow> put a v m x = m x"
  using field_in_cell by (blast intro: put_other)

lemma get_agree: "(\<And>x. x \<in> span a 24 \<Longrightarrow> m x = m' x) \<Longrightarrow> get m a = get m' a"
  by (rule get_cong) (use field_in_cell in blast)

lemma get_put_apart: "span a 24 \<inter> span b 24 = {} \<Longrightarrow> get (put b v m) a = get m a"
  by (rule get_agree) (blast intro: put_outside)

end

text \<open>Two fields that do not overlap.\<close>

locale cell_fields =
  f: cell_field getf putf offf lenf + g: cell_field getg putg offg leng
  for getf :: "ram \<Rightarrow> u64 \<Rightarrow> 'v" and putf offf lenf
    and getg :: "ram \<Rightarrow> u64 \<Rightarrow> 'w" and putg offg leng +
  assumes apart: "offf + lenf \<le> offg \<or> offg + leng \<le> offf"
begin

lemma fields_disjoint: "span (a + of_nat offf) lenf \<inter> span (a + of_nat offg) leng = {}"
proof -
  have "False" if "i < lenf" "j < leng" "a + of_nat offf + of_nat i = a + of_nat offg + (of_nat j :: u64)" for i j
  proof -
    have "(of_nat (offf + i) :: u64) = of_nat (offg + j)" using that(3) by (simp add: add.assoc)
    then have "unat (of_nat (offf + i) :: u64) = unat (of_nat (offg + j) :: u64)" by (rule arg_cong)
    moreover have "offf + i < 2 ^ LENGTH(64)" and "offg + j < 2 ^ LENGTH(64)"
      using f.inside g.inside that(1,2) by simp_all
    ultimately have "offf + i = offg + j" by (simp only: unat_of_nat mod_less)
    with apart that(1,2) show False by auto
  qed
  then show ?thesis by (auto simp: span_def)
qed

lemma get_put_other: "getf (putg a v m) a = getf m a"
  by (rule f.get_cong) (use fields_disjoint in \<open>blast intro: g.put_other\<close>)

lemma get_put_other': "getg (putf a v m) a = getg m a"
  by (rule g.get_cong) (use fields_disjoint in \<open>blast intro: f.put_other\<close>)

lemma get_apart: "span a 24 \<inter> span b 24 = {} \<Longrightarrow> getf (putg b v m) a = getf m a"
  by (rule f.get_agree) (blast intro: g.put_outside)

lemma get_apart': "span a 24 \<inter> span b 24 = {} \<Longrightarrow> getg (putf b v m) a = getg m a"
  by (rule g.get_agree) (blast intro: f.put_outside)

end

lemma cell_field_64: "off \<le> 16 \<Longrightarrow> cell_field (\<lambda>m a. ld64 m (a + of_nat off)) (\<lambda>a v m. st64 m (a + of_nat off) v) off 8"
  by unfold_locales (auto simp: st64_other intro: ld64_cong)

lemma cell_field_32: "off \<le> 20 \<Longrightarrow> cell_field (\<lambda>m a. ld32 m (a + of_nat off)) (\<lambda>a v m. st32 m (a + of_nat off) v) off 4"
  by unfold_locales (auto simp: st32_other intro: ld32_cong)

end
