(* ===== verification/CLib.thy ===== *)
theory CLib
  imports Ram
begin

text \<open>
  The freestanding C library of the kernel (\<open>kernel/lib.h\<close>): the inline-assembly
  memory routines on the byte memory, and the string routines on character arrays.
  Note the argument order of \<open>memcpy\<close>: source first, destination second.
\<close>

subsection \<open>Memory routines\<close>

text \<open>\<open>rep movs\<close> of \<open>n\<close> items of \<open>w\<close> bytes: returns \<open>rsi\<close>, \<open>rdi\<close> and the memory.\<close>

fun rep_movs :: "nat \<Rightarrow> nat \<Rightarrow> u64 \<Rightarrow> u64 \<Rightarrow> ram \<Rightarrow> u64 \<times> u64 \<times> ram" where
  "rep_movs w 0 si di m = (si, di, m)"
| "rep_movs w (Suc n) si di m =
     rep_movs w n (si + of_nat w) (di + of_nat w) (store_bytes m di (load_bytes m si w))"

definition memcpy :: "u64 \<Rightarrow> u64 \<Rightarrow> nat \<Rightarrow> ram \<Rightarrow> ram" where
  "memcpy From To Num m =
     (let (si, di, m) = rep_movs 8 (Num div 8) From To m;
          (si, di, m) = (if bit Num 2 then rep_movs 4 1 si di m else (si, di, m));
          (si, di, m) = (if bit Num 1 then rep_movs 2 1 si di m else (si, di, m));
          (si, di, m) = (if bit Num 0 then rep_movs 1 1 si di m else (si, di, m))
      in m)"

text \<open>
  \<open>repe cmpsb\<close>: the last pair of bytes compared (\<open>[rdi]\<close> and \<open>[rsi]\<close>); with a zero
  count no comparison is made and the flags are those left by earlier code.
\<close>

fun repe_cmpsb :: "nat \<Rightarrow> u64 \<Rightarrow> u64 \<Rightarrow> ram \<Rightarrow> (u8 \<times> u8) option" where
  "repe_cmpsb 0 di si m = None"
| "repe_cmpsb (Suc n) di si m =
     (if m di = m si \<and> n \<noteq> 0 then repe_cmpsb n (di + 1) (si + 1) m else Some (m di, m si))"

definition memcmp :: "u64 \<Rightarrow> u64 \<Rightarrow> nat \<Rightarrow> ram \<Rightarrow> int option" where
  "memcmp FirstPart SecondPart Count m =
     (case repe_cmpsb Count FirstPart SecondPart m of
        None \<Rightarrow> None
      | Some (d, s) \<Rightarrow> Some (if s = d then 0 else if s <s d then 1 else -1))"

text \<open>\<open>rep stos\<close> of \<open>n\<close> items of \<open>w\<close> bytes, the low bytes of \<open>rax\<close>.\<close>

fun rep_stos :: "nat \<Rightarrow> nat \<Rightarrow> u64 \<Rightarrow> u64 \<Rightarrow> ram \<Rightarrow> u64 \<times> ram" where
  "rep_stos w 0 rax di m = (di, m)"
| "rep_stos w (Suc n) rax di m =
     rep_stos w n rax (di + of_nat w) (store_bytes m di (bytes_of rax w))"

definition memset :: "u64 \<Rightarrow> u8 \<Rightarrow> nat \<Rightarrow> ram \<Rightarrow> ram" where
  "memset Address C Count m =
     (let tmp = ucast C * 0x0101010101010101;
          (di, m) = rep_stos 8 (Count div 8) tmp Address m;
          (di, m) = (if bit Count 2 then rep_stos 4 1 tmp di m else (di, m));
          (di, m) = (if bit Count 1 then rep_stos 2 1 tmp di m else (di, m));
          (di, m) = (if bit Count 0 then rep_stos 1 1 tmp di m else (di, m))
      in m)"

definition bit_set :: "u64 \<Rightarrow> nat \<Rightarrow> u64" where
  "bit_set v nr = v OR push_bit nr 1"

definition bit_get :: "u64 \<Rightarrow> nat \<Rightarrow> u64" where
  "bit_get v nr = v AND push_bit nr 1"

definition bit_clean :: "u64 \<Rightarrow> nat \<Rightarrow> u64" where
  "bit_clean v nr = v AND NOT (push_bit nr 1)"


subsection \<open>String routines\<close>

text \<open>On character arrays; \<open>None\<close> is a read or a write past the end of an array.\<close>

fun strlen :: "string \<Rightarrow> nat option" where
  "strlen [] = None"
| "strlen (c # cs) = (if c = NUL then Some 0 else map_option Suc (strlen cs))"

fun strcmp :: "string \<Rightarrow> string \<Rightarrow> int option" where
  "strcmp (a # s1) (b # s2) =
     (if a \<noteq> NUL \<and> a = b then strcmp s1 s2 else Some (of_char a - of_char b))"
| "strcmp _ _ = None"

fun strncpy_pad :: "string \<Rightarrow> nat \<Rightarrow> string option" where
  "strncpy_pad d 0 = Some d"
| "strncpy_pad (_ # d) (Suc n) = map_option (Cons NUL) (strncpy_pad d n)"
| "strncpy_pad [] (Suc n) = None"

fun strncpy :: "string \<Rightarrow> string \<Rightarrow> nat \<Rightarrow> string option" where
  "strncpy d src 0 = Some d"
| "strncpy d [] (Suc n) = None"
| "strncpy d (c # src) (Suc n) =
     (if c = NUL then strncpy_pad d (Suc n)
      else case d of [] \<Rightarrow> None | _ # d' \<Rightarrow> map_option (Cons c) (strncpy d' src n))"

fun str_copy :: "string \<Rightarrow> string \<Rightarrow> string option" where
  "str_copy (_ # d) (c # src) =
     (if c = NUL then Some (c # d) else map_option (Cons c) (str_copy d src))"
| "str_copy _ _ = None"


subsection \<open>The memory routines move the bytes they should\<close>

lemma load_bytes_append:
  "load_bytes m a (j + k) = load_bytes m a j @ load_bytes m (a + of_nat j) k"
  by (rule nth_equalityI) (auto simp: nth_append add.assoc simp flip: of_nat_add)

lemma load_after_store:
  assumes "span a n \<inter> span b (length bs) = {}"
  shows "load_bytes (store_bytes m b bs) a n = load_bytes m a n"
  by (rule load_bytes_cong) (use assms in \<open>auto intro: store_bytes_other\<close>)

text \<open>One copying phase: after \<open>j\<close> bytes moved, the next \<open>k\<close> follow.\<close>

lemma copy_phase:
  assumes "span a (j + k) \<inter> span b (j + k) = {}"
  shows "store_bytes (store_bytes m b (load_bytes m a j)) (b + of_nat j)
      (load_bytes (store_bytes m b (load_bytes m a j)) (a + of_nat j) k)
    = store_bytes m b (load_bytes m a (j + k))"
proof -
  have "span (a + of_nat j) k \<inter> span b (length (load_bytes m a j)) = {}"
    using assms span_offset [of j k "j + k" a] span_mono [of j "j + k" b] by auto
  then show ?thesis
    by (simp add: load_after_store load_bytes_append store_bytes_append)
qed

lemma rep_movs_copies:
  assumes "span si (w * n) \<inter> span di (w * n) = {}"
  shows "rep_movs w n si di m
    = (si + of_nat (w * n), di + of_nat (w * n), store_bytes m di (load_bytes m si (w * n)))"
  using assms
proof (induction n arbitrary: si di m)
  case (Suc n)
  let ?m = "store_bytes m di (load_bytes m si w)"
  have "span (si + of_nat w) (w * n) \<inter> span (di + of_nat w) (w * n) = {}"
    using Suc.prems span_offset [of w "w * n" "w * Suc n"] by fastforce
  then have "rep_movs w (Suc n) si di m = (si + of_nat (w * Suc n), di + of_nat (w * Suc n),
      store_bytes ?m (di + of_nat w) (load_bytes ?m (si + of_nat w) (w * n)))"
    by (simp add: Suc.IH add.assoc)
  with Suc.prems copy_phase [of si w "w * n" di m] show ?case by simp
qed (simp add: load_bytes_def)

lemma binary_tail:
  "8 * (n div 8) + (if bit n 2 then 4 else 0) + (if bit n 1 then 2 else 0)
    + (if bit n 0 then 1 else 0) = (n::nat)"
  by (simp add: bit_iff_odd, presburger)

lemma memcpy_copies:
  assumes disj: "span From n \<inter> span To n = {}"
  shows "memcpy From To n m = store_bytes m To (load_bytes m From n)"
proof -
  let ?st = "\<lambda>k. (From + of_nat k, To + of_nat k, store_bytes m To (load_bytes m From k))"
  define a b2 b1 b0 where "a = 8 * (n div 8)" and "b2 = (if bit n 2 then 4 else 0 :: nat)"
    and "b1 = (if bit n 1 then 2 else 0 :: nat)" and "b0 = (if bit n 0 then 1 else 0 :: nat)"
  note parts = this
  have n: "a + b2 + b1 + b0 = n"
    unfolding parts by (rule binary_tail)
  have d: "span From k \<inter> span To k = {}" if "k \<le> n" for k
    using disj span_mono [OF that] by blast
  have opt: "(if P then rep_movs w 1 (From + of_nat k) (To + of_nat k)
        (store_bytes m To (load_bytes m From k)) else ?st k) = ?st (k + (if P then w else 0))"
    if "k + (if P then w else 0) \<le> n" for P w k
    using that d [of "k + w"] copy_phase [of From k w To m]
    by (cases P) (simp_all add: add.assoc)
  have q: "rep_movs 8 (n div 8) From To m = ?st a"
    unfolding parts by (rule rep_movs_copies) (rule d, simp)
  have o2: "(if bit n 2 then rep_movs 4 1 (From + of_nat a) (To + of_nat a)
        (store_bytes m To (load_bytes m From a)) else ?st a) = ?st (a + b2)"
    unfolding parts(2) by (rule opt) (use n parts in simp)
  have o1: "(if bit n 1 then rep_movs 2 1 (From + of_nat (a + b2)) (To + of_nat (a + b2))
        (store_bytes m To (load_bytes m From (a + b2))) else ?st (a + b2)) = ?st (a + b2 + b1)"
    unfolding parts(3) by (rule opt) (use n parts in simp)
  have o0: "(if bit n 0 then rep_movs 1 1 (From + of_nat (a + b2 + b1)) (To + of_nat (a + b2 + b1))
        (store_bytes m To (load_bytes m From (a + b2 + b1))) else ?st (a + b2 + b1))
      = ?st (a + b2 + b1 + b0)"
    unfolding parts(4) by (rule opt) (use n parts in simp)
  show ?thesis
    by (simp only: memcpy_def Let_def q o2 o1 o0 prod.case n)
qed


lemma bytes_of_word_of:
  assumes "length bs = n" and "8 * n \<le> LENGTH('a::len)"
  shows "bytes_of (word_of bs :: 'a word) n = bs"
proof (rule nth_equalityI)
  fix i assume "i < length (bytes_of (word_of bs :: 'a word) n)"
  then have i: "i < n" by simp
  show "bytes_of (word_of bs :: 'a word) n ! i = bs ! i"
  proof (rule bit_word_eqI)
    fix k assume "k < LENGTH(8)"
    with i assms show "bit (bytes_of (word_of bs :: 'a word) n ! i) k \<longleftrightarrow> bit (bs ! i) k"
      by (auto simp: bytes_of_def bit_word_of bit_simps)
  qed
qed (use assms in simp)

lemma word_of_Cons: "word_of (b # bs) = (256 * word_of bs + ucast b :: u64)"
proof -
  have "push_bit 8 (word_of bs) OR ucast b = push_bit 8 (word_of bs) + (ucast b :: u64)"
    by (rule disjunctive_add [symmetric]) (auto simp: bit_simps dest: bit_imp_le_length)
  then show ?thesis
    by (simp add: word_of_def push_bit_eq_mult mult.commute)
qed

lemma bytes_of_pattern:
  assumes "w \<le> 8"
  shows "bytes_of (ucast (C :: u8) * 0x0101010101010101 :: u64) w = replicate w C"
proof -
  have "(word_of (replicate 8 C) :: u64) = ucast C * 0x0101010101010101"
  proof -
    have r: "replicate 8 C = [C, C, C, C, C, C, C, C]"
      by (simp add: numeral_eq_Suc)
    have z: "word_of [] = (0 :: u64)"
      by (simp add: word_of_def)
    have "256 * (256 * (256 * (256 * (256 * (256 * (256 * (256 * 0 + x) + x) + x) + x) + x) + x) + x) + x
        = x * 0x0101010101010101" for x :: u64
      by (simp add: algebra_simps)
    then show ?thesis
      unfolding r word_of_Cons z .
  qed
  moreover have "bytes_of (word_of (replicate 8 C) :: u64) 8 = replicate 8 C"
    by (rule bytes_of_word_of) simp_all
  ultimately have full: "bytes_of (ucast C * 0x0101010101010101 :: u64) 8 = replicate 8 C"
    by simp
  have "bytes_of (ucast C * 0x0101010101010101 :: u64) w
      = take w (bytes_of (ucast C * 0x0101010101010101 :: u64) 8)"
    using assms by (simp add: bytes_of_def take_map take_upt del: upt_rec_numeral)
  with full assms show ?thesis by (simp add: min_def)
qed

lemma fill_phase:
  "store_bytes (store_bytes m b (replicate j c)) (b + of_nat j) (replicate k c)
    = store_bytes m b (replicate (j + k) c)"
  by (simp add: replicate_add store_bytes_append)

lemma rep_stos_fills:
  assumes "w \<le> 8"
  shows "rep_stos w n (ucast C * 0x0101010101010101) di m
    = (di + of_nat (w * n), store_bytes m di (replicate (w * n) C))"
proof (induction n arbitrary: di m)
  case (Suc n)
  show ?case
    using fill_phase [of m di w C "w * n"]
    by (simp add: Suc.IH bytes_of_pattern [OF assms] add.assoc)
qed simp

lemma memset_fills: "memset a C n m = store_bytes m a (replicate n C)"
proof -
  let ?tmp = "ucast C * 0x0101010101010101 :: u64"
  let ?st = "\<lambda>k. (a + of_nat k, store_bytes m a (replicate k C))"
  define q b2 b1 b0 where "q = 8 * (n div 8)" and "b2 = (if bit n 2 then 4 else 0 :: nat)"
    and "b1 = (if bit n 1 then 2 else 0 :: nat)" and "b0 = (if bit n 0 then 1 else 0 :: nat)"
  note parts = this
  have n: "q + b2 + b1 + b0 = n"
    unfolding parts by (rule binary_tail)
  have opt: "(if P then rep_stos w 1 ?tmp (a + of_nat k) (store_bytes m a (replicate k C))
      else ?st k) = ?st (k + (if P then w else 0))" if "w \<le> 8" for P w k
    using that fill_phase [of m a k C w] rep_stos_fills [OF that, of 1 C]
    by (cases P) (simp_all add: add.assoc del: rep_stos.simps)
  have q: "rep_stos 8 (n div 8) ?tmp a m = ?st q"
    unfolding parts by (rule rep_stos_fills) simp
  have o2: "(if bit n 2 then rep_stos 4 1 ?tmp (a + of_nat q)
      (store_bytes m a (replicate q C)) else ?st q) = ?st (q + b2)"
    unfolding parts(2) by (rule opt) simp
  have o1: "(if bit n 1 then rep_stos 2 1 ?tmp (a + of_nat (q + b2))
      (store_bytes m a (replicate (q + b2) C)) else ?st (q + b2)) = ?st (q + b2 + b1)"
    unfolding parts(3) by (rule opt) simp
  have o0: "(if bit n 0 then rep_stos 1 1 ?tmp (a + of_nat (q + b2 + b1))
      (store_bytes m a (replicate (q + b2 + b1) C)) else ?st (q + b2 + b1))
      = ?st (q + b2 + b1 + b0)"
    unfolding parts(4) by (rule opt) simp
  show ?thesis
    by (simp only: memset_def Let_def q o2 o1 o0 prod.case n)
qed

lemma memcpy_frame:
  assumes "span From n \<inter> span To n = {}" and "x \<notin> span To n"
  shows "memcpy From To n m x = m x"
  using assms by (simp add: memcpy_copies store_bytes_other)

lemma memset_frame: "x \<notin> span a n \<Longrightarrow> memset a C n m x = m x"
  by (simp add: memset_fills store_bytes_other)

lemma memset_inside:
  assumes "x \<in> span a n" and "n \<le> 2 ^ 64"
  shows "memset a C n m x = C"
proof -
  from assms(1) obtain i where "i < n" "x = a + of_nat i" by (auto simp: span_def)
  with assms(2) show ?thesis
    by (simp add: memset_fills store_bytes_nth)
qed

lemma repe_cmpsb_scan:
  assumes "0 < n"
  shows "\<exists>i<n. repe_cmpsb n p q m = Some (m (p + of_nat i), m (q + of_nat i))
    \<and> (\<forall>j<i. m (p + of_nat j) = m (q + of_nat j))
    \<and> (i + 1 < n \<longrightarrow> m (p + of_nat i) \<noteq> m (q + of_nat i))"
  using assms
proof (induction n arbitrary: p q)
  case (Suc n)
  show ?case
  proof (cases "m p = m q \<and> n \<noteq> 0")
    case True
    then obtain i where i: "i < n"
        "repe_cmpsb n (p + 1) (q + 1) m = Some (m (p + of_nat (Suc i)), m (q + of_nat (Suc i)))"
        "\<forall>j<i. m (p + of_nat (Suc j)) = m (q + of_nat (Suc j))"
        "i + 1 < n \<longrightarrow> m (p + of_nat (Suc i)) \<noteq> m (q + of_nat (Suc i))"
      using Suc.IH [of "p + 1" "q + 1"] by (auto simp: add.assoc)
    with True show ?thesis
      by (intro exI [of _ "Suc i"]) (auto simp: less_Suc_eq_0_disj simp del: of_nat_Suc)
  next
    case False
    then show ?thesis by (intro exI [of _ 0]) auto
  qed
qed simp


subsection \<open>Bits\<close>

lemma bit_bit_set: "n < 64 \<Longrightarrow> bit (bit_set v nr) n \<longleftrightarrow> n = nr \<or> bit v n"
  by (auto simp: bit_set_def bit_simps)

lemma bit_bit_clean: "n < 64 \<Longrightarrow> bit (bit_clean v nr) n \<longleftrightarrow> n \<noteq> nr \<and> bit v n"
  by (auto simp: bit_clean_def bit_simps)

lemma bit_get_nonzero: "nr < 64 \<Longrightarrow> bit_get v nr \<noteq> 0 \<longleftrightarrow> bit v nr"
  by (simp add: bit_get_def push_bit_eq_mult and_exp_eq_0_iff_not_bit)


subsection \<open>Strings\<close>

lemma strlen_eq: "strlen buf = (if NUL \<in> set buf then Some (length (cstr buf)) else None)"
  by (induction buf) auto

lemma of_char_eq_0_iff: "(of_char c :: int) = 0 \<longleftrightarrow> c = NUL"
  using of_char_eq_iff [of c NUL, where ?'a = int] by simp

lemma strcmp_eq_0:
  assumes "NUL \<in> set a" and "NUL \<in> set b"
  shows "\<exists>r. strcmp a b = Some r \<and> (r = 0 \<longleftrightarrow> cstr a = cstr b)"
  using assms
proof (induction a b rule: strcmp.induct)
  case (1 x a y b)
  then show ?case
    by (cases "x = NUL"; cases "y = NUL") (auto simp: of_char_eq_0_iff)
qed auto

lemma str_copy_eq:
  assumes "NUL \<in> set src" and "length (cstr src) < length d"
  shows "str_copy d src = Some (cstr src @ NUL # drop (Suc (length (cstr src))) d)"
  using assms
proof (induction d src rule: str_copy.induct)
  case (1 x d c src)
  then show ?case by (cases "c = NUL") auto
qed auto

lemma str_copy_None:
  assumes "NUL \<in> set src" and "length d \<le> length (cstr src)"
  shows "str_copy d src = None"
  using assms
proof (induction d src rule: str_copy.induct)
  case (1 x d c src)
  then show ?case by (cases "c = NUL") auto
qed auto

lemma strncpy_pad_eq:
  "n \<le> length d \<Longrightarrow> strncpy_pad d n = Some (replicate n NUL @ drop n d)"
  by (induction d n rule: strncpy_pad.induct) auto

lemma strncpy_eq:
  assumes "NUL \<in> set src" and "n \<le> length d"
  shows "strncpy d src n = Some (take n (cstr src) @ replicate (n - length (cstr src)) NUL @ drop n d)"
  using assms
proof (induction d src n rule: strncpy.induct)
  case (3 d c src n)
  show ?case
  proof (cases "c = NUL")
    case True
    with 3 show ?thesis by (simp add: strncpy_pad_eq del: strncpy_pad.simps)
  next
    case False
    with 3 show ?thesis by (cases d) auto
  qed
qed auto

subsection \<open>Properties\<close>

text \<open>C38: \<open>memcpy\<close>, which moves 8 bytes at a time and then a binary tail of 4, 2 and 1, leaves at
  \<open>To\<close> exactly the \<open>n\<close> bytes that stood at \<open>From\<close> and changes no other byte, for regions that do
  not overlap.\<close>

theorem memcpy_moves_region:
  assumes "span From n \<inter> span To n = {}" and "n \<le> 2 ^ 64"
  shows "load_bytes (memcpy From To n m) To n = load_bytes m From n
    \<and> (\<forall>x. x \<notin> span To n \<longrightarrow> memcpy From To n m x = m x)"
  using assms by (simp add: memcpy_copies load_store_bytes store_bytes_other)

theorem memcpy_moves_region_witness:
  "load_bytes (memcpy 0 32 3 (\<lambda>x. ucast x + 5)) 32 3 = [5, 6, 7]"
proof -
  have "span 0 3 \<inter> span 32 3 = {}"
    by (auto simp: span_def numeral_3_eq_3 lessThan_Suc)
  from memcpy_moves_region [OF this, of "\<lambda>x. ucast x + 5"] show ?thesis
    by (simp add: load_bytes_def numeral_3_eq_3 upt_rec)
qed

text \<open>\<open>memset\<close>, which stores a replicated 8-byte pattern and then a binary tail, sets every
  byte of the region to \<open>C\<close> and no other byte.\<close>

theorem memset_fills_region:
  assumes "n \<le> 2 ^ 64"
  shows "memset a C n m = (\<lambda>x. if x \<in> span a n then C else m x)"
  using assms by (simp add: fun_eq_iff memset_inside memset_frame)

theorem memset_fills_region_witness: "memset 16 7 13 (\<lambda>_. 0) 28 = 7 \<and> memset 16 7 13 (\<lambda>_. 0) 29 = 0"
  using memset_fills_region [of 13 16 7 "\<lambda>_. 0"] by (simp add: span_interval)

text \<open>C39: \<open>str_copy\<close> copies a string with its terminator exactly when the destination has room for
  both, keeps the rest of the destination, and otherwise writes past its end.\<close>

theorem str_copy_fits_or_overflows:
  assumes "NUL \<in> set src"
  shows "str_copy d src = (if length (cstr src) < length d
    then Some (cstr src @ NUL # drop (Suc (length (cstr src))) d) else None)"
  using assms by (simp add: str_copy_eq str_copy_None)

theorem str_copy_fits_or_overflows_witness:
  "str_copy ''wxyz'' (''ab'' @ [NUL]) = Some (''ab'' @ [NUL] @ ''z'')
    \<and> str_copy ''xy'' (''ab'' @ [NUL]) = None"
  using str_copy_fits_or_overflows [of "''ab'' @ [NUL]" "''wxyz''"]
    str_copy_fits_or_overflows [of "''ab'' @ [NUL]" "''xy''"] by simp

end
