(* ===== verification/Console.thy ===== *)
theory Console
  imports CLib
begin

text \<open>
  The VGA text console (\<open>kernel/console.c\<close>, \<open>console.h\<close>): text memory, cursor, colours,
  four virtual terminals, the ring of saved lines and the history viewer. The formatted
  output routines of the same file are in theory Printk.

  \<open>vga\<close> is the text memory from \<open>VGA_MEMORY\<close>, by cell. \<open>tty_buf\<close> is the array
  \<open>tty_buf[TTY_COUNT][VGA_WIDTH*VGA_HEIGHT]\<close> as it lies in memory: cell \<open>i\<close> of terminal
  \<open>t\<close> is \<open>tty_buf (t * 2000 + i)\<close>, so a write past the end of a terminal reaches the next
  one, and cells from 8000 are what follows the array. \<open>io_out\<close> is the sequence of port
  writes of the kernel (\<open>outb\<close> of \<open>kernel.h\<close>), \<open>fault\<close> records undefined behaviour in the
  formatted output.
\<close>

abbreviation (input) VGA_WIDTH :: nat where "VGA_WIDTH \<equiv> 80"
abbreviation (input) VGA_HEIGHT :: nat where "VGA_HEIGHT \<equiv> 25"
abbreviation (input) VGA_CELLS :: nat where "VGA_CELLS \<equiv> 2000"
abbreviation (input) TTY_COUNT :: nat where "TTY_COUNT \<equiv> 4"
abbreviation (input) HISTORY_SIZE :: int where "HISTORY_SIZE \<equiv> 1000"
abbreviation (input) VGA_BLACK :: u8 where "VGA_BLACK \<equiv> 0x00"
abbreviation (input) VGA_LIGHT_GREY :: u8 where "VGA_LIGHT_GREY \<equiv> 0x07"
abbreviation (input) VGA_YELLOW :: u8 where "VGA_YELLOW \<equiv> 0x0E"
abbreviation (input) RED :: u8 where "RED \<equiv> 0x0C"
abbreviation (input) ORANGE :: u8 where "ORANGE \<equiv> 0x06"
abbreviation (input) YELLOW :: u8 where "YELLOW \<equiv> 0x0E"
abbreviation (input) GREEN :: u8 where "GREEN \<equiv> 0x0A"
abbreviation (input) BLUE :: u8 where "BLUE \<equiv> 0x09"
abbreviation (input) CYAN :: u8 where "CYAN \<equiv> 0x0B"

record console =
  simple_history :: "nat \<Rightarrow> nat \<Rightarrow> u16"
  history_write_pos :: int
  history_count :: int
  is_viewing_history :: bool
  history_view_offset :: int
  screen_backup :: "nat \<Rightarrow> nat \<Rightarrow> u16"
  cursor_row :: u8
  cursor_col :: u8
  vga_color :: u8
  tty_buf :: "nat \<Rightarrow> u16"
  tty_row :: "nat \<Rightarrow> u8"
  tty_col :: "nat \<Rightarrow> u8"
  tty_color :: "nat \<Rightarrow> u8"
  tty_cur :: nat
  vga :: "nat \<Rightarrow> u16"
  io_out :: "(u16 \<times> u8) list"
  fault :: bool

text \<open>The static initialisers of the file; the text memory is as the boot loader left it.\<close>

definition console_boot :: "(nat \<Rightarrow> u16) \<Rightarrow> console" where
  "console_boot v =
     \<lparr>simple_history = (\<lambda>_ _. 0), history_write_pos = 0, history_count = 0,
      is_viewing_history = False, history_view_offset = 0, screen_backup = (\<lambda>_ _. 0),
      cursor_row = 0, cursor_col = 0, vga_color = 0x07, tty_buf = (\<lambda>_. 0),
      tty_row = (\<lambda>_. 0), tty_col = (\<lambda>_. 0), tty_color = (\<lambda>_. 0), tty_cur = 0,
      vga = v, io_out = [], fault = False\<rparr>"


subsection \<open>Cells, colours, ports\<close>

definition outb :: "u16 \<Rightarrow> u8 \<Rightarrow> console \<Rightarrow> console" where
  "outb port data s = s\<lparr>io_out := io_out s @ [(port, data)]\<rparr>"

definition TBUF :: "console \<Rightarrow> nat \<Rightarrow> u16" where
  "TBUF s i = tty_buf s (tty_cur s * VGA_CELLS + i)"

definition tbuf_set :: "nat \<Rightarrow> u16 \<Rightarrow> console \<Rightarrow> console" where
  "tbuf_set i v s = s\<lparr>tty_buf := (tty_buf s)(tty_cur s * VGA_CELLS + i := v)\<rparr>"

definition vga_set :: "nat \<Rightarrow> u16 \<Rightarrow> console \<Rightarrow> console" where
  "vga_set i v s = s\<lparr>vga := (vga s)(i := v)\<rparr>"

definition vga_index :: "nat \<Rightarrow> nat \<Rightarrow> nat" where
  "vga_index row col = row * VGA_WIDTH + col"

definition vga_make_color :: "u8 \<Rightarrow> u8 \<Rightarrow> u8" where
  "vga_make_color fg bg = push_bit 4 bg OR (fg AND 0x0F)"

text \<open>A text cell: attribute byte above, character byte below.\<close>

definition mk_cell :: "u8 \<Rightarrow> u8 \<Rightarrow> u16" where
  "mk_cell attr ch = push_bit 8 (ucast attr) OR ucast ch"

abbreviation empty_cell :: "console \<Rightarrow> u16" where
  "empty_cell s \<equiv> mk_cell (vga_color s) 0x20"

definition update_cursor :: "u8 \<Rightarrow> u8 \<Rightarrow> console \<Rightarrow> console" where
  "update_cursor row col s =
     (let row = (if 25 \<le> row then 24 else row);
          col = (if 80 \<le> col then 79 else col);
          cursor_pos = ucast row * 80 + ucast col :: u16;
          s = outb 0x3D4 0x0E s;
          s = outb 0x3D5 (ucast (drop_bit 8 cursor_pos AND 0xFF)) s;
          s = outb 0x3D4 0x0F s
      in outb 0x3D5 (ucast (cursor_pos AND 0xFF)) s)"

definition set_vga_color :: "u8 \<Rightarrow> u8 \<Rightarrow> console \<Rightarrow> console" where
  "set_vga_color fg bg s =
     (let s = s\<lparr>vga_color := vga_make_color fg bg\<rparr>
      in s\<lparr>tty_color := (tty_color s)(tty_cur s := vga_color s)\<rparr>)"

definition get_cursor_row :: "console \<Rightarrow> u8" where
  "get_cursor_row s = cursor_row s"

definition get_cursor_col :: "console \<Rightarrow> u8" where
  "get_cursor_col s = cursor_col s"

definition set_cursor_row :: "u8 \<Rightarrow> console \<Rightarrow> console" where
  "set_cursor_row row s = (if row < 25 then s\<lparr>cursor_row := row\<rparr> else s)"

definition set_cursor_col :: "u8 \<Rightarrow> console \<Rightarrow> console" where
  "set_cursor_col col s = (if col < 80 then s\<lparr>cursor_col := col\<rparr> else s)"


subsection \<open>Saved lines, backup of the screen\<close>

definition history_init_simple :: "console \<Rightarrow> console" where
  "history_init_simple s = s\<lparr>history_write_pos := 0, history_count := 0,
     is_viewing_history := False, history_view_offset := 0\<rparr>"

definition save_line_to_history :: "nat \<Rightarrow> console \<Rightarrow> console" where
  "save_line_to_history line_num s =
     (let wp = nat (history_write_pos s);
          s = s\<lparr>simple_history := (simple_history s)(wp :=
                fold (\<lambda>col line. line(col := vga s (line_num * VGA_WIDTH + col)))
                  [0..<VGA_WIDTH] (simple_history s wp))\<rparr>;
          s = s\<lparr>history_write_pos := (history_write_pos s + 1) smod HISTORY_SIZE\<rparr>
      in if history_count s < HISTORY_SIZE then s\<lparr>history_count := history_count s + 1\<rparr> else s)"

definition backup_current_screen :: "console \<Rightarrow> console" where
  "backup_current_screen s = s\<lparr>screen_backup :=
     fold (\<lambda>row b. b(row :=
         fold (\<lambda>col line. line(col := vga s (row * VGA_WIDTH + col))) [0..<VGA_WIDTH] (b row)))
       [0..<VGA_HEIGHT] (screen_backup s)\<rparr>"

definition restore_screen_from_backup :: "console \<Rightarrow> console" where
  "restore_screen_from_backup s =
     fold (\<lambda>row. fold (\<lambda>col s.
         let idx = row * VGA_WIDTH + col; vga_entry = screen_backup s row col
         in tbuf_set idx vga_entry (vga_set idx vga_entry s)) [0..<VGA_WIDTH])
       [0..<VGA_HEIGHT] s"


subsection \<open>Scrolling and clearing\<close>

definition copy_row :: "nat \<Rightarrow> nat \<Rightarrow> console \<Rightarrow> console" where
  "copy_row src dst = fold (\<lambda>col s.
     let src_idx = vga_index src col; dst_idx = vga_index dst col;
         s = tbuf_set dst_idx (TBUF s src_idx) s
     in vga_set dst_idx (TBUF s dst_idx) s) [0..<VGA_WIDTH]"

definition blank_row :: "nat \<Rightarrow> u16 \<Rightarrow> console \<Rightarrow> console" where
  "blank_row row blank = fold (\<lambda>col s.
     let idx = vga_index row col in vga_set idx blank (tbuf_set idx blank s)) [0..<VGA_WIDTH]"

definition scroll_screen :: "console \<Rightarrow> console" where
  "scroll_screen s =
     (let blank = empty_cell s;
          s = save_line_to_history 0 s;
          s = fold (\<lambda>row. copy_row row (row - 1)) [1..<VGA_HEIGHT] s;
          s = blank_row (VGA_HEIGHT - 1) blank s;
          s = s\<lparr>cursor_row := 24, cursor_col := 0\<rparr>
      in backup_current_screen s)"

definition clear_screen :: "console \<Rightarrow> console" where
  "clear_screen s =
     (let blank = empty_cell s;
          s = fold save_line_to_history [0..<VGA_HEIGHT] s;
          s = fold (\<lambda>i s. tbuf_set i blank (vga_set i blank s)) [0..<VGA_CELLS] s;
          s = s\<lparr>cursor_row := 0, cursor_col := 0\<rparr>;
          s = update_cursor (cursor_row s) (cursor_col s) s;
          s = backup_current_screen s
      in s\<lparr>is_viewing_history := False\<rparr>)"

definition console_init :: "console \<Rightarrow> console" where
  "console_init s = clear_screen s"

definition scroll_up :: "console \<Rightarrow> console" where
  "scroll_up s =
     (let s = save_line_to_history 0 s;
          s = fold (\<lambda>row. copy_row row (row - 1)) [1..<VGA_HEIGHT] s;
          s = blank_row (VGA_HEIGHT - 1) (empty_cell s) s;
          s = (if cursor_row s = 24 then s\<lparr>cursor_row := cursor_row s - 1\<rparr>
               else if 0 < cursor_row s then s\<lparr>cursor_row := cursor_row s - 1\<rparr> else s);
          s = backup_current_screen s
      in update_cursor (cursor_row s) (cursor_col s) s)"

definition scroll_down :: "console \<Rightarrow> console" where
  "scroll_down s =
     (let s = save_line_to_history (VGA_HEIGHT - 1) s;
          s = fold (\<lambda>row. copy_row row (row + 1)) (rev [0..<VGA_HEIGHT - 1]) s;
          s = blank_row 0 (empty_cell s) s;
          s = (if cursor_row s = 0 then s\<lparr>cursor_row := cursor_row s + 1\<rparr>
               else if cursor_row s < 24 then s\<lparr>cursor_row := cursor_row s + 1\<rparr> else s);
          s = backup_current_screen s
      in update_cursor (cursor_row s) (cursor_col s) s)"


subsection \<open>Printing characters\<close>

definition print_char_color :: "char \<Rightarrow> u8 \<Rightarrow> u8 \<Rightarrow> console \<Rightarrow> console" where
  "print_char_color c fg bg s =
     (let s = (if is_viewing_history s
               then let s = s\<lparr>is_viewing_history := False, history_view_offset := 0\<rparr>;
                        s = restore_screen_from_backup s
                    in update_cursor (cursor_row s) (cursor_col s) s
               else s);
          old_color = vga_color s;
          s = set_vga_color fg bg s;
          s = (if c = CHR 0x0A then s\<lparr>cursor_row := cursor_row s + 1, cursor_col := 0\<rparr>
               else if c = CHR 0x0D then s\<lparr>cursor_col := 0\<rparr>
               else if c = CHR 0x09 then s\<lparr>cursor_col := (cursor_col s + 4) AND NOT 3\<rparr>
               else
                 let s = (if 80 \<le> cursor_col s
                          then s\<lparr>cursor_col := 0, cursor_row := cursor_row s + 1\<rparr> else s);
                     idx = vga_index (unat (cursor_row s)) (unat (cursor_col s));
                     val = mk_cell (vga_color s) (of_char c);
                     s = vga_set idx val (tbuf_set idx val s)
                 in s\<lparr>cursor_col := cursor_col s + 1\<rparr>);
          s = (if 25 \<le> cursor_row s then scroll_screen s else s);
          s = s\<lparr>vga_color := old_color\<rparr>;
          s = s\<lparr>tty_color := (tty_color s)(tty_cur s := old_color)\<rparr>
      in backup_current_screen s)"

definition print_char :: "char \<Rightarrow> console \<Rightarrow> console" where
  "print_char c = print_char_color c VGA_LIGHT_GREY VGA_BLACK"

definition print_str_color :: "string \<Rightarrow> u8 \<Rightarrow> u8 \<Rightarrow> console \<Rightarrow> console" where
  "print_str_color str fg bg = fold (\<lambda>c. print_char_color c fg bg) (cstr str)"

definition print_str :: "string \<Rightarrow> console \<Rightarrow> console" where
  "print_str str = print_str_color str VGA_LIGHT_GREY VGA_BLACK"

text \<open>The digits of \<open>print_uint64_color\<close>, least significant first (\<open>buf\<close> in the code).\<close>

fun uint64_buf :: "nat \<Rightarrow> string" where
  "uint64_buf num = (if num > 0 then char_of (48 + num mod 10 :: nat) # uint64_buf (num div 10) else [])"

declare uint64_buf.simps [simp del]

definition print_uint64_color :: "u64 \<Rightarrow> u8 \<Rightarrow> u8 \<Rightarrow> console \<Rightarrow> console" where
  "print_uint64_color num fg bg s =
     (if num = 0 then print_char_color (CHR ''0'') fg bg s
      else fold (\<lambda>c. print_char_color c fg bg) (rev (uint64_buf (unat num))) s)"

definition print_uint64 :: "u64 \<Rightarrow> console \<Rightarrow> console" where
  "print_uint64 num = print_uint64_color num VGA_LIGHT_GREY VGA_BLACK"


subsection \<open>Virtual terminals\<close>

definition vt_render_active :: "console \<Rightarrow> console" where
  "vt_render_active s =
     (let s = fold (\<lambda>i s. vga_set i (TBUF s i) s) [0..<VGA_CELLS] s
      in update_cursor (cursor_row s) (cursor_col s) s)"

definition vt_switch :: "int \<Rightarrow> console \<Rightarrow> console" where
  "vt_switch tty_num s =
     (if tty_num < 0 \<or> int TTY_COUNT \<le> tty_num \<or> tty_num = int (tty_cur s) then s
      else
        let s = s\<lparr>tty_row := (tty_row s)(tty_cur s := cursor_row s),
                  tty_col := (tty_col s)(tty_cur s := cursor_col s),
                  tty_color := (tty_color s)(tty_cur s := vga_color s)\<rparr>;
            s = s\<lparr>tty_cur := nat tty_num\<rparr>;
            s = s\<lparr>cursor_row := tty_row s (tty_cur s), cursor_col := tty_col s (tty_cur s),
                  vga_color := tty_color s (tty_cur s)\<rparr>
        in backup_current_screen (vt_render_active s))"


subsection \<open>The history viewer\<close>

definition history_prompt :: string where
  "history_prompt = ''(History View - Press any key to return)''"

definition show_history_lines :: "console \<Rightarrow> console" where
  "show_history_lines s =
     (let default_attr = push_bit 8 (ucast (vga_make_color VGA_LIGHT_GREY VGA_BLACK)) :: u16;
          s = fold (\<lambda>i. vga_set i (default_attr OR 0x20)) [0..<VGA_CELLS] s;
          lines_to_show = (if history_count s < int VGA_HEIGHT - 1 then history_count s
                           else int VGA_HEIGHT - 1);
          lines_to_show = (if lines_to_show \<le> 0 then 0 else lines_to_show);
          s = (if lines_to_show \<le> 0 then s
               else
                 let start_index = (history_write_pos s - lines_to_show - history_view_offset s)
                                     smod HISTORY_SIZE;
                     start_index = (if start_index < 0 then start_index + HISTORY_SIZE
                                    else start_index)
                 in fold (\<lambda>screen_row s.
                      let hist_index = nat ((start_index + int screen_row) smod HISTORY_SIZE)
                      in fold (\<lambda>col s.
                           let idx = screen_row * VGA_WIDTH + col;
                               saved_entry = simple_history s hist_index col;
                               ch = ucast (saved_entry AND 0xFF) :: u8
                           in if 32 \<le> ch \<and> ch \<le> 126 then vga_set idx saved_entry s
                              else vga_set idx (default_attr OR 0x20) s) [0..<VGA_WIDTH] s)
                    [0..<nat lines_to_show] s);
          prompt_len = length history_prompt;
          prompt_row = (if int VGA_HEIGHT \<le> lines_to_show then int VGA_HEIGHT - 1
                        else lines_to_show);
          prompt_col = (VGA_WIDTH - prompt_len) div 2;
          prompt_attr = push_bit 8 (ucast (vga_make_color VGA_YELLOW VGA_BLACK)) :: u16;
          s = fold (\<lambda>i. vga_set (nat prompt_row * VGA_WIDTH + prompt_col + i)
                      (prompt_attr OR of_char (history_prompt ! i)))
                [0..<min prompt_len (VGA_WIDTH - prompt_col)] s
      in update_cursor (of_int prompt_row) (of_nat prompt_col) s)"

definition view_history_up :: "console \<Rightarrow> console" where
  "view_history_up s =
     (if history_count s = 0 then s
      else
        let s = (if \<not> is_viewing_history s
                 then (backup_current_screen s)\<lparr>is_viewing_history := True,
                        history_view_offset := 0\<rparr>
                 else
                   let s = s\<lparr>history_view_offset := history_view_offset s + 1\<rparr>;
                       s = (if history_count s - (int VGA_HEIGHT - 1) < history_view_offset s
                            then s\<lparr>history_view_offset := history_count s - (int VGA_HEIGHT - 1)\<rparr>
                            else s)
                   in if history_view_offset s < 0 then s\<lparr>history_view_offset := 0\<rparr> else s)
        in show_history_lines s)"

definition view_history_down :: "console \<Rightarrow> console" where
  "view_history_down s =
     (if \<not> is_viewing_history s then s
      else
        let s = s\<lparr>history_view_offset := history_view_offset s - 1\<rparr>
        in if history_view_offset s < 0
           then let s = s\<lparr>is_viewing_history := False, history_view_offset := 0\<rparr>;
                    s = restore_screen_from_backup s
                in update_cursor (cursor_row s) (cursor_col s) s
           else show_history_lines s)"


subsection \<open>Cursor movement\<close>

definition move_cursor_up :: "console \<Rightarrow> console" where
  "move_cursor_up s =
     (if 0 < cursor_row s
      then let s = s\<lparr>cursor_row := cursor_row s - 1\<rparr>
           in update_cursor (cursor_row s) (cursor_col s) s
      else let s = (view_history_up s)\<lparr>cursor_row := 0\<rparr>
           in update_cursor (cursor_row s) (cursor_col s) s)"

definition move_cursor_down :: "console \<Rightarrow> console" where
  "move_cursor_down s =
     (if cursor_row s < 24
      then let s = s\<lparr>cursor_row := cursor_row s + 1\<rparr>
           in update_cursor (cursor_row s) (cursor_col s) s
      else let s = (view_history_down s)\<lparr>cursor_row := 24\<rparr>
           in update_cursor (cursor_row s) (cursor_col s) s)"

definition move_cursor_left :: "console \<Rightarrow> console" where
  "move_cursor_left s =
     (let s = (if 0 < cursor_col s then s\<lparr>cursor_col := cursor_col s - 1\<rparr>
               else if 0 < cursor_row s
               then s\<lparr>cursor_row := cursor_row s - 1, cursor_col := 79\<rparr> else s)
      in update_cursor (cursor_row s) (cursor_col s) s)"

definition move_cursor_right :: "console \<Rightarrow> console" where
  "move_cursor_right s =
     (let s = (if cursor_col s < 79 then s\<lparr>cursor_col := cursor_col s + 1\<rparr>
               else if cursor_row s < 24
               then s\<lparr>cursor_row := cursor_row s + 1, cursor_col := 0\<rparr> else s)
      in update_cursor (cursor_row s) (cursor_col s) s)"



subsection \<open>Closed forms of the loops\<close>

lemma save_line_closed:
  "save_line_to_history l s = s\<lparr>
     simple_history := (simple_history s)(nat (history_write_pos s) :=
       \<lambda>col. if col < 80 then vga s (l * 80 + col)
             else simple_history s (nat (history_write_pos s)) col),
     history_write_pos := (history_write_pos s + 1) smod 1000,
     history_count := (if history_count s < 1000 then history_count s + 1 else history_count s)\<rparr>"
  by (simp add: save_line_to_history_def Let_def loop_simps del: upt_rec_numeral)

lemma backup_closed:
  "backup_current_screen s = s\<lparr>screen_backup :=
     \<lambda>r c. if r < 25 \<and> c < 80 then vga s (r * 80 + c) else screen_backup s r c\<rparr>"
proof -
  have "fold (\<lambda>row b. b(row := \<lambda>c. if c < 80 then vga s (row * 80 + c) else b row c)) [0..<n] b0
    = (\<lambda>r c. if r < n \<and> c < 80 then vga s (r * 80 + c) else b0 r c)" for n b0
    by (induction n) (auto simp: fun_eq_iff less_Suc_eq)
  then show ?thesis
    by (simp add: backup_current_screen_def loop_simps del: upt_rec_numeral)
qed

lemma restore_row:
  "fold (\<lambda>col s. let idx = row * 80 + col; v = screen_backup s row col
         in tbuf_set idx v (vga_set idx v s)) [0..<n] s
   = s\<lparr>tty_buf := \<lambda>j. if tty_cur s * 2000 + row * 80 \<le> j \<and> j < tty_cur s * 2000 + row * 80 + n
             then screen_backup s row (j - (tty_cur s * 2000 + row * 80)) else tty_buf s j,
       vga := \<lambda>i. if row * 80 \<le> i \<and> i < row * 80 + n
             then screen_backup s row (i - row * 80) else vga s i\<rparr>"
  by (induction n)
    (auto simp: Let_def tbuf_set_def vga_set_def fun_eq_iff less_Suc_eq intro!: console.equality)

text \<open>Row and column of a cell number.\<close>

lemma cell_row: "r * 80 \<le> i \<Longrightarrow> i < r * 80 + 80 \<Longrightarrow> i div 80 = r \<and> i mod 80 = i - r * (80::nat)"
  by (metis add.commute add_diff_cancel_right' div_mult_mod_eq div_nat_eqI le_add2
      minus_mult_div_eq_mod mult.commute mult_Suc)

lemma restore_rows:
  "fold (\<lambda>row s. s\<lparr>
      tty_buf := \<lambda>j. if tty_cur s * 2000 + row * 80 \<le> j \<and> j < tty_cur s * 2000 + row * 80 + 80
        then screen_backup s row (j - (tty_cur s * 2000 + row * 80)) else tty_buf s j,
      vga := \<lambda>i. if row * 80 \<le> i \<and> i < row * 80 + 80
        then screen_backup s row (i - row * 80) else vga s i\<rparr>) [0..<n] s
   = s\<lparr>tty_buf := \<lambda>j. if tty_cur s * 2000 \<le> j \<and> j < tty_cur s * 2000 + n * 80
       then screen_backup s ((j - tty_cur s * 2000) div 80) ((j - tty_cur s * 2000) mod 80)
       else tty_buf s j,
     vga := \<lambda>i. if i < n * 80 then screen_backup s (i div 80) (i mod 80) else vga s i\<rparr>"
proof (induction n)
  case (Suc n)
  have j: "(j - (b + n * 80)) = (j - b) - n * 80" for j b :: nat by simp
  have d: "k div 80 = n \<and> k mod 80 = k - n * 80" if "n * 80 \<le> k" "k < n * 80 + 80" for k :: nat
    using that by (rule cell_row)
  show ?case
    by (auto simp: Suc fun_eq_iff d j simp del: diff_diff_left)
qed (auto simp: fun_eq_iff intro!: console.equality)

lemmas restore_row_fun = ext [OF restore_row [where n = 80]]

lemma restore_closed:
  "restore_screen_from_backup s = s\<lparr>
     tty_buf := \<lambda>j. if tty_cur s * 2000 \<le> j \<and> j < tty_cur s * 2000 + 2000
       then screen_backup s ((j - tty_cur s * 2000) div 80) ((j - tty_cur s * 2000) mod 80)
       else tty_buf s j,
     vga := \<lambda>i. if i < 2000 then screen_backup s (i div 80) (i mod 80) else vga s i\<rparr>"
  using restore_rows [of 25 s]
  by (simp add: restore_screen_from_backup_def restore_row_fun del: upt_rec_numeral)

lemma copy_row_closed:
  assumes "src \<noteq> dst"
  shows "copy_row src dst s = s\<lparr>
     tty_buf := \<lambda>j. if tty_cur s * 2000 + dst * 80 \<le> j \<and> j < tty_cur s * 2000 + dst * 80 + 80
       then tty_buf s (j - dst * 80 + src * 80) else tty_buf s j,
     vga := \<lambda>i. if dst * 80 \<le> i \<and> i < dst * 80 + 80 then TBUF s (i - dst * 80 + src * 80)
       else vga s i\<rparr>"
proof -
  let ?b = "tty_cur s * 2000"
  let ?tb = "\<lambda>n j. if ?b + dst * 80 \<le> j \<and> j < ?b + dst * 80 + n
       then tty_buf s (j - dst * 80 + src * 80) else tty_buf s j"
  let ?vg = "\<lambda>n i. if dst * 80 \<le> i \<and> i < dst * 80 + n then TBUF s (i - dst * 80 + src * 80)
       else vga s i"
  define f where "f = (\<lambda>col s. let src_idx = vga_index src col; dst_idx = vga_index dst col;
         s = tbuf_set dst_idx (TBUF s src_idx) s
     in vga_set dst_idx (TBUF s dst_idx) s)"
  have "fold f [0..<n] s = s\<lparr>tty_buf := ?tb n, vga := ?vg n\<rparr>" if "n \<le> 80" for n
    using that
  proof (induction n)
    case 0
    then show ?case by (auto intro!: console.equality simp: fun_eq_iff)
  next
    case (Suc n)
    let ?v = "tty_buf s (?b + (src * 80 + n))"
    have src: "?tb n (?b + (src * 80 + n)) = ?v"
      using assms Suc.prems by auto
    have tb: "(?tb n)(?b + (dst * 80 + n) := ?v) = ?tb (Suc n)"
      by (auto simp: fun_eq_iff less_Suc_eq ac_simps)
    have vg: "(?vg n)(dst * 80 + n := ?v) = ?vg (Suc n)"
      by (auto simp: fun_eq_iff less_Suc_eq TBUF_def add.commute)
    have "fold f [0..<Suc n] s = f n (s\<lparr>tty_buf := ?tb n, vga := ?vg n\<rparr>)"
      using Suc by simp
    also have "\<dots> = s\<lparr>tty_buf := (?tb n)(?b + (dst * 80 + n) := ?tb n (?b + (src * 80 + n))),
        vga := (?vg n)(dst * 80 + n := ?tb n (?b + (src * 80 + n)))\<rparr>"
      by (simp add: f_def Let_def tbuf_set_def vga_set_def vga_index_def TBUF_def)
    finally show ?case by (simp only: src tb vg)
  qed
  from this [of 80] show ?thesis by (simp add: copy_row_def f_def)
qed

lemma blank_row_closed:
  "blank_row row v s = s\<lparr>
     tty_buf := \<lambda>j. if tty_cur s * 2000 + row * 80 \<le> j \<and> j < tty_cur s * 2000 + row * 80 + 80
       then v else tty_buf s j,
     vga := \<lambda>i. if row * 80 \<le> i \<and> i < row * 80 + 80 then v else vga s i\<rparr>"
proof -
  have "fold (\<lambda>col s. let idx = vga_index row col in vga_set idx v (tbuf_set idx v s)) [0..<n] s
    = s\<lparr>tty_buf := \<lambda>j. if tty_cur s * 2000 + row * 80 \<le> j \<and> j < tty_cur s * 2000 + row * 80 + n
       then v else tty_buf s j,
     vga := \<lambda>i. if row * 80 \<le> i \<and> i < row * 80 + n then v else vga s i\<rparr>" for n
    by (induction n)
      (auto simp: Let_def tbuf_set_def vga_set_def vga_index_def fun_eq_iff less_Suc_eq
        intro!: console.equality)
  then show ?thesis by (simp add: blank_row_def del: upt_rec_numeral)
qed


lemma shift_rows_up:
  "fold (\<lambda>row. copy_row row (row - 1)) [1..<Suc n] s = s\<lparr>
     tty_buf := \<lambda>j. if tty_cur s * 2000 \<le> j \<and> j < tty_cur s * 2000 + n * 80
       then tty_buf s (j + 80) else tty_buf s j,
     vga := \<lambda>i. if i < n * 80 then TBUF s (i + 80) else vga s i\<rparr>"
proof (induction n)
  case 0
  then show ?case by (auto intro!: console.equality simp: fun_eq_iff)
next
  case (Suc n)
  then show ?case
    by (auto simp: copy_row_closed TBUF_def fun_eq_iff algebra_simps intro!: arg_cong [where f = "tty_buf s"])
qed

lemma shift_rows_down:
  assumes "k \<le> 24"
  shows "fold (\<lambda>row. copy_row row (row + 1)) (rev [k..<24]) s = s\<lparr>
     tty_buf := \<lambda>j. if tty_cur s * 2000 + (k + 1) * 80 \<le> j \<and> j < tty_cur s * 2000 + 2000
       then tty_buf s (j - 80) else tty_buf s j,
     vga := \<lambda>i. if (k + 1) * 80 \<le> i \<and> i < 2000 then TBUF s (i - 80) else vga s i\<rparr>"
  using assms
proof (induction rule: inc_induct)
  case base
  show ?case by (auto intro!: console.equality simp: fun_eq_iff)
next
  case (step k)
  have r: "rev [k..<24] = rev [Suc k..<24] @ [k]"
    using step.hyps by (simp add: upt_conv_Cons)
  show ?case
    using step.hyps
    by (simp only: r fold_append fold.simps comp_apply id_apply step.IH)
      (auto simp: copy_row_closed TBUF_def fun_eq_iff
        intro!: console.equality arg_cong [where f = "tty_buf s"])
qed


text \<open>The screen contents after a scroll, as functions of the old terminal buffer.\<close>

definition shifted_up :: "u16 \<Rightarrow> (nat \<Rightarrow> u16) \<Rightarrow> nat \<Rightarrow> u16" where
  "shifted_up v f i = (if i < 1920 then f (i + 80) else v)"

definition shifted_down :: "u16 \<Rightarrow> (nat \<Rightarrow> u16) \<Rightarrow> nat \<Rightarrow> u16" where
  "shifted_down v f i = (if i < 80 then v else f (i - 80))"

text \<open>Both screen copies of the active terminal overwritten with \<open>f\<close>.\<close>

definition show_both :: "(nat \<Rightarrow> u16) \<Rightarrow> console \<Rightarrow> console" where
  "show_both f s = s\<lparr>
     tty_buf := \<lambda>j. if tty_cur s * 2000 \<le> j \<and> j < tty_cur s * 2000 + 2000
       then f (j - tty_cur s * 2000) else tty_buf s j,
     vga := \<lambda>i. if i < 2000 then f i else vga s i\<rparr>"

lemma restore_both:
  "restore_screen_from_backup s = show_both (\<lambda>i. screen_backup s (i div 80) (i mod 80)) s"
  by (simp add: restore_closed show_both_def)

lemma scroll_both_up:
  "blank_row 24 v (fold (\<lambda>row. copy_row row (row - 1)) [1..<25] s)
    = show_both (shifted_up v (TBUF s)) s"
proof -
  have "fold (\<lambda>row. copy_row row (row - 1)) [1..<25] s
      = fold (\<lambda>row. copy_row row (row - 1)) [1..<Suc 24] s" by simp
  then show ?thesis
    by (simp only: shift_rows_up)
      (auto simp: blank_row_closed show_both_def shifted_up_def TBUF_def fun_eq_iff
        intro!: console.equality arg_cong [where f = "tty_buf s"])
qed

lemma scroll_both_down:
  "blank_row 0 v (fold (\<lambda>row. copy_row row (row + 1)) (rev [0..<24]) s)
    = show_both (shifted_down v (TBUF s)) s"
  by (simp only: shift_rows_down [OF le0])
    (auto simp: blank_row_closed show_both_def shifted_down_def TBUF_def fun_eq_iff
      intro!: console.equality arg_cong [where f = "tty_buf s"])

lemma clear_both:
  "fold (\<lambda>i s. tbuf_set i v (vga_set i v s)) [0..<2000] s = show_both (\<lambda>_. v) s"
proof -
  have "fold (\<lambda>i s. tbuf_set i v (vga_set i v s)) [0..<n] s = s\<lparr>
      tty_buf := \<lambda>j. if tty_cur s * 2000 \<le> j \<and> j < tty_cur s * 2000 + n then v else tty_buf s j,
      vga := \<lambda>i. if i < n then v else vga s i\<rparr>" for n
    by (induction n)
      (auto simp: tbuf_set_def vga_set_def fun_eq_iff less_Suc_eq intro!: console.equality)
  then show ?thesis by (simp add: show_both_def del: upt_rec_numeral)
qed

lemma vga_loop_closed:
  "fold (\<lambda>i. vga_set i (g i)) [0..<n] s = s\<lparr>vga := \<lambda>i. if i < n then g i else vga s i\<rparr>"
  by (induction n) (auto simp: vga_set_def fun_eq_iff less_Suc_eq)

lemma render_closed:
  "fold (\<lambda>i s. vga_set i (TBUF s i) s) [0..<n] s
    = s\<lparr>vga := \<lambda>i. if i < n then TBUF s i else vga s i\<rparr>"
  by (induction n) (auto simp: vga_set_def TBUF_def fun_eq_iff less_Suc_eq)

end
