(* ===== verification/Screen.thy ===== *)
theory Screen
  imports Console
begin

text \<open>
  What \<open>kernel/console.c\<close> keeps and shows: the invariant of screen, terminals and saved lines under every
  operation, the ring of saved lines as a bounded log, and the properties of scrolling, of the history
  viewer and of the terminals.
\<close>

subsection \<open>Invariants\<close>

text \<open>The ring of saved lines and the viewer's offset.\<close>

definition hist_ok :: "console \<Rightarrow> bool" where
  "hist_ok s \<longleftrightarrow> 0 \<le> history_write_pos s \<and> history_write_pos s < 1000
     \<and> 0 \<le> history_count s \<and> history_count s \<le> 1000
     \<and> (history_count s < 1000 \<longrightarrow> history_write_pos s = history_count s)
     \<and> 0 \<le> history_view_offset s \<and> history_view_offset s \<le> max 0 (history_count s - 24)"

text \<open>Text memory shows the buffer of the active terminal.\<close>

definition synced :: "console \<Rightarrow> bool" where
  "synced s \<longleftrightarrow> (\<forall>i<2000. vga s i = TBUF s i)"

text \<open>While the history is on screen, the backup keeps what the terminal shows.\<close>

definition coherent :: "console \<Rightarrow> bool" where
  "coherent s \<longleftrightarrow> (\<not> is_viewing_history s \<longrightarrow> synced s)
     \<and> (is_viewing_history s \<longrightarrow> (\<forall>i<2000. screen_backup s (i div 80) (i mod 80) = TBUF s i))"

definition con_ok :: "console \<Rightarrow> bool" where
  "con_ok s \<longleftrightarrow> cursor_row s < 25 \<and> tty_cur s < 4 \<and> (\<forall>t<4. tty_row s t < 25) \<and> hist_ok s"

definition con_inv :: "console \<Rightarrow> bool" where
  "con_inv s \<longleftrightarrow> con_ok s \<and> coherent s"

text \<open>The calls other components make.\<close>

datatype con_op =
  Put char u8 u8 | Clear | Scroll_Up | Scroll_Down | Switch int
| Cur_Up | Cur_Down | Cur_Left | Cur_Right | Set_Row u8 | Set_Col u8

fun con_step :: "con_op \<Rightarrow> console \<Rightarrow> console" where
  "con_step (Put c fg bg) = print_char_color c fg bg"
| "con_step Clear = clear_screen"
| "con_step Scroll_Up = scroll_up"
| "con_step Scroll_Down = scroll_down"
| "con_step (Switch t) = vt_switch t"
| "con_step Cur_Up = move_cursor_up"
| "con_step Cur_Down = move_cursor_down"
| "con_step Cur_Left = move_cursor_left"
| "con_step Cur_Right = move_cursor_right"
| "con_step (Set_Row r) = set_cursor_row r"
| "con_step (Set_Col c) = set_cursor_col c"

text \<open>The port writes of \<open>update_cursor\<close>: cursor location high and low, registers 14 and 15.\<close>

definition cursor_io :: "u8 \<Rightarrow> u8 \<Rightarrow> (u16 \<times> u8) list" where
  "cursor_io row col =
     (let pos = ucast (if 25 \<le> row then 24 else row) * 80
                  + ucast (if 80 \<le> col then 79 else col) :: u16
      in [(0x3D4, 0x0E), (0x3D5, ucast (drop_bit 8 pos AND 0xFF)),
          (0x3D4, 0x0F), (0x3D5, ucast (pos AND 0xFF))])"

lemma update_cursor_closed:
  "update_cursor r c s = s\<lparr>io_out := io_out s @ cursor_io r c\<rparr>"
  by (simp add: update_cursor_def outb_def Let_def cursor_io_def)

lemma synced_simps [simp]:
  "synced (s\<lparr>io_out := io\<rparr>) = synced s"
  "synced (s\<lparr>cursor_row := r\<rparr>) = synced s"
  "synced (s\<lparr>cursor_col := c\<rparr>) = synced s"
  "synced (s\<lparr>vga_color := col\<rparr>) = synced s"
  "synced (s\<lparr>tty_color := tc\<rparr>) = synced s"
  "synced (s\<lparr>is_viewing_history := b\<rparr>) = synced s"
  "synced (s\<lparr>history_view_offset := off\<rparr>) = synced s"
  "synced (s\<lparr>screen_backup := sb\<rparr>) = synced s"
  by (simp_all add: synced_def TBUF_def)

lemma coherent_simps [simp]:
  "coherent (s\<lparr>io_out := io\<rparr>) = coherent s"
  "coherent (s\<lparr>cursor_row := r\<rparr>) = coherent s"
  "coherent (s\<lparr>cursor_col := c\<rparr>) = coherent s"
  "coherent (s\<lparr>vga_color := col\<rparr>) = coherent s"
  "coherent (s\<lparr>tty_color := tc\<rparr>) = coherent s"
  "coherent (s\<lparr>history_view_offset := off\<rparr>) = coherent s"
  by (simp_all add: coherent_def TBUF_def)

lemma hist_ok_simps [simp]:
  "hist_ok (s\<lparr>io_out := io\<rparr>) = hist_ok s"
  "hist_ok (s\<lparr>cursor_row := r\<rparr>) = hist_ok s"
  "hist_ok (s\<lparr>cursor_col := c\<rparr>) = hist_ok s"
  "hist_ok (s\<lparr>vga_color := col\<rparr>) = hist_ok s"
  "hist_ok (s\<lparr>tty_color := tc\<rparr>) = hist_ok s"
  "hist_ok (s\<lparr>is_viewing_history := b\<rparr>) = hist_ok s"
  "hist_ok (s\<lparr>screen_backup := sb\<rparr>) = hist_ok s"
  "hist_ok (s\<lparr>vga := v\<rparr>) = hist_ok s"
  "hist_ok (s\<lparr>tty_buf := tb\<rparr>) = hist_ok s"
  by (simp_all add: hist_ok_def)

lemma update_cursor_simps [simp]:
  "coherent (update_cursor r c s) = coherent s"
  "con_ok (update_cursor r c s) = con_ok s"
  "synced (update_cursor r c s) = synced s"
  "is_viewing_history (update_cursor r c s) = is_viewing_history s"
  by (simp_all add: update_cursor_closed con_ok_def)

lemma con_ok_simps [simp]:
  "con_ok (s\<lparr>io_out := io\<rparr>) = con_ok s"
  "con_ok (s\<lparr>cursor_col := c\<rparr>) = con_ok s"
  "con_ok (s\<lparr>vga_color := col\<rparr>) = con_ok s"
  "con_ok (s\<lparr>tty_color := tc\<rparr>) = con_ok s"
  "con_ok (s\<lparr>is_viewing_history := b\<rparr>) = con_ok s"
  "con_ok (s\<lparr>screen_backup := sb\<rparr>) = con_ok s"
  "con_ok (s\<lparr>vga := v\<rparr>) = con_ok s"
  by (simp_all add: con_ok_def)

lemma con_ok_offset_0: "con_ok s \<Longrightarrow> con_ok (s\<lparr>history_view_offset := 0\<rparr>)"
  by (simp add: con_ok_def hist_ok_def)

lemma synced_show_both [simp]: "synced (show_both f s)"
  by (simp add: synced_def show_both_def TBUF_def)

lemma synced_coherent: "synced s \<Longrightarrow> \<not> is_viewing_history s \<Longrightarrow> coherent s"
  by (simp add: coherent_def)

lemma coherent_backup: "synced s \<Longrightarrow> coherent (backup_current_screen s)"
  by (auto simp: coherent_def synced_def backup_closed TBUF_def)

lemma coherent_restore:
  "is_viewing_history s \<Longrightarrow> coherent s \<Longrightarrow>
    restore_screen_from_backup s = show_both (TBUF s) s"
  by (auto simp: restore_both coherent_def show_both_def TBUF_def fun_eq_iff intro!: console.equality)

lemma show_both_fields [simp]:
  "TBUF (show_both f s) i = (if i < 2000 then f i else TBUF s i)"
  "vga (show_both f s) i = (if i < 2000 then f i else vga s i)"
  "is_viewing_history (show_both f s) = is_viewing_history s"
  "cursor_row (show_both f s) = cursor_row s"
  "cursor_col (show_both f s) = cursor_col s"
  "vga_color (show_both f s) = vga_color s"
  "tty_cur (show_both f s) = tty_cur s"
  "con_ok (show_both f s) = con_ok s"
  by (simp_all add: show_both_def TBUF_def con_ok_def)

lemma hist_ok_save: "hist_ok s \<Longrightarrow> hist_ok (save_line_to_history l s)"
  by (auto simp: hist_ok_def save_line_closed smod_int_alt_def split: if_splits)

lemma save_line_fields [simp]:
  "TBUF (save_line_to_history l s) = TBUF s"
  "vga (save_line_to_history l s) = vga s"
  "tty_buf (save_line_to_history l s) = tty_buf s"
  "is_viewing_history (save_line_to_history l s) = is_viewing_history s"
  "cursor_row (save_line_to_history l s) = cursor_row s"
  "cursor_col (save_line_to_history l s) = cursor_col s"
  "vga_color (save_line_to_history l s) = vga_color s"
  "tty_cur (save_line_to_history l s) = tty_cur s"
  "tty_row (save_line_to_history l s) = tty_row s"
  "screen_backup (save_line_to_history l s) = screen_backup s"
  by (simp_all add: save_line_closed TBUF_def fun_eq_iff)

lemma con_ok_save: "con_ok s \<Longrightarrow> con_ok (save_line_to_history l s)"
  by (simp add: con_ok_def hist_ok_save)

lemma con_ok_backup [simp]: "con_ok (backup_current_screen s) = con_ok s"
  by (simp add: con_ok_def backup_closed)

lemma scroll_screen_eq:
  "scroll_screen s = backup_current_screen
     ((show_both (shifted_up (empty_cell s) (TBUF s)) (save_line_to_history 0 s))
       \<lparr>cursor_row := 24, cursor_col := 0\<rparr>)"
  by (simp add: scroll_screen_def Let_def scroll_both_up del: One_nat_def)

lemma synced_set_colour [simp]:
  "synced (set_vga_color fg bg s) = synced s"
  by (simp add: set_vga_color_def Let_def)

lemma put_cell_synced:
  "synced s \<Longrightarrow> synced (vga_set i v (tbuf_set i v s))"
  by (auto simp: synced_def vga_set_def tbuf_set_def TBUF_def)

lemma scroll_screen_inv:
  assumes "tty_cur s < 4" and "\<forall>t<4. tty_row s t < 25" and "hist_ok s"
  shows "con_ok (scroll_screen s)" and "synced (scroll_screen s)"
    and "is_viewing_history (scroll_screen s) = is_viewing_history s"
    and "tty_cur (scroll_screen s) = tty_cur s"
proof -
  show "con_ok (scroll_screen s)"
    using assms hist_ok_save [of s 0]
    by (simp add: scroll_screen_eq con_ok_def show_both_def backup_closed)
  show "synced (scroll_screen s)"
    by (simp add: scroll_screen_eq backup_closed)
qed (simp_all add: scroll_screen_eq backup_closed)

lemma leave_history:
  assumes "con_inv s"
  defines "s' \<equiv> (if is_viewing_history s
      then let s = s\<lparr>is_viewing_history := False, history_view_offset := 0\<rparr>;
               s = restore_screen_from_backup s
           in update_cursor (cursor_row s) (cursor_col s) s
      else s)"
  shows "con_ok s'" and "synced s'" and "\<not> is_viewing_history s'"
proof -
  show "con_ok s'"
    using assms(1) by (simp add: s'_def con_inv_def Let_def restore_both con_ok_offset_0)
  show "synced s'"
    using assms(1) by (auto simp: s'_def con_inv_def coherent_def Let_def restore_both)
  show "\<not> is_viewing_history s'"
    by (simp add: s'_def Let_def restore_both)
qed

lemma print_char_color_inv:
  assumes "con_inv s"
  shows "con_inv (print_char_color c fg bg s) \<and> \<not> is_viewing_history (print_char_color c fg bg s)"
proof -
  define s1 where "s1 = (if is_viewing_history s
      then let s = s\<lparr>is_viewing_history := False, history_view_offset := 0\<rparr>;
               s = restore_screen_from_backup s
           in update_cursor (cursor_row s) (cursor_col s) s
      else s)"
  have s1: "con_ok s1" "synced s1" "\<not> is_viewing_history s1"
    unfolding s1_def by (rule leave_history [OF assms])+
  define s2 where "s2 = set_vga_color fg bg s1"
  have s2: "con_ok s2" "synced s2" "\<not> is_viewing_history s2"
    using s1 by (simp_all add: s2_def con_ok_def set_vga_color_def Let_def)
  define s3 where "s3 =
     (if c = CHR 0x0A then s2\<lparr>cursor_row := cursor_row s2 + 1, cursor_col := 0\<rparr>
      else if c = CHR 0x0D then s2\<lparr>cursor_col := 0\<rparr>
      else if c = CHR 0x09 then s2\<lparr>cursor_col := (cursor_col s2 + 4) AND NOT 3\<rparr>
      else
        let s = (if 80 \<le> cursor_col s2
                 then s2\<lparr>cursor_col := 0, cursor_row := cursor_row s2 + 1\<rparr> else s2);
            idx = vga_index (unat (cursor_row s)) (unat (cursor_col s));
            val = mk_cell (vga_color s) (of_char c);
            s = vga_set idx val (tbuf_set idx val s)
        in s\<lparr>cursor_col := cursor_col s + 1\<rparr>)"
  have s3: "tty_cur s3 < 4" "\<forall>t<4. tty_row s3 t < 25" "hist_ok s3" "synced s3"
      "\<not> is_viewing_history s3"
    using s2 by (auto simp: s3_def con_ok_def Let_def put_cell_synced)
      (auto simp: vga_set_def tbuf_set_def)
  define s4 where "s4 = (if 25 \<le> cursor_row s3 then scroll_screen s3 else s3)"
  have s4: "con_ok s4" "synced s4" "\<not> is_viewing_history s4"
    using s3 scroll_screen_inv [of s3] by (auto simp: s4_def con_ok_def not_le)
  have "print_char_color c fg bg s = (let s = s4\<lparr>vga_color := vga_color s1\<rparr>
      in backup_current_screen (s\<lparr>tty_color := (tty_color s)(tty_cur s := vga_color s1)\<rparr>))"
    by (simp only: print_char_color_def Let_def s1_def s2_def s3_def s4_def)
  with s4 show ?thesis
    by (simp add: con_inv_def coherent_backup Let_def con_ok_def)
      (simp add: backup_closed)
qed

lemma fold_save_inv:
  "con_ok s \<Longrightarrow> con_ok (fold save_line_to_history ls s)"
  by (induction ls arbitrary: s) (auto simp: con_ok_save)

lemma fold_save_fields [simp]:
  "TBUF (fold save_line_to_history ls s) = TBUF s"
  "vga (fold save_line_to_history ls s) = vga s"
  "is_viewing_history (fold save_line_to_history ls s) = is_viewing_history s"
  "vga_color (fold save_line_to_history ls s) = vga_color s"
  "tty_cur (fold save_line_to_history ls s) = tty_cur s"
  by (induction ls arbitrary: s) auto

lemma clear_screen_eq:
  "clear_screen s = (backup_current_screen ((show_both (\<lambda>_. empty_cell s)
      (fold save_line_to_history [0..<25] s))
        \<lparr>cursor_row := 0, cursor_col := 0, io_out := io_out (fold save_line_to_history [0..<25] s)
          @ cursor_io 0 0\<rparr>))\<lparr>is_viewing_history := False\<rparr>"
  by (simp add: clear_screen_def Let_def clear_both update_cursor_closed show_both_def
      del: upt_rec_numeral)

lemma clear_screen_inv:
  assumes "con_ok s"
  shows "con_inv (clear_screen s)"
proof -
  have "con_ok (show_both (\<lambda>_. empty_cell s) (fold save_line_to_history [0..<25] s))"
    using fold_save_inv [OF assms] by simp
  then show ?thesis
    by (simp add: clear_screen_eq con_inv_def con_ok_def coherent_def backup_closed
        del: upt_rec_numeral)
qed

lemma con_ok_row: "con_ok s \<Longrightarrow> r < 25 \<Longrightarrow> con_ok (s\<lparr>cursor_row := r\<rparr>)"
  by (simp add: con_ok_def)

lemma row_pred: "(r :: u8) < 25 \<Longrightarrow> 0 < r \<Longrightarrow> r - 1 < 25"
  by unat_arith

lemma row_succ: "(r :: u8) < 24 \<Longrightarrow> r + 1 < 25"
  by unat_arith

lemma same_row: "cursor_row t = r \<Longrightarrow> t\<lparr>cursor_row := r\<rparr> = t"
  by simp

lemma diff_25: "(25::nat) - 1 = 24"
  by simp

lemma shift_rows_colour:
  "vga_color (fold (\<lambda>row. copy_row row (row - 1)) [1..<25] s) = vga_color s"
  "vga_color (fold (\<lambda>row. copy_row row (row + 1)) (rev [0..<24]) s) = vga_color s"
proof -
  have c: "vga_color (copy_row a b t) = vga_color t" for a b t
    unfolding copy_row_def
    by (rule fold_inv [where P = "\<lambda>u. vga_color u = vga_color t"])
      (auto simp: Let_def vga_set_def tbuf_set_def)
  show "vga_color (fold (\<lambda>row. copy_row row (row - 1)) [1..<25] s) = vga_color s"
    by (rule fold_inv [where P = "\<lambda>t. vga_color t = vga_color s"]) (auto simp: c)
  show "vga_color (fold (\<lambda>row. copy_row row (row + 1)) (rev [0..<24]) s) = vga_color s"
    by (rule fold_inv [where P = "\<lambda>t. vga_color t = vga_color s"]) (auto simp: c)
qed

lemma scroll_up_inv:
  assumes "con_ok s"
  shows "con_inv (scroll_up s)"
proof -
  let ?s = "show_both (shifted_up (empty_cell s) (TBUF s)) (save_line_to_history 0 s)"
  let ?r = "if cursor_row s = 24 then cursor_row s - 1
    else if 0 < cursor_row s then cursor_row s - 1 else cursor_row s"
  have r: "?r < 25" using assms row_pred [of "cursor_row s"] by (auto simp: con_ok_def)
  have ok: "con_ok ?s" using assms by (simp add: con_ok_save)
  let ?t = "?s\<lparr>cursor_row := ?r\<rparr>"
  have "con_ok ?t" using ok r by (rule con_ok_row)
  moreover have "scroll_up s = (let s = backup_current_screen ?t
      in update_cursor (cursor_row s) (cursor_col s) s)"
    unfolding scroll_up_def Let_def shift_rows_colour scroll_both_up diff_25 by (simp add: same_row)
  ultimately show ?thesis
    by (simp add: con_inv_def coherent_backup Let_def)
qed

lemma scroll_down_inv:
  assumes "con_ok s"
  shows "con_inv (scroll_down s)"
proof -
  let ?s = "show_both (shifted_down (empty_cell s) (TBUF s)) (save_line_to_history 24 s)"
  let ?r = "if cursor_row s = 0 then cursor_row s + 1
    else if cursor_row s < 24 then cursor_row s + 1 else cursor_row s"
  have r: "?r < 25" using assms row_succ [of "cursor_row s"] by (auto simp: con_ok_def)
  have ok: "con_ok ?s" using assms by (simp add: con_ok_save)
  let ?t = "?s\<lparr>cursor_row := ?r\<rparr>"
  have "con_ok ?t" using ok r by (rule con_ok_row)
  moreover have "scroll_down s = (let s = backup_current_screen ?t
      in update_cursor (cursor_row s) (cursor_col s) s)"
    unfolding scroll_down_def Let_def shift_rows_colour scroll_both_down diff_25 by (simp add: same_row)
  ultimately show ?thesis
    by (simp add: con_inv_def coherent_backup Let_def)
qed


lemma vt_switch_inv:
  assumes "con_inv s"
  shows "con_inv (vt_switch t s)"
proof (cases "t < 0 \<or> 4 \<le> t \<or> t = int (tty_cur s)")
  case True
  with assms show ?thesis by (auto simp: vt_switch_def)
next
  case False
  let ?s1 = "s\<lparr>tty_row := (tty_row s)(tty_cur s := cursor_row s),
                  tty_col := (tty_col s)(tty_cur s := cursor_col s),
                  tty_color := (tty_color s)(tty_cur s := vga_color s), tty_cur := nat t\<rparr>"
  let ?s2 = "?s1\<lparr>cursor_row := tty_row ?s1 (nat t), cursor_col := tty_col ?s1 (nat t),
                  vga_color := tty_color ?s1 (nat t)\<rparr>"
  have eq: "vt_switch t s = backup_current_screen (vt_render_active ?s2)"
    using False by (simp add: vt_switch_def Let_def)
  have "con_ok ?s2" using assms False
    by (auto simp: con_inv_def con_ok_def hist_ok_def)
  then have ok: "con_ok (vt_render_active ?s2)"
    by (simp add: vt_render_active_def render_closed Let_def del: upt_rec_numeral)
  have "synced (vt_render_active ?s2)"
    unfolding vt_render_active_def render_closed Let_def update_cursor_simps
    by (simp add: synced_def TBUF_def)
  with ok show ?thesis by (simp add: eq con_inv_def coherent_backup)
qed

text \<open>
  What the viewer draws: the saved lines of the window, unprintable cells blanked, and
  the prompt below them.
\<close>

definition view_lines :: "console \<Rightarrow> nat" where
  "view_lines s = nat (min 24 (history_count s))"

definition view_start :: "console \<Rightarrow> int" where
  "view_start s = (history_write_pos s - int (view_lines s) - history_view_offset s) mod 1000"

definition shown_cell :: "u16 \<Rightarrow> u16" where
  "shown_cell e = (if 32 \<le> (ucast (e AND 0xFF) :: u8) \<and> (ucast (e AND 0xFF) :: u8) \<le> 126
     then e else 0x0720)"

definition history_screen :: "console \<Rightarrow> nat \<Rightarrow> u16" where
  "history_screen s i =
     (let n = view_lines s
      in if n * 80 + 20 \<le> i \<and> i < n * 80 + 60
         then 0x0E00 OR of_char (history_prompt ! (i - (n * 80 + 20)))
         else if i < n * 80
         then shown_cell (simple_history s (nat ((view_start s + int (i div 80)) mod 1000)) (i mod 80))
         else if i < 2000 then 0x0720 else vga s i)"

lemma view_row_closed:
  "fold (\<lambda>col s. let idx = r * 80 + col; saved_entry = simple_history s h col;
        ch = ucast (saved_entry AND 0xFF) :: u8
      in if 32 \<le> ch \<and> ch \<le> 126 then vga_set idx saved_entry s
         else vga_set idx 0x0720 s) [0..<n] s
    = s\<lparr>vga := \<lambda>i. if r * 80 \<le> i \<and> i < r * 80 + n
        then shown_cell (simple_history s h (i - r * 80)) else vga s i\<rparr>"
  by (induction n)
    (auto simp: Let_def vga_set_def shown_cell_def fun_eq_iff less_Suc_eq intro!: console.equality)

lemmas view_row_fun = ext [OF view_row_closed [where n = 80]]

lemma view_rows_closed:
  "fold (\<lambda>r s. s\<lparr>vga := \<lambda>i. if r * 80 \<le> i \<and> i < r * 80 + 80
        then shown_cell (simple_history s (h r) (i - r * 80)) else vga s i\<rparr>) [0..<n] s
    = s\<lparr>vga := \<lambda>i. if i < n * 80
        then shown_cell (simple_history s (h (i div 80)) (i mod 80)) else vga s i\<rparr>"
proof (induction n)
  case (Suc n)
  have d: "k div 80 = n \<and> k mod 80 = k - n * 80" if "n * 80 \<le> k" "k < n * 80 + 80" for k :: nat
    using that by (rule cell_row)
  show ?case by (auto simp: Suc fun_eq_iff d)
qed simp

lemma vga_offset_closed:
  "fold (\<lambda>i. vga_set (b + i) (g i)) [0..<n] s
    = s\<lparr>vga := \<lambda>j. if b \<le> j \<and> j < b + n then g (j - b) else vga s j\<rparr>"
  by (induction n) (auto simp: vga_set_def fun_eq_iff less_Suc_eq intro!: console.equality)

lemma smod_nonneg: "0 \<le> (a::int) \<Longrightarrow> a smod 1000 = a mod 1000"
  by (cases "a = 0") (simp_all add: smod_int_alt_def)

lemma smod_wrap: "(if (a::int) smod 1000 < 0 then a smod 1000 + 1000 else a smod 1000) = a mod 1000"
proof (cases "0 \<le> a")
  case True
  then show ?thesis by (simp add: smod_nonneg not_less)
next
  case False
  then have "a smod 1000 = - ((- a) mod 1000)" by (simp add: smod_int_alt_def)
  moreover have "a mod 1000 = (if (- a) mod 1000 = 0 then 0 else 1000 - (- a) mod 1000)"
    using zmod_zminus1_eq_if [of "- a" 1000] by simp
  moreover have "0 \<le> (- a) mod 1000" by simp
  ultimately show ?thesis by auto
qed

lemma view_attrs:
  "push_bit 8 (ucast (vga_make_color 7 0)) OR 32 = (0x0720 :: u16)"
  "push_bit 8 (ucast (vga_make_color 14 0)) = (0x0E00 :: u16)"
  by (simp_all add: vga_make_color_def)

lemma length_history_prompt: "length history_prompt = 40"
  by (simp add: history_prompt_def)

lemma show_history_closed:
  assumes "hist_ok s"
  shows "show_history_lines s = s\<lparr>vga := history_screen s,
     io_out := io_out s @ cursor_io (of_nat (view_lines s)) 20\<rparr>"
proof -
  define n where "n = view_lines s"
  have n24: "n \<le> 24" by (simp add: n_def view_lines_def)
  have cnt: "(if (if history_count s < int 25 - 1 then history_count s else int 25 - 1) \<le> 0 then 0
      else (if history_count s < int 25 - 1 then history_count s else int 25 - 1)) = int n"
    using assms by (auto simp: n_def view_lines_def hist_ok_def)
  let ?h = "\<lambda>r. nat ((view_start s + int r) smod 1000)"
  let ?s1 = "s\<lparr>vga := \<lambda>i. if i < 2000 then 0x0720 else vga s i\<rparr>"
  let ?s2 = "?s1\<lparr>vga := \<lambda>i. if i < n * 80
      then shown_cell (simple_history s (?h (i div 80)) (i mod 80)) else vga ?s1 i\<rparr>"
  have fields: "history_count (s\<lparr>vga := v\<rparr>) = history_count s"
      "history_write_pos (s\<lparr>vga := v\<rparr>) = history_write_pos s"
      "history_view_offset (s\<lparr>vga := v\<rparr>) = history_view_offset s" for v
    by simp_all
  have start: "(if (history_write_pos s - int n - history_view_offset s) smod 1000 < 0
      then (history_write_pos s - int n - history_view_offset s) smod 1000 + 1000
      else (history_write_pos s - int n - history_view_offset s) smod 1000) = view_start s"
    unfolding smod_wrap by (simp add: view_start_def n_def)
  have rows: "(if int n \<le> 0 then ?s1
      else fold (\<lambda>screen_row s. fold (\<lambda>col s. let idx = screen_row * 80 + col;
                saved_entry = simple_history s (?h screen_row) col;
                ch = ucast (saved_entry AND 0xFF) :: u8
              in if 32 \<le> ch \<and> ch \<le> 126 then vga_set idx saved_entry s
                 else vga_set idx 0x0720 s) [0..<80] s) [0..<n] ?s1) = ?s2"
    using view_rows_closed [of ?h n ?s1]
    by (simp add: view_row_fun view_row_closed del: upt_rec_numeral cong: if_cong)
  have h: "?h r = nat ((view_start s + int r) mod 1000)" for r
    by (simp add: smod_nonneg view_start_def)
  have prow: "(if int 25 \<le> int n then int 25 - 1 else int n) = int n" using n24 by simp
  have pcol: "(80 - 40) div 2 = (20::nat)" "min 40 (80 - 20) = (40::nat)" by simp_all
  show ?thesis
    unfolding show_history_lines_def Let_def view_attrs length_history_prompt vga_loop_closed
      fields cnt start rows [unfolded Let_def] prow pcol vga_offset_closed update_cursor_closed nat_int
    using n24 by (auto simp: history_screen_def n_def [symmetric] h fun_eq_iff Let_def
        simp del: upt_rec_numeral intro!: console.equality)
qed

text \<open>The state the viewer draws from, when entered or moved by one line.\<close>

definition view_enter :: "console \<Rightarrow> console" where
  "view_enter s =
     (if \<not> is_viewing_history s
      then (backup_current_screen s)\<lparr>is_viewing_history := True, history_view_offset := 0\<rparr>
      else s\<lparr>history_view_offset :=
             max 0 (min (history_view_offset s + 1) (history_count s - 24))\<rparr>)"

lemma view_up_eq:
  "view_history_up s = (if history_count s = 0 then s else show_history_lines (view_enter s))"
  by (auto simp: view_history_up_def view_enter_def Let_def max_def min_def intro!: arg_cong [where f = show_history_lines])

lemma cell_row_less: "i < 2000 \<Longrightarrow> i div 80 < (25::nat)"
  by (rule less_mult_imp_div_less) simp

lemma view_enter_ok:
  assumes "con_inv s"
  shows "con_ok (view_enter s)" and "coherent (view_enter s)"
proof -
  show "con_ok (view_enter s)"
    using assms
    by (auto simp: view_enter_def con_inv_def con_ok_def hist_ok_def backup_closed)
  show "coherent (view_enter s)"
  proof (cases "is_viewing_history s")
    case True
    with assms show ?thesis by (simp add: view_enter_def con_inv_def)
  next
    case False
    with assms show ?thesis
      by (auto simp: view_enter_def con_inv_def coherent_def synced_def backup_closed TBUF_def
          dest: cell_row_less)
  qed
qed

lemma show_history_inv:
  assumes "con_ok s" and "coherent s" and "is_viewing_history s"
  shows "con_inv (show_history_lines s)"
  using assms by (auto simp: con_inv_def show_history_closed con_ok_def coherent_def TBUF_def)

lemma view_history_up_inv:
  assumes "con_inv s"
  shows "con_inv (view_history_up s)"
proof -
  have "is_viewing_history (view_enter s)" by (simp add: view_enter_def)
  with assms view_enter_ok [OF assms] show ?thesis
    by (simp add: view_up_eq show_history_inv)
qed

lemma view_history_down_inv:
  assumes "con_inv s"
  shows "con_inv (view_history_down s)"
proof (cases "is_viewing_history s \<and> 0 \<le> history_view_offset s - 1")
  case True
  let ?s = "s\<lparr>history_view_offset := history_view_offset s - 1\<rparr>"
  have "con_ok ?s" "coherent ?s" "is_viewing_history ?s"
    using assms True by (auto simp: con_inv_def con_ok_def hist_ok_def)
  then have "con_inv (show_history_lines ?s)" by (rule show_history_inv)
  with True show ?thesis by (simp add: view_history_down_def Let_def)
next
  case False
  with assms show ?thesis
    by (auto simp: view_history_down_def Let_def restore_both con_inv_def con_ok_offset_0
        synced_coherent)
qed

lemma move_cursor_inv:
  assumes "con_inv s"
  shows "con_inv (move_cursor_up s)" and "con_inv (move_cursor_down s)"
    and "con_inv (move_cursor_left s)" and "con_inv (move_cursor_right s)"
proof -
  have r: "cursor_row s < 25" using assms by (simp add: con_inv_def con_ok_def)
  show "con_inv (move_cursor_up s)"
    using assms r row_pred [of "cursor_row s"] view_history_up_inv [OF assms]
    by (auto simp: move_cursor_up_def Let_def con_inv_def con_ok_row)
  show "con_inv (move_cursor_down s)"
    using assms r row_succ [of "cursor_row s"] view_history_down_inv [OF assms]
    by (auto simp: move_cursor_down_def Let_def con_inv_def con_ok_row)
  show "con_inv (move_cursor_left s)"
    using assms r row_pred [of "cursor_row s"]
    by (auto simp: move_cursor_left_def Let_def con_inv_def con_ok_row)
  show "con_inv (move_cursor_right s)"
    using assms r row_succ [of "cursor_row s"]
    by (auto simp: move_cursor_right_def Let_def con_inv_def con_ok_row)
qed

lemma con_step_inv: "con_inv s \<Longrightarrow> con_inv (con_step e s)"
proof (cases e)
  case (Put c fg bg)
  assume "con_inv s"
  then show ?thesis using print_char_color_inv by (simp add: Put)
next
  case (Set_Row r)
  assume "con_inv s"
  then show ?thesis by (simp add: Set_Row set_cursor_row_def con_inv_def con_ok_row)
next
  case (Set_Col c)
  assume "con_inv s"
  then show ?thesis by (simp add: Set_Col set_cursor_col_def con_inv_def)
next
  case Clear
  assume "con_inv s"
  then show ?thesis by (simp add: Clear clear_screen_inv con_inv_def [of s])
next
  case Scroll_Up
  assume "con_inv s"
  then show ?thesis by (simp add: Scroll_Up scroll_up_inv con_inv_def [of s])
next
  case Scroll_Down
  assume "con_inv s"
  then show ?thesis by (simp add: Scroll_Down scroll_down_inv con_inv_def [of s])
qed (auto simp: move_cursor_inv vt_switch_inv)


subsection \<open>The ring of saved lines\<close>

text \<open>A saved line as a list of cells, and the saved lines, oldest first.\<close>

definition screen_line :: "console \<Rightarrow> nat \<Rightarrow> u16 list" where
  "screen_line s l = map (\<lambda>c. vga s (l * 80 + c)) [0..<80]"

definition saved_line :: "console \<Rightarrow> nat \<Rightarrow> u16 list" where
  "saved_line s i = map (simple_history s i) [0..<80]"

definition saved_lines :: "console \<Rightarrow> u16 list list" where
  "saved_lines s = map (\<lambda>k. saved_line s
       (nat ((history_write_pos s - history_count s + int k) mod 1000)))
     [0..<nat (history_count s)]"


lemma saved_lines_short:
  assumes "hist_ok s" and "history_count s < 1000"
  shows "saved_lines s = map (saved_line s) [0..<nat (history_count s)]"
  using assms by (auto simp: saved_lines_def hist_ok_def)

lemma saved_line_save:
  "saved_line (save_line_to_history l s) i
    = (if i = nat (history_write_pos s) then screen_line s l else saved_line s i)"
  by (simp add: saved_line_def screen_line_def save_line_closed)

lemma ring_index:
  "nat ((int w - 1000 + int k) mod 1000) = (w + k) mod 1000"
proof -
  have "(int w - 1000 + int k) mod 1000 = (int (w + k) - 1000) mod 1000"
    by (simp add: algebra_simps)
  also have "\<dots> = int ((w + k) mod 1000)"
    by (simp add: minus_mod_self2 zmod_int)
  finally show ?thesis by simp
qed

lemma ring_index_step:
  "w < 1000 \<Longrightarrow> nat (((int w + 1) smod 1000 - 1000 + int k) mod 1000) = (w + Suc k) mod 1000"
  using ring_index [of "(w + 1) mod 1000" k]
  by (simp add: smod_nonneg zmod_int mod_simps ac_simps)

lemma saved_lines_full:
  "history_count s = 1000 \<Longrightarrow> history_write_pos s = int w \<Longrightarrow>
    saved_lines s = map (\<lambda>k. saved_line s ((w + k) mod 1000)) [0..<1000]"
  by (simp add: saved_lines_def ring_index del: upt_rec_numeral)

lemma saved_lines_save:
  assumes "hist_ok s"
  shows "saved_lines (save_line_to_history l s) = last_n 1000 (saved_lines s @ [screen_line s l])"
proof (cases "history_count s < 1000")
  case True
  define n where "n = nat (history_count s)"
  have n: "history_count s = int n" "history_write_pos s = int n" "n < 1000"
    using assms True by (auto simp: n_def hist_ok_def)
  let ?s = "save_line_to_history l s"
  have "saved_lines ?s = map (saved_line ?s) [0..<Suc n]"
  proof (cases "n < 999")
    case True
    then have "saved_lines ?s = map (saved_line ?s) [0..<nat (history_count ?s)]"
      using n by (intro saved_lines_short hist_ok_save assms) (simp add: save_line_closed)
    with n show ?thesis by (simp add: save_line_closed nat_add_distrib)
  next
    case False
    with n have "n = 999" by simp
    with n have "saved_lines ?s = map (\<lambda>k. saved_line ?s ((0 + k) mod 1000)) [0..<1000]"
      by (intro saved_lines_full) (simp_all add: save_line_closed smod_nonneg)
    then have "saved_lines ?s = map (saved_line ?s) [0..<1000]"
      by (simp del: upt_rec_numeral)
    with \<open>n = 999\<close> show ?thesis by (simp del: upt_rec_numeral)
  qed
  also have "\<dots> = map (saved_line s) [0..<n] @ [screen_line s l]"
    using n by (auto simp: saved_line_save)
  finally show ?thesis
    using n assms by (simp add: saved_lines_short)
next
  case False
  then have n: "history_count s = 1000" "0 \<le> history_write_pos s" "history_write_pos s < 1000"
    using assms by (auto simp: hist_ok_def)
  define w where "w = nat (history_write_pos s)"
  have w: "history_write_pos s = int w" "w < 1000" using n by (auto simp: w_def)
  let ?s = "save_line_to_history l s"
  have new: "saved_lines ?s = map (\<lambda>k. saved_line ?s ((w + Suc k) mod 1000)) [0..<1000]"
    using n w by (simp add: saved_lines_def save_line_closed ring_index_step del: upt_rec_numeral)
  have "saved_lines ?s = drop 1 (saved_lines s) @ [screen_line s l]"
  proof (rule nth_equalityI)
    fix k assume "k < length (saved_lines ?s)"
    then have k: "k < 1000" by (simp add: new)
    show "saved_lines ?s ! k = (drop 1 (saved_lines s) @ [screen_line s l]) ! k"
    proof (cases "k = 999")
      case True
      with w show ?thesis
        by (simp add: new saved_lines_full [OF n(1) w(1)] nth_append saved_line_save
            del: upt_rec_numeral)
    next
      case False
      with k have "(w + Suc k) mod 1000 \<noteq> w"
        using w by (cases "w + Suc k < 1000") (auto simp: mod_if)
      with k False w show ?thesis
        by (simp add: new saved_lines_full [OF n(1) w(1)] nth_append saved_line_save
            del: upt_rec_numeral)
    qed
  qed (simp add: new saved_lines_full [OF n(1) w(1)])
  then show ?thesis
    by (simp add: last_n_def saved_lines_full [OF n(1) w(1)] del: upt_rec_numeral)
qed

interpretation con_log: bounded_log 1000 hist_ok saved_lines "\<lambda>_ _. False"
    "\<lambda>l s. screen_line s l" save_line_to_history
proof unfold_locales
  fix s :: console
  assume "hist_ok s"
  then show "length (saved_lines s) \<le> 1000"
    by (auto simp: saved_lines_def hist_ok_def)
qed (auto simp: hist_ok_save saved_lines_save)



subsection \<open>Printing one character\<close>

definition printable :: "char \<Rightarrow> bool" where
  "printable c \<longleftrightarrow> c \<noteq> CHR 0x0A \<and> c \<noteq> CHR 0x0D \<and> c \<noteq> CHR 0x09"

text \<open>A character that fits on the current row, or wraps to a row that exists.\<close>

lemma put_plain:
  assumes "printable c" and "\<not> is_viewing_history s"
    and rc: "(r, k) = (if 80 \<le> cursor_col s then (cursor_row s + 1, 0) else (cursor_row s, cursor_col s))"
    and r: "r < 25"
  shows "print_char_color c fg bg s = backup_current_screen (s\<lparr>
      tty_buf := (tty_buf s)(tty_cur s * 2000 + vga_index (unat r) (unat k)
        := mk_cell (vga_make_color fg bg) (of_char c)),
      vga := (vga s)(vga_index (unat r) (unat k) := mk_cell (vga_make_color fg bg) (of_char c)),
      cursor_row := r, cursor_col := k + 1,
      tty_color := (tty_color s)(tty_cur s := vga_color s)\<rparr>)"
proof (cases "80 \<le> cursor_col s")
  case True
  with assms show ?thesis
    by (auto simp: print_char_color_def printable_def Let_def set_vga_color_def vga_set_def tbuf_set_def
        not_le intro!: arg_cong [where f = backup_current_screen])
next
  case False
  with assms show ?thesis
    by (auto simp: print_char_color_def printable_def Let_def set_vga_color_def vga_set_def tbuf_set_def
        not_le intro!: arg_cong [where f = backup_current_screen])
qed

text \<open>
  The wrap at the bottom right corner: the character is written one cell past the
  screen, into the first cell of the next terminal's buffer, and scrolled away.
\<close>

lemma put_corner:
  fixes s :: console and fg bg :: u8
  assumes "printable c" and "\<not> is_viewing_history s"
    and "80 \<le> cursor_col s" and "cursor_row s = 24"
  defines "s' \<equiv> print_char_color c fg bg s"
  shows "\<forall>i<2000. vga s' i = shifted_up (mk_cell (vga_make_color fg bg) 0x20) (TBUF s) i"
    and "tty_buf s' ((tty_cur s + 1) * 2000) = mk_cell (vga_make_color fg bg) (of_char c)"
    and "cursor_row s' = 24" and "cursor_col s' = 0"
proof -
  let ?v = "mk_cell (vga_make_color fg bg) (of_char c)"
  let ?t = "s\<lparr>vga_color := vga_make_color fg bg,
      tty_color := (tty_color s)(tty_cur s := vga_make_color fg bg), cursor_row := 25,
      tty_buf := (tty_buf s)(tty_cur s * 2000 + 2000 := ?v), vga := (vga s)(2000 := ?v),
      cursor_col := 1\<rparr>"
  have eq: "s' = (let s = scroll_screen ?t; s = s\<lparr>vga_color := vga_color (s1 :: console)\<rparr>
      in backup_current_screen (s\<lparr>tty_color := (tty_color s)(tty_cur s := vga_color s1)\<rparr>))"
    if "s1 = s" for s1
    using assms that
    by (simp add: print_char_color_def printable_def Let_def set_vga_color_def vga_set_def
        tbuf_set_def vga_index_def)
  have tb: "TBUF ?t i = TBUF s i" if "i < 2000" for i
    using that by (simp add: TBUF_def)
  show "\<forall>i<2000. vga s' i = shifted_up (mk_cell (vga_make_color fg bg) 0x20) (TBUF s) i"
    by (simp add: eq [OF refl] Let_def scroll_screen_eq backup_closed shifted_up_def tb)
  show "tty_buf s' ((tty_cur s + 1) * 2000) = ?v"
    by (simp add: eq [OF refl] Let_def scroll_screen_eq backup_closed show_both_def)
  show "cursor_row s' = 24" and "cursor_col s' = 0"
    by (simp_all add: eq [OF refl] Let_def scroll_screen_eq backup_closed)
qed

text \<open>A newline on the last row scrolls: the top line is saved, the rest moves up.\<close>

lemma newline_scrolls:
  assumes "\<not> is_viewing_history s" and "cursor_row s = 24"
  shows "print_char_color (CHR 0x0A) fg bg s =
    (let s1 = s\<lparr>vga_color := vga_make_color fg bg,
          tty_color := (tty_color s)(tty_cur s := vga_make_color fg bg),
          cursor_row := 25, cursor_col := 0\<rparr>;
         s2 = scroll_screen s1
     in backup_current_screen (s2\<lparr>vga_color := vga_color s,
          tty_color := (tty_color s2)(tty_cur s2 := vga_color s)\<rparr>))"
  using assms by (simp add: print_char_color_def Let_def set_vga_color_def)


subsection \<open>Terminals and the viewer, there and back\<close>

lemma vt_switch_eq:
  assumes "t < 4" and "t \<noteq> tty_cur s"
  shows "vt_switch (int t) s = backup_current_screen (s\<lparr>
      tty_row := (tty_row s)(tty_cur s := cursor_row s),
      tty_col := (tty_col s)(tty_cur s := cursor_col s),
      tty_color := (tty_color s)(tty_cur s := vga_color s),
      tty_cur := t, cursor_row := tty_row s t, cursor_col := tty_col s t, vga_color := tty_color s t,
      vga := \<lambda>i. if i < 2000 then tty_buf s (t * 2000 + i) else vga s i,
      io_out := io_out s @ cursor_io (tty_row s t) (tty_col s t)\<rparr>)"
  using assms
  by (simp add: vt_switch_def Let_def vt_render_active_def render_closed update_cursor_closed
      del: upt_rec_numeral) (simp add: TBUF_def cong: if_cong)

lemma vt_switch_back:
  assumes "t < 4" and "t \<noteq> tty_cur s" and "tty_cur s < 4"
  defines "s' \<equiv> vt_switch (int (tty_cur s)) (vt_switch (int t) s)"
  shows "tty_cur s' = tty_cur s" and "cursor_row s' = cursor_row s"
    and "cursor_col s' = cursor_col s" and "vga_color s' = vga_color s"
    and "tty_buf s' = tty_buf s" and "synced s'"
  using assms
  by (simp_all add: vt_switch_eq backup_closed synced_def TBUF_def)

text \<open>Entering the history and leaving it again puts the terminal back on screen.\<close>

lemma view_up_down:
  assumes "con_inv s" and "\<not> is_viewing_history s" and "0 < history_count s"
  defines "s' \<equiv> view_history_down (view_history_up s)"
  shows "\<not> is_viewing_history s'" and "\<forall>i<2000. vga s' i = vga s i"
    and "\<forall>i<2000. TBUF s' i = TBUF s i" and "history_view_offset s' = 0"
proof -
  have ok: "hist_ok (view_enter s)" using view_enter_ok [OF assms(1)] by (simp add: con_ok_def)
  have tty: "TBUF s i = vga s i" if "i < 2000" for i
    using assms that by (simp add: con_inv_def coherent_def synced_def)
  define u where "u = view_history_up s"
  have u: "u = (view_enter s)\<lparr>vga := history_screen (view_enter s),
      io_out := io_out (view_enter s) @ cursor_io (of_nat (view_lines (view_enter s))) 20\<rparr>"
    using assms(3) ok by (simp add: u_def view_up_eq show_history_closed)
  have flds: "is_viewing_history u" "history_view_offset u = 0" "TBUF u = TBUF s"
      "\<forall>i<2000. screen_backup u (i div 80) (i mod 80) = vga s i"
    using assms(2) by (auto simp: u view_enter_def backup_closed TBUF_def fun_eq_iff dest: cell_row_less)
  have eq: "s' = update_cursor (cursor_row u) (cursor_col u)
      (show_both (\<lambda>i. screen_backup u (i div 80) (i mod 80))
        (u\<lparr>is_viewing_history := False, history_view_offset := 0\<rparr>))"
    using flds by (simp add: s'_def view_history_down_def restore_both Let_def flip: u_def)
  show "\<not> is_viewing_history s'" and "\<forall>i<2000. vga s' i = vga s i"
    and "history_view_offset s' = 0"
    using flds by (simp_all add: eq update_cursor_closed show_both_def)
  show "\<forall>i<2000. TBUF s' i = TBUF s i"
    using flds by (simp add: eq update_cursor_closed tty) (simp add: show_both_def TBUF_def tty)
qed

text \<open>The CRT controller receives the cell number of the clamped cursor, in two bytes.\<close>

definition io_cursor :: "(u16 \<times> u8) list \<Rightarrow> nat" where
  "io_cursor io = (case io of [(_, _), (_, hi), (_, _), (_, lo)] \<Rightarrow> 256 * unat hi + unat lo | _ \<Rightarrow> 0)"

lemma io_cursor_eq:
  "io_cursor (cursor_io r c) = min (unat r) 24 * 80 + min (unat c) 79"
proof -
  define pos :: u16 where "pos = ucast (if 25 \<le> r then 24 else r) * 80
      + ucast (if 80 \<le> c then 79 else c)"
  have r: "unat (if 25 \<le> r then 24 else r) = min (unat r) 24"
    and c: "unat (if 80 \<le> c then 79 else c) = min (unat c) 79"
    by (auto simp: word_le_nat_alt min_def)
  have pos: "unat pos = min (unat r) 24 * 80 + min (unat c) 79"
    by (simp add: pos_def unat_word_ariths unat_ucast_8_16 r c)
  have low: "unat (ucast (w AND 0xFF) :: u8) = unat w mod 256" for w :: u16
  proof -
    have "w AND 0xFF = take_bit 8 w" by (simp add: take_bit_eq_mask mask_eq_exp_minus_1)
    then have "(ucast (w AND 0xFF) :: u8) = ucast w"
      by (auto intro!: bit_word_eqI simp: bit_simps)
    then show ?thesis by (simp add: unat_ucast_16_8)
  qed
  have "unat pos < 65536" by (rule unat_u16_less)
  then show ?thesis
    by (simp add: cursor_io_def io_cursor_def Let_def flip: pos_def)
      (simp add: low unat_drop_bit pos)
qed

subsection \<open>Lines leaving the screen\<close>

lemma save_run:
  assumes "hist_ok s"
  shows "saved_lines (fold save_line_to_history ls s)
    = last_n 1000 (saved_lines s @ map (screen_line s) ls)"
proof -
  have "accepted_items (\<lambda>_ _. False) (\<lambda>l s. screen_line s l) save_line_to_history ls t
      = map (screen_line t) ls" for t
    by (induction ls arbitrary: t) (auto simp: screen_line_def)
  with con_log.entries_adds [OF assms, of ls] show ?thesis by simp
qed

lemma saved_lines_cong:
  "simple_history s = simple_history t \<Longrightarrow> history_write_pos s = history_write_pos t
    \<Longrightarrow> history_count s = history_count t \<Longrightarrow> saved_lines s = saved_lines t"
  by (simp add: saved_lines_def saved_line_def [abs_def])

lemma saved_lines_simps [simp]:
  "saved_lines (show_both f s) = saved_lines s"
  "saved_lines (backup_current_screen s) = saved_lines s"
  "saved_lines (s\<lparr>is_viewing_history := b\<rparr>) = saved_lines s"
  "saved_lines (s\<lparr>cursor_row := r\<rparr>) = saved_lines s"
  "saved_lines (s\<lparr>cursor_col := r\<rparr>) = saved_lines s"
  "saved_lines (s\<lparr>vga_color := k\<rparr>) = saved_lines s"
  "saved_lines (s\<lparr>tty_color := tc\<rparr>) = saved_lines s"
  "saved_lines (s\<lparr>io_out := io\<rparr>) = saved_lines s"
  by (auto simp: show_both_def backup_closed intro!: saved_lines_cong)

lemma clear_saves:
  assumes "hist_ok s"
  shows "saved_lines (clear_screen s) = last_n 1000 (saved_lines s @ map (screen_line s) [0..<25])"
  by (simp add: clear_screen_eq save_run [OF assms] del: upt_rec_numeral)

lemma newline_scroll_effect:
  fixes s :: console and fg bg :: u8
  assumes "con_inv s" and "\<not> is_viewing_history s" and "cursor_row s = 24"
  defines "s' \<equiv> print_char_color (CHR 0x0A) fg bg s"
  shows "\<forall>i<2000. vga s' i = shifted_up (mk_cell (vga_make_color fg bg) 0x20) (vga s) i"
    and "saved_lines s' = last_n 1000 (saved_lines s @ [screen_line s 0])"
    and "cursor_row s' = 24" and "cursor_col s' = 0" and "vga_color s' = vga_color s"
proof -
  define u where "u = s\<lparr>vga_color := vga_make_color fg bg,
          tty_color := (tty_color s)(tty_cur s := vga_make_color fg bg),
          cursor_row := 25, cursor_col := 0\<rparr>"
  have s': "s' = (let s2 = scroll_screen u in backup_current_screen (s2\<lparr>vga_color := vga_color s,
          tty_color := (tty_color s2)(tty_cur s2 := vga_color s)\<rparr>))"
    unfolding s'_def u_def using newline_scrolls [OF assms(2,3), of fg bg] by (simp add: Let_def)
  have u: "TBUF u = TBUF s" "vga u = vga s" "vga_color u = vga_make_color fg bg"
      "saved_lines u = saved_lines s" "hist_ok u" "screen_line u 0 = screen_line s 0"
    using assms(1) by (auto simp: u_def TBUF_def fun_eq_iff con_inv_def con_ok_def screen_line_def)
  have eq: "TBUF s i = vga s i" if "i < 2000" for i
    using assms that by (simp add: con_inv_def coherent_def synced_def)
  show "\<forall>i<2000. vga s' i = shifted_up (mk_cell (vga_make_color fg bg) 0x20) (vga s) i"
    by (simp add: s' Let_def scroll_screen_eq backup_closed u shifted_up_def eq)
  show "saved_lines s' = last_n 1000 (saved_lines s @ [screen_line s 0])"
    by (simp add: s' Let_def scroll_screen_eq u saved_lines_save)
  show "cursor_row s' = 24" and "cursor_col s' = 0" and "vga_color s' = vga_color s"
    by (simp_all add: s' Let_def scroll_screen_eq backup_closed)
qed

text \<open>Row \<open>r\<close> of the viewer is a line of the log, counted from its newest entry.\<close>

lemma view_shows:
  assumes "hist_ok s" and "r < view_lines s" and "c < 80"
  shows "vga (show_history_lines s) (r * 80 + c) = shown_cell
    (saved_lines s ! (nat (history_count s) - view_lines s - nat (history_view_offset s) + r) ! c)"
proof -
  define n where "n = view_lines s"
  define k where "k = nat (history_count s) - n - nat (history_view_offset s) + r"
  have b: "int n = min 24 (history_count s)" "r < n"
    using assms by (auto simp: n_def view_lines_def hist_ok_def)
  have k: "int k = history_count s - int n - history_view_offset s + int r"
    using assms(1) b by (auto simp: k_def hist_ok_def)
  then have kl: "k < nat (history_count s)"
    using assms(1) b by (auto simp: hist_ok_def)
  have rc: "(r * 80 + c) div 80 = r" "(r * 80 + c) mod 80 = c"
    using assms(3) by simp_all
  have "r * 80 + c < n * 80"
    using mult_le_mono1 [of "Suc r" n 80] b(2) assms(3) by simp
  then have v: "vga (show_history_lines s) (r * 80 + c)
      = shown_cell (simple_history s (nat ((view_start s + int r) mod 1000)) c)"
    unfolding show_history_closed [OF assms(1)]
    using assms(3) by (simp add: history_screen_def Let_def rc flip: n_def)
  have "(view_start s + int r) mod 1000 = (history_write_pos s - history_count s + int k) mod 1000"
    by (simp add: view_start_def mod_simps k algebra_simps flip: n_def)
  moreover have "saved_lines s ! k ! c
      = simple_history s (nat ((history_write_pos s - history_count s + int k) mod 1000)) c"
    using kl assms(3) by (simp add: saved_lines_def saved_line_def)
  ultimately show ?thesis by (simp add: v k_def n_def)
qed


subsection \<open>Properties\<close>


text \<open>C32: a newline on the last row moves every row up by one, blanks the last row in the colour
  printed with, files the row that left the screen as the newest of at most 1000 saved lines
  (the oldest is dropped when full), and leaves the cursor at the start of the last row.\<close>

theorem newline_on_last_row:
  assumes "con_inv s" and "\<not> is_viewing_history s" and "cursor_row s = 24"
  shows "(\<forall>i<2000. vga (print_char_color (CHR 0x0A) fg bg s) i
        = (if i < 1920 then vga s (i + 80) else mk_cell (vga_make_color fg bg) 0x20))
    \<and> saved_lines (print_char_color (CHR 0x0A) fg bg s)
        = last_n 1000 (saved_lines s @ [screen_line s 0])
    \<and> cursor_row (print_char_color (CHR 0x0A) fg bg s) = 24
    \<and> cursor_col (print_char_color (CHR 0x0A) fg bg s) = 0
    \<and> vga_color (print_char_color (CHR 0x0A) fg bg s) = vga_color s"
  using newline_scroll_effect [OF assms] by (simp add: shifted_up_def)

definition con_demo :: console where
  "con_demo = (clear_screen (console_boot (\<lambda>_. 0x0741)))\<lparr>cursor_row := 24\<rparr>"

lemma boot_log: "hist_ok (console_boot v)" "saved_lines (console_boot v) = []"
  by (simp_all add: console_boot_def hist_ok_def saved_lines_def)

lemma con_demo_ok: "con_inv con_demo" "\<not> is_viewing_history con_demo" "cursor_row con_demo = 24"
proof -
  have "con_ok (console_boot (\<lambda>_. 0x0741))"
    by (simp add: con_ok_def hist_ok_def console_boot_def)
  then have "con_inv (clear_screen (console_boot (\<lambda>_. 0x0741)))" by (rule clear_screen_inv)
  then show "con_inv con_demo" by (simp add: con_demo_def con_inv_def con_ok_row)
  show "\<not> is_viewing_history con_demo" "cursor_row con_demo = 24"
    by (simp_all add: con_demo_def clear_screen_eq)
qed

lemma fold_save_offset:
  "history_view_offset (fold save_line_to_history ls s) = history_view_offset s"
  by (induction ls arbitrary: s) (auto simp: save_line_closed)

lemma con_demo_offset: "history_view_offset con_demo = 0"
  by (simp add: con_demo_def clear_screen_eq backup_closed show_both_def fold_save_offset
      del: upt_rec_numeral) (simp add: console_boot_def)

lemma con_demo_lines: "length (saved_lines con_demo) = 25"
  using clear_saves [OF boot_log(1)]
  by (simp add: con_demo_def boot_log(2) del: upt_rec_numeral)

theorem newline_on_last_row_witness:
  "cursor_row (print_char_color (CHR 0x0A) 7 0 con_demo) = 24
    \<and> vga (print_char_color (CHR 0x0A) 7 0 con_demo) 1999 = 0x0720"
  using newline_on_last_row [OF con_demo_ok, of 7 0] by (simp add: mk_cell_def vga_make_color_def)

text \<open>Clearing the screen files its 25 rows, top to bottom, in the log of saved lines, and
  the log keeps the newest 1000.\<close>

theorem clear_screen_files_rows:
  assumes "hist_ok s"
  shows "saved_lines (clear_screen s) = last_n 1000 (saved_lines s @ map (screen_line s) [0..<25])
    \<and> (\<forall>i<2000. vga (clear_screen s) i = mk_cell (vga_color s) 0x20)"
  using clear_saves [OF assms] by (simp_all add: clear_screen_eq backup_closed del: upt_rec_numeral)

theorem clear_screen_files_rows_witness:
  "length (saved_lines (clear_screen (console_boot (\<lambda>_. 0x0741)))) = 25"
  using clear_screen_files_rows [OF boot_log(1)] by (simp add: boot_log(2) del: upt_rec_numeral)

text \<open>C33: the viewer shows consecutive lines of the log: row \<open>r\<close> of the history view is the
  saved line that lies \<open>history_view_offset\<close> lines before the window of the newest 24, with the
  cells that hold no printable character blanked.\<close>

theorem history_view_shows_log:
  assumes "hist_ok s" and "r < view_lines s" and "c < 80"
  shows "vga (show_history_lines s) (r * 80 + c) = shown_cell
    (saved_lines s ! (nat (history_count s) - view_lines s - nat (history_view_offset s) + r) ! c)"
  using assms by (rule view_shows)

theorem history_view_shows_log_witness:
  "vga (show_history_lines con_demo) 0 = shown_cell (saved_lines con_demo ! 1 ! 0)"
proof -
  have h: "hist_ok con_demo" using con_demo_ok by (simp add: con_inv_def con_ok_def)
  have "length (saved_lines con_demo) = 25" by (rule con_demo_lines)
  then have c: "nat (history_count con_demo) = 25" by (simp add: saved_lines_def)
  then have "view_lines con_demo = 24" by (simp add: view_lines_def)
  then show ?thesis
    using history_view_shows_log [OF h, of 0 0] c con_demo_offset by simp
qed

text \<open>Entering the history view and leaving it again brings back the screen, the terminal's
  buffer and the live mode unchanged.\<close>

theorem history_view_round_trip:
  assumes "con_inv s" and "\<not> is_viewing_history s" and "0 < history_count s"
  shows "\<not> is_viewing_history (view_history_down (view_history_up s))
    \<and> (\<forall>i<2000. vga (view_history_down (view_history_up s)) i = vga s i)
    \<and> (\<forall>i<2000. TBUF (view_history_down (view_history_up s)) i = TBUF s i)
    \<and> history_view_offset (view_history_down (view_history_up s)) = 0"
  using view_up_down [OF assms] by blast

theorem history_view_round_trip_witness:
  "vga (view_history_down (view_history_up con_demo)) 7 = vga con_demo 7"
proof -
  have "length (saved_lines con_demo) = 25" by (rule con_demo_lines)
  then have "0 < history_count con_demo" by (simp add: saved_lines_def)
  from history_view_round_trip [OF con_demo_ok(1,2) this] show ?thesis by simp
qed

text \<open>C34: switching to another terminal and back restores its cursor, its colour and every
  terminal's text, and shows it in text memory.\<close>

theorem vt_switch_round_trip:
  assumes "t < 4" and "t \<noteq> tty_cur s" and "tty_cur s < 4"
  shows "tty_cur (vt_switch (int (tty_cur s)) (vt_switch (int t) s)) = tty_cur s
    \<and> cursor_row (vt_switch (int (tty_cur s)) (vt_switch (int t) s)) = cursor_row s
    \<and> cursor_col (vt_switch (int (tty_cur s)) (vt_switch (int t) s)) = cursor_col s
    \<and> vga_color (vt_switch (int (tty_cur s)) (vt_switch (int t) s)) = vga_color s
    \<and> tty_buf (vt_switch (int (tty_cur s)) (vt_switch (int t) s)) = tty_buf s
    \<and> synced (vt_switch (int (tty_cur s)) (vt_switch (int t) s))"
  using vt_switch_back [OF assms] by simp

theorem vt_switch_round_trip_witness:
  "vga_color (vt_switch 0 (vt_switch 2 (console_boot (\<lambda>_. 0x0741)))) = 7"
  using vt_switch_round_trip [of 2 "console_boot (\<lambda>_. 0x0741)"] by (simp add: console_boot_def)

text \<open>A printable character goes to the cell under the cursor, of text memory and of the
  terminal's buffer alike, in the colours asked for; the cursor advances by one column, after
  wrapping to the next row when it stood past the last column; no other cell changes and the
  default colour is kept.\<close>

theorem print_char_places_cell:
  assumes "printable c" and "\<not> is_viewing_history s"
    and "(r, k) = (if 80 \<le> cursor_col s then (cursor_row s + 1, 0) else (cursor_row s, cursor_col s))"
    and "r < 25"
  shows "vga (print_char_color c fg bg s) = (vga s)(unat r * 80 + unat k
        := mk_cell (vga_make_color fg bg) (of_char c))
    \<and> TBUF (print_char_color c fg bg s) = (TBUF s)(unat r * 80 + unat k
        := mk_cell (vga_make_color fg bg) (of_char c))
    \<and> cursor_row (print_char_color c fg bg s) = r \<and> cursor_col (print_char_color c fg bg s) = k + 1
    \<and> vga_color (print_char_color c fg bg s) = vga_color s"
  using put_plain [OF assms, of fg bg] by (simp add: backup_closed TBUF_def fun_eq_iff vga_index_def)

theorem print_char_places_cell_witness:
  "vga (print_char_color (CHR ''A'') 0x0E 0 (console_boot (\<lambda>_. 0))) 0 = 0x0E41"
  using print_char_places_cell [of "CHR ''A''" "console_boot (\<lambda>_. 0)" 0 0 "0x0E" 0]
  by (simp add: console_boot_def printable_def mk_cell_def vga_make_color_def)

text \<open>C35: a character printed with the cursor past the bottom right corner is lost: the screen
  scrolls without it, and its cell lands in the first cell of the next terminal's buffer
  (past the end of the array for the last terminal).\<close>

theorem print_char_corner_overflows:
  assumes "printable c" and "\<not> is_viewing_history s"
    and "80 \<le> cursor_col s" and "cursor_row s = 24"
  shows "(\<forall>i<2000. vga (print_char_color c fg bg s) i
        = shifted_up (mk_cell (vga_make_color fg bg) 0x20) (TBUF s) i)
    \<and> tty_buf (print_char_color c fg bg s) ((tty_cur s + 1) * 2000)
        = mk_cell (vga_make_color fg bg) (of_char c)
    \<and> cursor_col (print_char_color c fg bg s) = 0"
  using put_corner [OF assms, of fg bg] by simp

theorem print_char_corner_overflows_witness:
  "tty_buf (print_char_color (CHR ''A'') 7 0
      ((console_boot (\<lambda>_. 0))\<lparr>cursor_row := 24, cursor_col := 80\<rparr>)) 2000 = 0x0741"
  using print_char_corner_overflows
      [of "CHR ''A''" "(console_boot (\<lambda>_. 0))\<lparr>cursor_row := 24, cursor_col := 80\<rparr>" 7 0]
  by (simp add: console_boot_def printable_def mk_cell_def vga_make_color_def)

text \<open>The four port writes of \<open>update_cursor\<close> carry, in two bytes, the number of the cell the
  cursor is clamped to, high byte to register 14 and low byte to register 15.\<close>

theorem update_cursor_programs_crtc:
  "\<exists>io. io_out (update_cursor r c s) = io_out s @ io
    \<and> map fst io = [0x3D4, 0x3D5, 0x3D4, 0x3D5] \<and> snd (io ! 0) = 14 \<and> snd (io ! 2) = 15
    \<and> 256 * unat (snd (io ! 1)) + unat (snd (io ! 3)) = min (unat r) 24 * 80 + min (unat c) 79"
proof -
  have "256 * unat (snd (cursor_io r c ! 1)) + unat (snd (cursor_io r c ! 3)) = io_cursor (cursor_io r c)"
    by (simp add: cursor_io_def io_cursor_def Let_def numeral_eq_Suc)
  then show ?thesis
    by (intro exI [of _ "cursor_io r c"])
      (simp add: update_cursor_closed io_cursor_eq, simp add: cursor_io_def Let_def)
qed

end
