(* ===== verification/Printk.thy ===== *)
theory Printk
  imports Screen
begin

text \<open>
  Formatted output (\<open>skip_atoi\<close>, \<open>number\<close>, \<open>vprintk\<close>, \<open>printk\<close>, \<open>printk_color\<close> of
  \<open>kernel/console.c\<close>). A call's variable arguments are a list of \<open>varg\<close>: a machine word as
  the register or stack slot holds it, or a string pointer (\<open>None\<close> for a null pointer).
  \<open>vprintk\<close> yields \<open>None\<close> where the C code is undefined: an argument that is missing or of the
  wrong kind, a width beyond \<open>int\<close>, more than 1023 characters for \<open>fmt_buf\<close>, or \<open>%n\<close>, whose
  store through the pointer is outside the console's state (no format of the kernel uses
  it). \<open>printk\<close> then sets the \<open>fault\<close> flag of the console and prints nothing.

  The remaining format is a list of characters; the empty list is the terminating NUL. The
  counting-down padding loops are \<open>pad\<close>: \<open>while (n-- > 0) *str++ = c\<close>.
\<close>

abbreviation (input) ZEROPAD :: u32 where "ZEROPAD \<equiv> 1"
abbreviation (input) SIGN :: u32 where "SIGN \<equiv> 2"
abbreviation (input) PLUS :: u32 where "PLUS \<equiv> 4"
abbreviation (input) SPACE :: u32 where "SPACE \<equiv> 8"
abbreviation (input) LEFT :: u32 where "LEFT \<equiv> 16"
abbreviation (input) SPECIAL :: u32 where "SPECIAL \<equiv> 32"
abbreviation (input) SMALL :: u32 where "SMALL \<equiv> 64"

datatype varg = ArgW u64 | ArgS "string option"

definition is_digit :: "char \<Rightarrow> bool" where
  "is_digit c \<longleftrightarrow> (48::nat) \<le> of_char c \<and> (of_char c :: nat) \<le> 57"

fun skip_digits :: "int \<Rightarrow> string \<Rightarrow> int \<times> string" where
  "skip_digits i [] = (i, [])"
| "skip_digits i (c # s) =
     (if is_digit c then skip_digits (i * 10 + of_char c - 48) s else (i, c # s))"

definition skip_atoi :: "string \<Rightarrow> int \<times> string" where
  "skip_atoi s = skip_digits 0 s"

definition pad :: "char \<Rightarrow> int \<Rightarrow> string \<times> int" where
  "pad c n = (replicate (nat n) c, min n 0 - 1)"

definition digits_large :: string where
  "digits_large = ''0123456789ABCDEFGHIJKLMNOPQRSTUVWXYZ''"

definition digits_small :: string where
  "digits_small = ''0123456789abcdefghijklmnopqrstuvwxyz''"

fun number_tmp :: "string \<Rightarrow> nat \<Rightarrow> nat \<Rightarrow> string" where
  "number_tmp digits base num =
     (if num = 0 \<or> base < 2 then [] else digits ! (num mod base) # number_tmp digits base (num div base))"

declare number_tmp.simps [simp del]

definition number :: "u64 \<Rightarrow> int \<Rightarrow> int \<Rightarrow> int \<Rightarrow> u32 \<Rightarrow> string option" where
  "number num base size_left precision type =
     (let digits = (if type AND SMALL \<noteq> 0 then digits_small else digits_large);
          type = (if type AND LEFT \<noteq> 0 then type AND NOT ZEROPAD else type)
      in if base < 2 \<or> 36 < base then None
      else
        let c = (if type AND ZEROPAD \<noteq> 0 then CHR ''0'' else CHR '' '');
            (sign, num, size_left) =
              (if type AND SIGN \<noteq> 0 \<and> num <s 0 then (''-'', - num, size_left - 1)
               else if type AND PLUS \<noteq> 0 then (''+'', num, size_left - 1)
               else if type AND SPACE \<noteq> 0 then ('' '', num, size_left - 1)
               else ([], num, size_left));
            size_left = (if type AND SPECIAL \<noteq> 0
                    then if base = 16 then size_left - 2 else if base = 8 then size_left - 1 else size_left
                    else size_left);
            tmp = (if num = 0 then ''0'' else number_tmp digits (nat base) (unat num));
            i = int (length tmp);
            precision = (if precision < i then i else precision);
            size_left = size_left - precision;
            (p1, size_left) = (if type AND (ZEROPAD OR LEFT) = 0 then pad (CHR '' '') size_left else ([], size_left));
            special = (if type AND SPECIAL \<noteq> 0
                       then if base = 8 then ''0''
                            else if base = 16 then [CHR ''0'', if type AND SMALL \<noteq> 0 then CHR ''x'' else CHR ''X'']
                            else []
                       else []);
            (p2, size_left) = (if type AND LEFT = 0 then pad c size_left else ([], size_left));
            zeros = replicate (nat (precision - i)) (CHR ''0'');
            (p3, size_left) = pad (CHR '' '') size_left
        in Some (p1 @ sign @ special @ p2 @ zeros @ rev tmp @ p3))"


subsection \<open>Parsing one conversion\<close>

fun flag_bit :: "char \<Rightarrow> u32" where
  "flag_bit c = (if c = CHR ''-'' then LEFT else if c = CHR ''+'' then PLUS
     else if c = CHR '' '' then SPACE else if c = CHR ''#'' then SPECIAL
     else if c = CHR ''0'' then ZEROPAD else 0)"

fun parse_flags :: "u32 \<Rightarrow> string \<Rightarrow> u32 \<times> string" where
  "parse_flags flags [] = (flags, [])"
| "parse_flags flags (c # fmt) =
     (if flag_bit c \<noteq> 0 then parse_flags (flags OR flag_bit c) fmt else (flags, c # fmt))"

text \<open>\<open>va_arg (args, int)\<close>, \<open>va_arg (args, uint32_t)\<close>, \<open>va_arg (args, uint64_t)\<close>, \<open>va_arg (args, char*)\<close>.\<close>

fun va_word :: "varg list \<Rightarrow> (u64 \<times> varg list) option" where
  "va_word (ArgW w # args) = Some (w, args)"
| "va_word _ = None"

fun va_string :: "varg list \<Rightarrow> (string option \<times> varg list) option" where
  "va_string (ArgS s # args) = Some (s, args)"
| "va_string _ = None"

definition va_int :: "varg list \<Rightarrow> (int \<times> varg list) option" where
  "va_int args = map_option (\<lambda>(w, args). (sint (ucast w :: u32), args)) (va_word args)"

definition va_uint :: "bool \<Rightarrow> varg list \<Rightarrow> (u64 \<times> varg list) option" where
  "va_uint long args =
     map_option (\<lambda>(w, args). (if long then w else ucast (ucast w :: u32), args)) (va_word args)"

definition int_max :: int where "int_max = 2 ^ 31 - 1"

text \<open>Field width: flags, width, rest of the format, rest of the arguments.\<close>

definition parse_width :: "u32 \<Rightarrow> string \<Rightarrow> varg list \<Rightarrow> (u32 \<times> int \<times> string \<times> varg list) option" where
  "parse_width flags fmt args =
     (case fmt of
        [] \<Rightarrow> Some (flags, -1, fmt, args)
      | c # rest \<Rightarrow>
          if is_digit c then
            let (w, rest') = skip_atoi fmt in if int_max < w then None else Some (flags, w, rest', args)
          else if c = CHR ''*'' then
            (case va_int args of
               None \<Rightarrow> None
             | Some (w, args) \<Rightarrow> if w < 0 then Some (flags OR LEFT, - w, rest, args)
                                 else Some (flags, w, rest, args))
          else Some (flags, -1, fmt, args))"

definition parse_precision :: "string \<Rightarrow> varg list \<Rightarrow> (int \<times> string \<times> varg list) option" where
  "parse_precision fmt args =
     (case fmt of
        [] \<Rightarrow> Some (-1, fmt, args)
      | c # rest \<Rightarrow>
          if c \<noteq> CHR ''.'' then Some (-1, fmt, args)
          else (case rest of
              [] \<Rightarrow> Some (0, rest, args)
            | d # rest' \<Rightarrow>
                if is_digit d then
                  let (p, r) = skip_atoi rest in if int_max < p then None else Some (p, r, args)
                else if d = CHR ''*'' then
                  map_option (\<lambda>(p, args). (max p 0, rest', args)) (va_int args)
                else Some (0, rest, args)))"

definition parse_qualifier :: "string \<Rightarrow> char option \<times> string" where
  "parse_qualifier fmt =
     (case fmt of
        [] \<Rightarrow> (None, fmt)
      | c # rest \<Rightarrow> if c = CHR ''h'' \<or> c = CHR ''l'' \<or> c = CHR ''L'' then (Some c, rest) else (None, fmt))"


subsection \<open>The conversions\<close>

definition conv_char :: "u32 \<Rightarrow> int \<Rightarrow> varg list \<Rightarrow> (string \<times> varg list) option" where
  "conv_char flags field_width args =
     (case va_int args of
        None \<Rightarrow> None
      | Some (v, args) \<Rightarrow>
          let (p1, field_width) =
                (if flags AND LEFT = 0 then (replicate (nat (field_width - 1)) (CHR '' ''), min field_width 1 - 1)
                 else ([], field_width));
              p2 = replicate (nat (field_width - 1)) (CHR '' '')
          in Some (p1 @ [char_of v] @ p2, args))"

definition conv_string :: "u32 \<Rightarrow> int \<Rightarrow> int \<Rightarrow> varg list \<Rightarrow> (string \<times> varg list) option" where
  "conv_string flags field_width precision args =
     (case va_string args of
        None \<Rightarrow> None
      | Some (sp, args) \<Rightarrow>
          let s = (case sp of None \<Rightarrow> ''(null)'' | Some s \<Rightarrow> cstr s);
              len = int (length s);
              len = (if precision < 0 then len else if precision < len then precision else len);
              (p1, field_width) =
                (if flags AND LEFT = 0
                 then (replicate (nat (field_width - len)) (CHR '' ''), min field_width len - 1)
                 else ([], field_width));
              p2 = replicate (nat (field_width - len)) (CHR '' '')
          in Some (p1 @ take (nat len) s @ p2, args))"

definition conv_number :: "u64 \<Rightarrow> int \<Rightarrow> int \<Rightarrow> int \<Rightarrow> u32 \<Rightarrow> varg list \<Rightarrow> (string \<times> varg list) option" where
  "conv_number num base field_width precision flags args =
     map_option (\<lambda>str. (str, args)) (number num base field_width precision flags)"

text \<open>The text after a percent sign: output, rest of the format, rest of the arguments.\<close>

definition vprintk_conv :: "string \<Rightarrow> varg list \<Rightarrow> (string \<times> string \<times> varg list) option" where
  "vprintk_conv fmt args =
     (let (flags, fmt) = parse_flags 0 fmt in
      case parse_width flags fmt args of None \<Rightarrow> None | Some (flags, field_width, fmt, args) \<Rightarrow>
      case parse_precision fmt args of None \<Rightarrow> None | Some (precision, fmt, args) \<Rightarrow>
      let (qualifier, fmt) = parse_qualifier fmt;
          long = (qualifier = Some (CHR ''l''))
      in case fmt of
        [] \<Rightarrow> Some (''%'', [], args)
      | c # rest \<Rightarrow>
          map_option (\<lambda>(str, args). (str, rest, args))
            (if c = CHR ''c'' then conv_char flags field_width args
             else if c = CHR ''s'' then conv_string flags field_width precision args
             else if c = CHR ''o'' then
               (case va_uint long args of None \<Rightarrow> None | Some (num, args) \<Rightarrow>
                  conv_number num 8 field_width precision flags args)
             else if c = CHR ''p'' then
               (let (flags, field_width) =
                      (if field_width = -1 then (flags OR ZEROPAD, 16) else (flags, field_width))
                in case va_word args of None \<Rightarrow> None | Some (num, args) \<Rightarrow>
                  conv_number num 16 field_width precision (flags OR SMALL) args)
             else if c = CHR ''x'' \<or> c = CHR ''X'' then
               (let flags = (if c = CHR ''x'' then flags OR SMALL else flags)
                in case va_uint long args of None \<Rightarrow> None | Some (num, args) \<Rightarrow>
                  conv_number num 16 field_width precision flags args)
             else if c = CHR ''d'' \<or> c = CHR ''i'' \<or> c = CHR ''u'' then
               (let flags = (if c = CHR ''u'' then flags else flags OR SIGN)
                in case va_uint long args of None \<Rightarrow> None | Some (num, args) \<Rightarrow>
                  conv_number num 10 field_width precision flags args)
             else if c = CHR ''n'' then None
             else if c = CHR ''%'' then Some (''%'', args)
             else Some ([CHR ''%'', c], args)))"

lemma skip_digits_length: "length (snd (skip_digits i s)) \<le> length s"
  by (induction i s rule: skip_digits.induct) auto

lemma parse_flags_length: "length (snd (parse_flags f s)) \<le> length s"
  by (induction f s rule: parse_flags.induct) (auto simp del: flag_bit.simps)

lemma parse_width_length:
  "parse_width f s args = Some (f', w, s', args') \<Longrightarrow> length s' \<le> length s"
  using skip_digits_length [of 0 s]
  by (auto simp: parse_width_def skip_atoi_def Let_def split: list.splits if_splits option.splits prod.splits)

lemma parse_precision_length:
  "parse_precision s args = Some (p, s', args') \<Longrightarrow> length s' \<le> length s"
  using skip_digits_length [of 0 "tl s"]
  by (auto simp: parse_precision_def skip_atoi_def Let_def split: list.splits if_splits option.splits prod.splits)

lemma parse_qualifier_length: "length (snd (parse_qualifier s)) \<le> length s"
  by (auto simp: parse_qualifier_def split: list.splits)

lemma vprintk_conv_length:
  assumes "vprintk_conv s args = Some (out, s', args')"
  shows "length s' \<le> length s"
proof -
  obtain f s1 where 1: "parse_flags 0 s = (f, s1)" by fastforce
  with assms obtain f' w s2 a2 where 2: "parse_width f s1 args = Some (f', w, s2, a2)"
    by (auto simp: vprintk_conv_def split: option.splits)
  with assms 1 obtain p s3 a3 where 3: "parse_precision s2 a2 = Some (p, s3, a3)"
    by (auto simp: vprintk_conv_def split: option.splits)
  obtain q s4 where 4: "parse_qualifier s3 = (q, s4)" by fastforce
  have "length s' \<le> length s4"
    using assms unfolding vprintk_conv_def 1 Let_def prod.case 2 option.case 3 4
    by (cases s4) auto
  then show ?thesis
    using 1 2 3 4 parse_flags_length [of 0 s] parse_width_length [OF 2] parse_precision_length [OF 3]
      parse_qualifier_length [of s3] by simp
qed

function vprintk_loop :: "string \<Rightarrow> varg list \<Rightarrow> string option" where
  "vprintk_loop [] args = Some []"
| "vprintk_loop (c # fmt) args =
     (if c \<noteq> CHR ''%'' then map_option (Cons c) (vprintk_loop fmt args)
      else case vprintk_conv fmt args of
          None \<Rightarrow> None
        | Some (str, fmt', args') \<Rightarrow> map_option ((@) str) (vprintk_loop fmt' args'))"
  by pat_completeness auto

termination
  by (relation "measure (length \<circ> fst)") (auto dest: vprintk_conv_length)

text \<open>The contents of \<open>fmt_buf\<close> before its terminator; the return value is its length.\<close>

definition vprintk :: "string \<Rightarrow> varg list \<Rightarrow> string option" where
  "vprintk fmt args = (case vprintk_loop (cstr fmt) args of
     None \<Rightarrow> None | Some str \<Rightarrow> if length str < 1024 then Some str else None)"

record kcon = con :: console

definition printk_color :: "u8 \<Rightarrow> u8 \<Rightarrow> string \<Rightarrow> varg list \<Rightarrow> 'a kcon_scheme \<Rightarrow> 'a kcon_scheme" where
  "printk_color fg bg fmt args k =
     (case vprintk fmt args of
        None \<Rightarrow> k\<lparr>con := (con k)\<lparr>fault := True\<rparr>\<rparr>
      | Some fmt_buf \<Rightarrow> k\<lparr>con := print_str_color fmt_buf fg bg (con k)\<rparr>)"

definition printk :: "string \<Rightarrow> varg list \<Rightarrow> 'a kcon_scheme \<Rightarrow> 'a kcon_scheme" where
  "printk fmt args k =
     (case vprintk fmt args of
        None \<Rightarrow> k\<lparr>con := (con k)\<lparr>fault := True\<rparr>\<rparr>
      | Some fmt_buf \<Rightarrow> k\<lparr>con := print_str fmt_buf (con k)\<rparr>)"


lemma printk_frame [simp, frame_simps]:
  "kcon.more (printk fmt args k) = kcon.more k"
  "kcon.more (printk_color fg bg fmt args k) = kcon.more k"
  by (simp_all add: printk_def printk_color_def split: option.splits)


subsection \<open>Digits\<close>

definition digit_index :: "string \<Rightarrow> char \<Rightarrow> nat" where
  "digit_index digits c = length (takeWhile (\<lambda>d. d \<noteq> c) digits)"

text \<open>The number a digit string, most significant digit first, stands for.\<close>

definition read_digits :: "string \<Rightarrow> nat \<Rightarrow> string \<Rightarrow> nat" where
  "read_digits digits base str = foldl (\<lambda>acc c. acc * base + digit_index digits c) 0 str"

lemma digit_index_nth: "distinct ds \<Longrightarrow> i < length ds \<Longrightarrow> digit_index ds (ds ! i) = i"
proof (induction ds arbitrary: i)
  case (Cons d ds)
  show ?case
  proof (cases i)
    case (Suc j)
    then have "d \<noteq> ds ! j" using Cons.prems by auto
    with Suc Cons show ?thesis by (simp add: digit_index_def)
  qed (simp add: digit_index_def)
qed simp

lemma digits_distinct: "distinct digits_large" "distinct digits_small"
    "length digits_large = 36" "length digits_small = 36"
  by (simp_all add: digits_large_def digits_small_def)

lemma number_tmp_0 [simp]: "number_tmp ds b 0 = []"
  by (simp add: number_tmp.simps)

lemma number_tmp_step:
  "0 < n \<Longrightarrow> 2 \<le> b \<Longrightarrow> number_tmp ds b n = ds ! (n mod b) # number_tmp ds b (n div b)"
  by (subst number_tmp.simps) auto

lemma read_number_tmp:
  assumes "distinct ds" and "2 \<le> b" and "b \<le> length ds"
  shows "read_digits ds b (rev (number_tmp ds b n)) = n"
proof (induction n rule: less_induct)
  case (less n)
  show ?case
  proof (cases "n = 0")
    case True
    then show ?thesis by (simp add: read_digits_def)
  next
    case False
    have "digit_index ds (ds ! (n mod b)) = n mod b"
      using assms order_less_le_trans [OF mod_less_divisor [of b n] assms(3)]
    by (intro digit_index_nth) auto
    with less.IH [of "n div b"] False assms(2) show ?thesis
      by (simp add: number_tmp_step read_digits_def)
  qed
qed

text \<open>The buffer \<open>tmp[64]\<close> is long enough for every base.\<close>

lemma number_tmp_length: "2 \<le> b \<Longrightarrow> n < 2 ^ k \<Longrightarrow> length (number_tmp ds b n) \<le> k"
proof (induction k arbitrary: n)
  case (Suc k)
  show ?case
  proof (cases "n = 0")
    case False
    have "n div b \<le> n div 2" using Suc.prems(1) by (intro div_le_mono2) auto
    also have "n div 2 < 2 ^ k" using Suc.prems(2) by (simp add: less_mult_imp_div_less)
    finally show ?thesis using Suc.IH [of "n div b"] Suc.prems(1) False by (simp add: number_tmp_step)
  qed simp
qed simp

definition decimal :: "nat \<Rightarrow> string" where
  "decimal n = (if n = 0 then ''0'' else rev (number_tmp digits_large 10 n))"

lemma decimal_digit: "d < 10 \<Longrightarrow> digits_large ! d = char_of (48 + d)"
proof -
  have "\<forall>d\<in>set [0..<10]. digits_large ! d = char_of (48 + d)" by code_simp
  then show "d < 10 \<Longrightarrow> digits_large ! d = char_of (48 + d)" by simp
qed

lemma uint64_buf_tmp: "uint64_buf n = number_tmp digits_large 10 n"
proof (induction n rule: less_induct)
  case (less n)
  then show ?case
    by (subst uint64_buf.simps) (simp add: number_tmp_step decimal_digit)
qed

lemma of_char_small: "n < 256 \<Longrightarrow> (of_char (char_of n :: char) :: nat) = n"
  by simp

lemma number_tmp_digits: "c \<in> set (number_tmp digits_large 10 n) \<Longrightarrow> is_digit c"
proof (induction n rule: less_induct)
  case (less n)
  have "is_digit (digits_large ! (n mod 10))"
    by (simp add: decimal_digit is_digit_def of_char_small)
  with less.prems less.IH [of "n div 10"] show ?case
    by (cases "n = 0") (auto simp: number_tmp_step)
qed

lemma decimal_digits: "c \<in> set (decimal n) \<Longrightarrow> is_digit c"
  by (auto simp: decimal_def is_digit_def dest: number_tmp_digits [unfolded is_digit_def] split: if_splits)

lemma is_digit_not_NUL: "is_digit c \<Longrightarrow> c \<noteq> NUL"
  by (auto simp: is_digit_def)

lemma decimal_length: "n < 2 ^ 64 \<Longrightarrow> length (decimal n) \<le> 64"
  using number_tmp_length [of 10 n 64] by (simp add: decimal_def)

lemma cstr_decimal: "cstr (decimal n) = decimal n"
  by (rule cstr_id) (auto dest!: decimal_digits is_digit_not_NUL)

lemma skip_digits_num:
  "skip_digits i (rev (number_tmp digits_large 10 n) @ s)
    = skip_digits (i * 10 ^ length (number_tmp digits_large 10 n) + int n) s"
proof (induction n arbitrary: i s rule: less_induct)
  case (less n)
  show ?case
  proof (cases "n = 0")
    case False
    let ?d = "digits_large ! (n mod 10)"
    have "(of_char ?d :: int) = int (of_char ?d)" by (simp only: of_nat_of_char)
    then have d: "is_digit ?d" "(of_char ?d :: int) = 48 + int (n mod 10)"
      by (simp_all add: decimal_digit is_digit_def of_char_small)
    have "int (n mod 10) + (10 * int (n div 10) + x) = int n + x" for x
      by presburger
    with less.IH [of "n div 10" i "?d # s"] False d show ?thesis
      by (simp add: number_tmp_step algebra_simps)
  qed simp
qed

lemma skip_atoi_decimal:
  assumes "case rest of [] \<Rightarrow> True | c # _ \<Rightarrow> \<not> is_digit c"
  shows "skip_atoi (decimal n @ rest) = (int n, rest)"
proof -
  have r: "skip_digits k rest = (k, rest)" for k
    using assms by (cases rest) auto
  show ?thesis
    by (simp add: skip_atoi_def decimal_def skip_digits_num r) (simp add: is_digit_def r)
qed


subsection \<open>Conversions of unsigned numbers\<close>

lemma number_unsigned:
  assumes "flags \<in> {0, LEFT, ZEROPAD}"
  shows "number num 10 w (-1) flags = Some (
     let d = decimal (unat num); fill = nat (w - int (length d)) in
     if flags = LEFT then d @ replicate fill (CHR '' '')
     else if flags = ZEROPAD then replicate fill (CHR ''0'') @ d
     else replicate fill (CHR '' '') @ d)"
proof -
  define t where "t = (if num = 0 then ''0'' else number_tmp digits_large 10 (unat num))"
  have d: "decimal (unat num) = rev t"
    by (simp add: t_def decimal_def unat_eq_zero)
  have "0 < length t" by (auto simp: t_def number_tmp_step unat_gt_0)
  moreover have "number num 10 w (-1) flags = Some (
      (if flags = 0 then fst (pad (CHR '' '') (w - int (length t))) else [])
      @ (if flags = ZEROPAD then fst (pad (CHR ''0'') (w - int (length t))) else [])
      @ rev t
      @ (if flags = LEFT then fst (pad (CHR '' '') (w - int (length t))) else []))"
    if "0 < length t"
    using assms that
    by (cases "num = 0"; elim insertE emptyE) (simp_all add: number_def Let_def pad_def t_def)
  ultimately show ?thesis
    using assms by (auto simp: d pad_def Let_def)
qed


subsection \<open>Whole formats\<close>

lemma vprintk_loop_text:
  "CHR ''%'' \<notin> set s \<Longrightarrow> vprintk_loop (s @ fmt) args = map_option ((@) s) (vprintk_loop fmt args)"
proof (induction s)
  case (Cons c s)
  then have "vprintk_loop (s @ fmt) args = map_option ((@) s) (vprintk_loop fmt args)" by simp
  with Cons.prems show ?case by (auto simp: option.map_comp o_def)
qed (cases "vprintk_loop fmt args"; simp)

lemma vprintk_text:
  assumes "CHR ''%'' \<notin> set (cstr s)" and "length (cstr s) < 1024"
  shows "vprintk s args = Some (cstr s)"
  using vprintk_loop_text [OF assms(1), of "[]" args] assms(2) by (simp add: vprintk_def)

text \<open>Nothing but digits, or a leading digit other than zero.\<close>

lemma decimal_Cons:
  assumes "0 < n"
  obtains c s where "decimal n = c # s" and "is_digit c" and "c \<noteq> CHR ''0''"
proof -
  have "\<exists>c s. rev (number_tmp digits_large 10 n) = c # s \<and> is_digit c \<and> c \<noteq> CHR ''0''"
    using assms
  proof (induction n rule: less_induct)
    case (less n)
    show ?case
    proof (cases "n div 10 = 0")
      case True
      then have n: "n < 10" by simp
      then have e: "number_tmp digits_large 10 n = [char_of (48 + n)]"
        using less.prems by (simp add: number_tmp_step decimal_digit)
      have "(char_of (48 + n) :: char) \<noteq> char_of (48 :: nat)"
        using n less.prems by (simp add: char_of_eq_iff take_bit_eq_mod)
      then have "(char_of (48 + n) :: char) \<noteq> CHR ''0''"
        using decimal_digit [of 0] by (simp add: digits_large_def)
      with n show ?thesis unfolding e by (simp add: is_digit_def of_char_small)
    next
      case False
      then obtain c s where "rev (number_tmp digits_large 10 (n div 10)) = c # s" "is_digit c" "c \<noteq> CHR ''0''"
        using less.IH [of "n div 10"] less.prems by auto
      then show ?thesis using less.prems by (simp add: number_tmp_step)
    qed
  qed
  with assms that show thesis by (auto simp: decimal_def)
qed

lemma flag_bit_digit: "is_digit c \<Longrightarrow> c \<noteq> CHR ''0'' \<Longrightarrow> flag_bit c = 0"
  by (auto simp: is_digit_def)

lemma conv_lu:
  "vprintk_conv (CHR ''l'' # CHR ''u'' # fmt) (ArgW n # args) = Some (decimal (unat n), fmt, args)"
  using number_unsigned [of 0 n "-1"]
  by (simp add: vprintk_conv_def parse_width_def parse_precision_def parse_qualifier_def is_digit_def
      va_uint_def conv_number_def Let_def)

lemma conv_width_lu:
  assumes "0 < w" and "int w \<le> int_max"
  shows "vprintk_conv (decimal w @ CHR ''l'' # CHR ''u'' # fmt) (ArgW n # args)
    = Some (replicate (w - length (decimal (unat n))) (CHR '' '') @ decimal (unat n), fmt, args)"
proof -
  obtain c s where c: "decimal w = c # s" "is_digit c" "c \<noteq> CHR ''0''"
    using assms(1) by (rule decimal_Cons)
  have a: "skip_atoi (decimal w @ CHR ''l'' # CHR ''u'' # fmt) = (int w, CHR ''l'' # CHR ''u'' # fmt)"
    by (rule skip_atoi_decimal) (simp add: is_digit_def)
  have f: "parse_flags 0 (decimal w @ CHR ''l'' # CHR ''u'' # fmt) = (0, decimal w @ CHR ''l'' # CHR ''u'' # fmt)"
    using c by (simp add: flag_bit_digit del: flag_bit.simps)
  have p: "parse_width 0 (decimal w @ CHR ''l'' # CHR ''u'' # fmt) as
      = Some (0, int w, CHR ''l'' # CHR ''u'' # fmt, as)" for as
    using a c assms(2) by (simp add: parse_width_def)
  show ?thesis
    using number_unsigned [of 0 n "int w"]
    by (simp add: vprintk_conv_def f p parse_precision_def parse_qualifier_def va_uint_def
        conv_number_def Let_def nat_diff_distrib' flip: int_minus of_nat_diff)
qed

lemma conv_d:
  "vprintk_conv (CHR ''d'' # fmt) (ArgW n # args)
    = Some (decimal (unat (ucast n :: u32)), fmt, args)"
proof -
  have pos: "\<not> (ucast (ucast n :: u32) :: u64) <s 0"
  proof -
    have "\<not> bit (ucast (ucast n :: u32) :: u64) 63" by (simp add: bit_simps)
    then show ?thesis by (simp add: word_sless_alt sint_0 bit_last_iff [symmetric] not_less)
  qed
  have "number (ucast (ucast n :: u32)) 10 (-1) (-1) SIGN = number (ucast (ucast n :: u32)) 10 (-1) (-1) 0"
    using pos by (simp add: number_def Let_def)
  with number_unsigned [of 0 "ucast (ucast n :: u32)" "-1"] show ?thesis
    by (simp add: vprintk_conv_def parse_width_def parse_precision_def parse_qualifier_def is_digit_def
        va_uint_def conv_number_def Let_def unat_ucast_32_64)
qed

subsection \<open>Effect on the console\<close>

lemma con_inv_fault [simp]: "con_inv (s\<lparr>fault := b\<rparr>) = con_inv s"
  by (simp add: con_inv_def con_ok_def coherent_def synced_def hist_ok_def TBUF_def)

lemma print_str_color_inv: "con_inv s \<Longrightarrow> con_inv (print_str_color str fg bg s)"
  unfolding print_str_color_def
  by (rule fold_inv [where P = con_inv]) (auto simp: print_char_color_inv)

lemma printk_inv: "con_inv (con k) \<Longrightarrow> con_inv (con (printk fmt args k))"
  by (auto simp: printk_def print_str_def print_str_color_inv split: option.splits)

lemma printk_color_inv: "con_inv (con k) \<Longrightarrow> con_inv (con (printk_color fg bg fmt args k))"
  by (auto simp: printk_color_def print_str_color_inv split: option.splits)

lemma vprintk_lu: "vprintk ''%lu'' [ArgW n] = Some (decimal (unat n))"
proof -
  have "length (decimal (unat n)) \<le> 64"
    using unat_u64_less [of n] by (intro decimal_length) simp
  then show ?thesis by (simp add: vprintk_def conv_lu)
qed

lemma print_uint64_decimal: "print_uint64_color n fg bg s = print_str_color (decimal (unat n)) fg bg s"
  by (simp add: print_uint64_color_def print_str_color_def cstr_decimal)
    (simp add: decimal_def uint64_buf_tmp unat_eq_zero)


subsection \<open>Properties\<close>

text \<open>C36: for every base from 2 to 36 the digits \<open>number\<close> writes for an unsigned value are at most
  64, the size of its buffer \<open>tmp\<close>, and read back, in that base, as the value.\<close>

theorem number_reads_back:
  assumes "2 \<le> base" and "base \<le> 36"
  shows "\<exists>str. number n (int base) (-1) (-1) 0 = Some str \<and> length str \<le> 64
    \<and> read_digits digits_large base str = unat n"
proof -
  define t where "t = (if n = 0 then ''0'' else number_tmp digits_large base (unat n))"
  have "read_digits digits_large base (rev t) = unat n"
    using assms read_number_tmp [OF digits_distinct(1) assms(1), of "unat n"] digits_distinct(3)
    by (auto simp: t_def unat_eq_zero read_digits_def digit_index_def digits_large_def)
  moreover have "length t \<le> 64"
    using number_tmp_length [OF assms(1), of "unat n" 64] unat_u64_less [of n] by (simp add: t_def)
  moreover have "number n (int base) (-1) (-1) 0 = Some (rev t)"
    using assms by (simp add: number_def Let_def pad_def t_def)
  ultimately show ?thesis by simp
qed

theorem number_reads_back_witness:
  "\<exists>str. number 255 2 (-1) (-1) 0 = Some str \<and> read_digits digits_large 2 str = 255"
  using number_reads_back [of 2 255] by auto

text \<open>C37: a conversion with a field width, \<open>%<w>lu\<close>, prints the decimal digits of its argument,
  padded on the left with blanks to \<open>w\<close> characters: the width is parsed by \<open>skip_atoi\<close>, and a value
  wider than the field is printed in full.\<close>

theorem vprintk_width_lu:
  assumes "0 < w" and "w < 1000"
  shows "vprintk (''%'' @ decimal w @ ''lu'') [ArgW n]
    = Some (replicate (w - length (decimal (unat n))) (CHR '' '') @ decimal (unat n))"
proof -
  have c: "cstr (CHR ''%'' # decimal w @ ''lu'') = CHR ''%'' # decimal w @ ''lu''"
    by (rule cstr_id) (auto dest!: decimal_digits is_digit_not_NUL)
  have "length (decimal (unat n)) \<le> 64"
    using unat_u64_less [of n] by (intro decimal_length) simp
  then show ?thesis
    using assms conv_width_lu [of w "[]" n "[]"] c by (simp add: vprintk_def int_max_def)
qed

theorem vprintk_width_lu_witness: "vprintk ''%5lu'' [ArgW 42] = Some ''   42''"
proof -
  have "decimal 5 = ''5''" "decimal 42 = ''42''"
    by (simp_all add: decimal_def number_tmp_step digits_large_def)
  with vprintk_width_lu [of 5 42] show ?thesis by (simp add: numeral_3_eq_3)
qed

text \<open>\<open>print_uint64\<close> and the formatted print \<open>printk ("%lu", n)\<close>, two separate digit loops,
  have the same effect on the console for every 64-bit value.\<close>

theorem print_uint64_is_printk_lu:
  "printk ''%lu'' [ArgW n] k = k\<lparr>con := print_uint64 n (con k)\<rparr>"
  by (simp add: printk_def vprintk_lu print_str_def print_uint64_def print_uint64_decimal)

text \<open>\<open>%d\<close> without a length modifier prints a negative \<open>int\<close> as an unsigned 32-bit number, since
  the argument is fetched as \<open>uint32_t\<close> and widened before its sign is tested.\<close>

theorem vprintk_d_of_negative:
  assumes "- (2 ^ 31) \<le> i" and "i < 0"
  shows "vprintk ''%d'' [ArgW (word_of_int i)] = Some (decimal (nat (2 ^ 32 + i)))"
proof -
  have "unat (ucast (word_of_int i :: u64) :: u32) = nat (2 ^ 32 + i)"
  proof -
    have "uint (ucast (word_of_int i :: u64) :: u32) = i mod 2 ^ 32"
      by (simp add: unsigned_ucast_eq uint_word_of_int take_bit_eq_mod mod_mod_cancel)
    also have "\<dots> = 2 ^ 32 + i"
      using assms mod_pos_pos_trivial [of "2 ^ 32 + i" "2 ^ 32"] by simp
    finally show ?thesis by (simp add: unat_eq_nat_uint)
  qed
  moreover from this have "length (decimal (nat (2 ^ 32 + i))) \<le> 64"
    by (intro decimal_length) (use assms in simp)
  ultimately show ?thesis by (simp add: vprintk_def conv_d)
qed

theorem vprintk_d_of_negative_witness: "vprintk ''%d'' [ArgW (- 1)] = Some ''4294967295''"
proof -
  have "decimal 4294967295 = ''4294967295''"
    by (simp add: decimal_def number_tmp_step digits_large_def)
  with vprintk_d_of_negative [of "-1"] show ?thesis by simp
qed

end
