(* ===== verification/Memory.thy ===== *)
theory Memory
  imports Printk
begin

text \<open>
  The memory manager (\<open>kernel/memory.c\<close>, \<open>memory.h\<close>): the BIOS memory map, the list of free
  2 MB pages and the first-fit allocator on top of it. The linked structures live in the byte
  memory, as in the code: a \<open>struct Page\<close> is a 24-byte cell (\<open>phy_addr\<close> at 0, \<open>ref_count\<close> at 8,
  \<open>next\<close> at 16), a \<open>struct malloc_header\<close> another (\<open>size\<close> at 0, \<open>next\<close> at 8, \<open>is_free\<close> at 16), and
  pointers are virtual addresses. The loops that follow \<open>next\<close> pointers are partial functions:
  \<open>None\<close> is a walk that does not end.
\<close>

abbreviation (input) NL :: string where "NL \<equiv> [CHR 0x0A]"

record e820_entry =
  e_address :: u64
  e_length :: u64
  e_type :: u32

record memory =
  ram :: ram
  free_pages_list :: u64
  total_free_pages :: u64
  kernel_heap_start :: u64
  kernel_heap_end :: u64
  malloc_head :: u64
  malloc_total_allocated :: u64
  malloc_total_freed :: u64
  e820 :: "nat \<Rightarrow> e820_entry"
  e820_length :: u64
  start_code :: u64
  end_code :: u64
  end_data :: u64
  end_brk :: u64
  pages_struct :: u64

record kmem = kcon +
  mem :: memory

abbreviation (input) PAGE_OFFSET :: u64 where "PAGE_OFFSET \<equiv> 0xffff800000000000"
abbreviation (input) PAGE_2M_SIZE :: u64 where "PAGE_2M_SIZE \<equiv> 0x200000"
abbreviation (input) SIZEOF_Page :: u64 where "SIZEOF_Page \<equiv> 24"
abbreviation (input) SIZEOF_header :: u64 where "SIZEOF_header \<equiv> 24"

definition PAGE_2M_ALIGN :: "u64 \<Rightarrow> u64" where
  "PAGE_2M_ALIGN addr = (addr + PAGE_2M_SIZE - 1) AND NOT (PAGE_2M_SIZE - 1)"

definition Phy_To_Virt :: "u64 \<Rightarrow> u64" where
  "Phy_To_Virt addr = addr + PAGE_OFFSET"

definition malloc_debug :: "string \<Rightarrow> varg list \<Rightarrow> 'a kcon_scheme \<Rightarrow> 'a kcon_scheme" where
  "malloc_debug fmt args = printk_color CYAN VGA_BLACK (''malloc: '' @ fmt) args"

definition set_ram :: "ram \<Rightarrow> 'a kmem_scheme \<Rightarrow> 'a kmem_scheme" where
  "set_ram m k = k\<lparr>mem := (mem k)\<lparr>ram := m\<rparr>\<rparr>"

abbreviation kram :: "'a kmem_scheme \<Rightarrow> ram" where "kram k \<equiv> ram (mem k)"


subsection \<open>Fields of the linked structures\<close>

definition page_phy_addr :: "ram \<Rightarrow> u64 \<Rightarrow> u64" where "page_phy_addr m p = ld64 m p"
definition page_ref_count :: "ram \<Rightarrow> u64 \<Rightarrow> u32" where "page_ref_count m p = ld32 m (p + 8)"
definition page_next :: "ram \<Rightarrow> u64 \<Rightarrow> u64" where "page_next m p = ld64 m (p + 16)"

definition set_page_phy_addr :: "u64 \<Rightarrow> u64 \<Rightarrow> ram \<Rightarrow> ram" where "set_page_phy_addr p v m = st64 m p v"
definition set_page_ref_count :: "u64 \<Rightarrow> u32 \<Rightarrow> ram \<Rightarrow> ram" where "set_page_ref_count p v m = st32 m (p + 8) v"
definition set_page_next :: "u64 \<Rightarrow> u64 \<Rightarrow> ram \<Rightarrow> ram" where "set_page_next p v m = st64 m (p + 16) v"

definition hdr_size :: "ram \<Rightarrow> u64 \<Rightarrow> u64" where "hdr_size m h = ld64 m h"
definition hdr_next :: "ram \<Rightarrow> u64 \<Rightarrow> u64" where "hdr_next m h = ld64 m (h + 8)"
definition hdr_is_free :: "ram \<Rightarrow> u64 \<Rightarrow> u32" where "hdr_is_free m h = ld32 m (h + 16)"

definition set_hdr_size :: "u64 \<Rightarrow> u64 \<Rightarrow> ram \<Rightarrow> ram" where "set_hdr_size h v m = st64 m h v"
definition set_hdr_next :: "u64 \<Rightarrow> u64 \<Rightarrow> ram \<Rightarrow> ram" where "set_hdr_next h v m = st64 m (h + 8) v"
definition set_hdr_is_free :: "u64 \<Rightarrow> u32 \<Rightarrow> ram \<Rightarrow> ram" where "set_hdr_is_free h v m = st32 m (h + 16) v"


subsection \<open>The memory map\<close>

text \<open>A packed \<open>struct E820\<close> of 20 bytes.\<close>

definition read_e820 :: "ram \<Rightarrow> u64 \<Rightarrow> e820_entry" where
  "read_e820 m p = \<lparr>e_address = ld64 m p, e_length = ld64 m (p + 8), e_type = ld32 m (p + 16)\<rparr>"

text \<open>The copying loop, with \<open>n = 32 - i\<close> rounds left at round \<open>i\<close>.\<close>

fun e820_loop :: "nat \<Rightarrow> nat \<Rightarrow> u64 \<Rightarrow> u64 \<Rightarrow> 'a kmem_scheme \<Rightarrow> u64 \<times> 'a kmem_scheme" where
  "e820_loop 0 i p TotalMem k = (TotalMem, k)"
| "e820_loop (Suc n) i p TotalMem k =
     (let e = read_e820 (kram k) p;
          k = printk_color ORANGE VGA_BLACK
                (''Address:0x%016lx'' @ [CHR 0x09] @ ''Length:0x%016lx'' @ [CHR 0x09] @ ''Type:0x%x'' @ NL)
                [ArgW (e_address e), ArgW (e_length e), ArgW (ucast (e_type e))] k;
          TotalMem = (if e_type e = 1 then TotalMem + e_length e else TotalMem);
          k = k\<lparr>mem := (mem k)\<lparr>e820 := (e820 (mem k))(i := e), e820_length := of_nat i + 1\<rparr>\<rparr>;
          p = p + 20;
          e' = read_e820 (kram k) p
      in if 4 < e_type e' \<or> e_length e' = 0 then (TotalMem, k)
         else e820_loop n (Suc i) p TotalMem k)"

definition region_start :: "e820_entry \<Rightarrow> u64" where
  "region_start e = PAGE_2M_ALIGN (e_address e)"

definition region_end :: "e820_entry \<Rightarrow> u64" where
  "region_end e = push_bit 21 (drop_bit 21 (e_address e + e_length e))"

text \<open>The sum both \<open>init_memory_map\<close> and \<open>init_page\<close> compute.\<close>

definition count_pages :: "memory \<Rightarrow> u64" where
  "count_pages g = fold (\<lambda>i total.
     let e = e820 g i in
     if e_type e \<noteq> 1 then total
     else if region_end e \<le> region_start e then total
     else total + drop_bit 21 (region_end e - region_start e)) [0..<unat (e820_length g)] 0"

definition init_memory_map :: "'a kmem_scheme \<Rightarrow> 'a kmem_scheme" where
  "init_memory_map k =
     (let k = k\<lparr>mem := (mem k)\<lparr>e820_length := 0\<rparr>\<rparr>;
          (TotalMem, k) = e820_loop 32 0 0xffff800000005000 0 k;
          k = printk_color ORANGE VGA_BLACK (''OS Can Used Total RAM: 0x%016lx = %lu MB'' @ NL)
                [ArgW TotalMem, ArgW (TotalMem div 0x100000)] k;
          TotalMem = count_pages (mem k)
      in printk_color YELLOW VGA_BLACK (''OS Can Used Total 2M PAGEs: 0x%08lx = %lu'' @ NL)
           [ArgW TotalMem, ArgW TotalMem] k)"


subsection \<open>Page descriptors\<close>

text \<open>
  The body of the innermost loop of \<open>init_page\<close>: the descriptor of the page at physical
  address \<open>j\<close> is filled in and appended to the list of free pages.
\<close>

definition add_page :: "u64 \<Rightarrow> u64 \<Rightarrow> 'a kmem_scheme \<times> u64 \<times> u64 \<Rightarrow> 'a kmem_scheme \<times> u64 \<times> u64" where
  "add_page pages j = (\<lambda>(k, page_index, current).
     let page = pages + SIZEOF_Page * page_index;
         page_index = page_index + 1;
         k = set_ram (set_page_phy_addr page j (kram k)) k;
         k = set_ram (set_page_ref_count page 0 (kram k)) k;
         k = set_ram (set_page_next page 0 (kram k)) k;
         k = (if free_pages_list (mem k) = 0 then k\<lparr>mem := (mem k)\<lparr>free_pages_list := page\<rparr>\<rparr>
              else set_ram (set_page_next current page (kram k)) k);
         k = k\<lparr>mem := (mem k)\<lparr>total_free_pages := total_free_pages (mem k) + 1\<rparr>\<rparr>
     in (k, page_index, page))"

text \<open>The pages of one region: \<open>for (j = start; j < end; j += PAGE_2M_SIZE)\<close>, both multiples of 2 MB.\<close>

definition add_region :: "u64 \<Rightarrow> e820_entry \<Rightarrow> 'a kmem_scheme \<times> u64 \<times> u64 \<Rightarrow> 'a kmem_scheme \<times> u64 \<times> u64" where
  "add_region pages e st =
     (if e_type e \<noteq> 1 then st
      else if region_end e \<le> region_start e then st
      else fold (\<lambda>n. add_page pages (region_start e + of_nat n * PAGE_2M_SIZE))
             [0..<unat (region_end e - region_start e) div 0x200000] st)"

definition find_pages_region :: "memory \<Rightarrow> u64 \<Rightarrow> nat option" where
  "find_pages_region g page_count =
     List.find (\<lambda>i. e_type (e820 g i) = 1
         \<and> page_count * SIZEOF_Page \<le> (e_address (e820 g i) + e_length (e820 g i)) - e_address (e820 g i))
       [0..<unat (e820_length g)]"

definition max_region_end :: "memory \<Rightarrow> u64" where
  "max_region_end g = fold (\<lambda>i top.
     let e = e820 g i in
     if e_type e = 1 \<and> top < e_address e + e_length e then e_address e + e_length e else top)
   [0..<unat (e820_length g)] 0"

text \<open>The heap bounds and the messages after the page list is built.\<close>

definition init_heap_range :: "'a kmem_scheme \<Rightarrow> 'a kmem_scheme" where
  "init_heap_range k =
     (let first_page = free_pages_list (mem k)
      in if first_page = 0
         then printk_color RED VGA_BLACK (''No free pages available for heap!'' @ NL) [] k
      else
        let k = k\<lparr>mem := (mem k)\<lparr>kernel_heap_start := page_phy_addr (kram k) first_page\<rparr>\<rparr>;
            heap_size = 128 * 1024 * 1024 :: u64;
            k = k\<lparr>mem := (mem k)\<lparr>kernel_heap_end := max_region_end (mem k)\<rparr>\<rparr>;
            (failed, heap_size, k) =
              (if kernel_heap_end (mem k) < heap_size then
                 let k = printk_color RED VGA_BLACK (''Error: Not enough memory for kernel heap!'' @ NL) [] k;
                     heap_size = 64 * 1024 * 1024 :: u64
                 in if kernel_heap_end (mem k) < heap_size
                    then (True, heap_size, printk_color RED VGA_BLACK (''Fatal: Still not enough memory!'' @ NL) [] k)
                    else (False, heap_size, k)
               else (False, heap_size, k))
        in if failed then k
        else
          let k = k\<lparr>mem := (mem k)\<lparr>kernel_heap_start := PAGE_2M_ALIGN (kernel_heap_start (mem k))\<rparr>\<rparr>
          in if kernel_heap_end (mem k) \<le> kernel_heap_start (mem k)
             then printk_color RED VGA_BLACK (''Error: Invalid kernel heap range!'' @ NL) [] k
          else
            let g = mem k;
                k = printk_color GREEN VGA_BLACK (''Total free 2M pages: %lu'' @ NL) [ArgW (total_free_pages g)] k;
                k = printk_color GREEN VGA_BLACK (''Kernel heap size: %lu MB'' @ NL) [ArgW (heap_size div (1024 * 1024))] k;
                k = printk_color GREEN VGA_BLACK (''Kernel heap (phys): 0x%016lx - 0x%016lx'' @ NL)
                      [ArgW (kernel_heap_start g), ArgW (kernel_heap_end g)] k;
                k = printk_color GREEN VGA_BLACK (''Kernel heap (virt): 0x%016lx - 0x%016lx'' @ NL)
                      [ArgW (Phy_To_Virt (kernel_heap_start g)), ArgW (Phy_To_Virt (kernel_heap_end g))] k
            in printk_color BLUE VGA_BLACK (''=== Page Management Initialization Complete ==='' @ NL) [] k)"

definition init_page :: "'a kmem_scheme \<Rightarrow> 'a kmem_scheme" where
  "init_page k =
     (let k = printk_color BLUE VGA_BLACK (''=== Page Management Initialization Start ==='' @ NL) [] k;
          page_count = count_pages (mem k)
      in case find_pages_region (mem k) page_count of
        None \<Rightarrow> printk_color RED VGA_BLACK (''Failed to allocate memory for page structures!'' @ NL) [] k
      | Some i \<Rightarrow>
          let pages = Phy_To_Virt (e_address (e820 (mem k) i));
              k = set_ram (memset pages 0 (unat (page_count * SIZEOF_Page)) (kram k)) k;
              k = k\<lparr>mem := (mem k)\<lparr>pages_struct := pages\<rparr>\<rparr>;
              k = malloc_debug (''Page structures allocated at 0x%016lx, size: %lu bytes'' @ NL)
                    [ArgW pages, ArgW (page_count * SIZEOF_Page)] k
          in if pages = 0
             then printk_color RED VGA_BLACK (''Failed to allocate memory for page structures!'' @ NL) [] k
          else
            let (k, _, _) = fold (\<lambda>i (k, page_index, current).
                    add_region pages (e820 (mem k) i) (k, page_index, current))
                  [0..<unat (e820_length (mem k))] (k, 0, 0)
            in init_heap_range k)"

text \<open>\<open>sc\<close>, \<open>ec\<close>, \<open>ed\<close>, \<open>eb\<close>: the linker's symbols \<open>__start_code\<close>, \<open>__end_code\<close>, \<open>__end_data\<close>, \<open>__end_brk\<close>.\<close>

definition init_memory :: "u64 \<Rightarrow> u64 \<Rightarrow> u64 \<Rightarrow> u64 \<Rightarrow> 'a kmem_scheme \<Rightarrow> 'a kmem_scheme" where
  "init_memory sc ec ed eb k =
     (let k = printk_color BLUE VGA_BLACK (''=== Memory Initialization Start ==='' @ NL) [] k;
          k = k\<lparr>mem := (mem k)\<lparr>start_code := sc, end_code := ec, end_data := ed, end_brk := eb\<rparr>\<rparr>;
          k = init_memory_map k;
          k = printk_color BLUE VGA_BLACK (''=== Memory Initialization Complete ==='' @ NL) [] k
      in init_page k)"


subsection \<open>Pages\<close>

definition alloc_page :: "'a kmem_scheme \<Rightarrow> u64 \<times> 'a kmem_scheme" where
  "alloc_page k =
     (if free_pages_list (mem k) = 0
      then (0, printk_color RED VGA_BLACK (''Out of memory! No free pages available.'' @ NL) [] k)
      else
        let page = free_pages_list (mem k);
            k = k\<lparr>mem := (mem k)\<lparr>free_pages_list := page_next (kram k) (free_pages_list (mem k))\<rparr>\<rparr>;
            k = set_ram (set_page_next page 0 (kram k)) k;
            k = set_ram (set_page_ref_count page 1 (kram k)) k;
            k = k\<lparr>mem := (mem k)\<lparr>total_free_pages := total_free_pages (mem k) - 1\<rparr>\<rparr>;
            k = (if page_phy_addr (kram k) page AND (PAGE_2M_SIZE - 1) \<noteq> 0
                 then printk_color YELLOW VGA_BLACK (''Warning: Page not 2M aligned: 0x%lx'' @ NL)
                        [ArgW (page_phy_addr (kram k) page)] k
                 else k);
            k = set_ram (memset (Phy_To_Virt (page_phy_addr (kram k) page)) 0 0x200000 (kram k)) k;
            k = malloc_debug (''Allocated 2M page at phys 0x%lx, virt 0x%lx'' @ NL)
                  [ArgW (page_phy_addr (kram k) page), ArgW (Phy_To_Virt (page_phy_addr (kram k) page))] k
        in (page, k))"

definition free_page :: "u64 \<Rightarrow> 'a kmem_scheme \<Rightarrow> 'a kmem_scheme" where
  "free_page page k =
     (if page = 0 then malloc_debug (''free_page: null pointer'' @ NL) [] k
      else
        let k = set_ram (set_page_ref_count page (page_ref_count (kram k) page - 1) (kram k)) k
        in if page_ref_count (kram k) page \<le> 0 then
             let k = set_ram (set_page_next page (free_pages_list (mem k)) (kram k)) k;
                 k = k\<lparr>mem := (mem k)\<lparr>free_pages_list := page\<rparr>\<rparr>;
                 k = k\<lparr>mem := (mem k)\<lparr>total_free_pages := total_free_pages (mem k) + 1\<rparr>\<rparr>
             in malloc_debug (''Freed 2M page at phys 0x%lx'' @ NL) [ArgW (page_phy_addr (kram k) page)] k
           else k)"


subsection \<open>The allocator\<close>

text \<open>The search loop: the pair of \<open>prev\<close> and the first block that fits, 0 when there is none.\<close>

partial_function (option) malloc_find :: "ram \<Rightarrow> u64 \<Rightarrow> u64 \<Rightarrow> u64 \<Rightarrow> (u64 \<times> u64) option" where
  "malloc_find m total_size prev current =
     (if current = 0 then Some (prev, 0)
      else if hdr_is_free m current \<noteq> 0 \<and> total_size \<le> hdr_size m current then Some (prev, current)
      else malloc_find m total_size current (hdr_next m current))"

definition malloc_take :: "u64 \<Rightarrow> u64 \<Rightarrow> u64 \<Rightarrow> 'a kmem_scheme \<Rightarrow> u64 \<times> 'a kmem_scheme" where
  "malloc_take sz total_size current k =
     (let k = (if total_size + SIZEOF_header + 8 < hdr_size (kram k) current then
                 let new_block = current + total_size;
                     k = set_ram (set_hdr_size new_block (hdr_size (kram k) current - total_size) (kram k)) k;
                     k = set_ram (set_hdr_next new_block (hdr_next (kram k) current) (kram k)) k;
                     k = set_ram (set_hdr_is_free new_block 1 (kram k)) k;
                     k = set_ram (set_hdr_size current sz (kram k)) k;
                     k = set_ram (set_hdr_next current new_block (kram k)) k
                 in malloc_debug (''Split block: %lu bytes, remaining: %lu bytes'' @ NL)
                      [ArgW sz, ArgW (hdr_size (kram k) new_block)] k
               else k);
          k = set_ram (set_hdr_is_free current 0 (kram k)) k;
          k = k\<lparr>mem := (mem k)\<lparr>malloc_total_allocated := malloc_total_allocated (mem k) + sz\<rparr>\<rparr>;
          result = current + SIZEOF_header;
          k = malloc_debug (''Allocated %lu bytes at %p'' @ NL) [ArgW sz, ArgW result] k
      in (result, k))"

definition malloc_new_page :: "u64 \<Rightarrow> u64 \<Rightarrow> u64 \<Rightarrow> 'a kmem_scheme \<Rightarrow> u64 \<times> 'a kmem_scheme" where
  "malloc_new_page sz total_size prev k =
     (let (page, k) = alloc_page k
      in if page = 0 then (0, printk_color RED VGA_BLACK (''malloc: Out of pages!'' @ NL) [] k)
      else
        let new_block = Phy_To_Virt (page_phy_addr (kram k) page);
            k = set_ram (set_hdr_size new_block (PAGE_2M_SIZE - SIZEOF_header) (kram k)) k;
            k = set_ram (set_hdr_next new_block 0 (kram k)) k;
            k = set_ram (set_hdr_is_free new_block 0 (kram k)) k;
            k = (if prev \<noteq> 0 then set_ram (set_hdr_next prev new_block (kram k)) k else k);
            k = (if total_size + SIZEOF_header + 8 < hdr_size (kram k) new_block then
                   let split_block = new_block + total_size;
                       k = set_ram (set_hdr_size split_block (hdr_size (kram k) new_block - total_size) (kram k)) k;
                       k = set_ram (set_hdr_next split_block 0 (kram k)) k;
                       k = set_ram (set_hdr_is_free split_block 1 (kram k)) k;
                       k = set_ram (set_hdr_size new_block sz (kram k)) k;
                       k = set_ram (set_hdr_next new_block split_block (kram k)) k
                   in malloc_debug (''Split new page: %lu bytes, remaining: %lu bytes'' @ NL)
                        [ArgW sz, ArgW (hdr_size (kram k) split_block)] k
                 else k);
            k = k\<lparr>mem := (mem k)\<lparr>malloc_total_allocated := malloc_total_allocated (mem k) + sz\<rparr>\<rparr>;
            result = new_block + SIZEOF_header;
            k = malloc_debug (''Allocated %lu bytes at %p (new page)'' @ NL) [ArgW sz, ArgW result] k
        in (result, k))"

text \<open>The first page of the heap, taken when the list of blocks is still empty.\<close>

definition malloc_first_page :: "'a kmem_scheme \<Rightarrow> bool \<times> 'a kmem_scheme" where
  "malloc_first_page k =
     (if malloc_head (mem k) \<noteq> 0 then (True, k)
      else
        let (page, k) = alloc_page k
        in if page = 0 then (False, printk_color RED VGA_BLACK (''malloc: Failed to allocate first page'' @ NL) [] k)
        else
          let k = k\<lparr>mem := (mem k)\<lparr>malloc_head := Phy_To_Virt (page_phy_addr (kram k) page)\<rparr>\<rparr>;
              h = malloc_head (mem k);
              k = set_ram (set_hdr_size h (PAGE_2M_SIZE - SIZEOF_header) (kram k)) k;
              k = set_ram (set_hdr_next h 0 (kram k)) k;
              k = set_ram (set_hdr_is_free h 1 (kram k)) k
          in (True, malloc_debug (''Initialized heap with first page at %p'' @ NL) [ArgW h] k))"

definition malloc :: "u64 \<Rightarrow> 'a kmem_scheme \<Rightarrow> (u64 \<times> 'a kmem_scheme) option" where
  "malloc sz k =
     (if sz = 0 then Some (0, malloc_debug (''zero size request'' @ NL) [] k)
      else
        let max_allowed = PAGE_2M_SIZE - SIZEOF_header - 128
        in if max_allowed < sz
           then Some (0, printk_color RED VGA_BLACK (''malloc: Request too large: %lu bytes (max: %lu)'' @ NL)
                  [ArgW sz, ArgW max_allowed] k)
        else
          let sz = (sz + 7) AND NOT 7;
              total_size = sz + SIZEOF_header;
              (ok, k) = malloc_first_page k
          in if \<not> ok then Some (0, k)
             else case malloc_find (kram k) total_size 0 (malloc_head (mem k)) of
                 None \<Rightarrow> None
               | Some (prev, current) \<Rightarrow>
                   Some (if current \<noteq> 0 then malloc_take sz total_size current k
                         else malloc_new_page sz total_size prev k))"

text \<open>The coalescing loop of \<open>free\<close>.\<close>

partial_function (option) free_merge :: "u64 \<Rightarrow> 'a kmem_scheme \<Rightarrow> 'a kmem_scheme option" where
  "free_merge current k =
     (if current = 0 \<or> hdr_next (kram k) current = 0 then Some k
      else if hdr_is_free (kram k) current \<noteq> 0 \<and> hdr_is_free (kram k) (hdr_next (kram k) current) \<noteq> 0 then
        let merged_size = hdr_size (kram k) current + SIZEOF_header
                            + hdr_size (kram k) (hdr_next (kram k) current);
            k = malloc_debug (''Merging blocks: %lu + %lu = %lu bytes'' @ NL)
                  [ArgW (hdr_size (kram k) current),
                   ArgW (hdr_size (kram k) (hdr_next (kram k) current)), ArgW merged_size] k;
            k = set_ram (set_hdr_size current merged_size (kram k)) k;
            k = set_ram (set_hdr_next current (hdr_next (kram k) (hdr_next (kram k) current)) (kram k)) k
        in free_merge current k
      else free_merge (hdr_next (kram k) current) k)"

definition free :: "u64 \<Rightarrow> 'a kmem_scheme \<Rightarrow> 'a kmem_scheme option" where
  "free ptr k =
     (if ptr = 0 then Some (malloc_debug (''null pointer'' @ NL) [] k)
      else
        let addr = ptr;
            heap_virt_start = Phy_To_Virt (kernel_heap_start (mem k));
            heap_virt_end = Phy_To_Virt (kernel_heap_end (mem k));
            k = malloc_debug (''Checking pointer %p'' @ NL) [ArgW ptr] k;
            k = malloc_debug (''Heap virt range: 0x%016lx - 0x%016lx'' @ NL)
                  [ArgW heap_virt_start, ArgW heap_virt_end] k;
            k = malloc_debug (''Pointer addr: 0x%016lx'' @ NL) [ArgW addr] k;
            k = malloc_debug (''Kernel heap phys: 0x%016lx - 0x%016lx'' @ NL)
                  [ArgW (kernel_heap_start (mem k)), ArgW (kernel_heap_end (mem k))] k
        in if addr < heap_virt_start \<or> heap_virt_end \<le> addr then
             let k = printk_color RED VGA_BLACK (''free: Invalid pointer %p'' @ NL) [ArgW ptr] k;
                 k = printk_color RED VGA_BLACK (''  Pointer: 0x%016lx'' @ NL) [ArgW addr] k;
                 k = printk_color RED VGA_BLACK (''  Heap virt: 0x%016lx - 0x%016lx'' @ NL)
                       [ArgW heap_virt_start, ArgW heap_virt_end] k;
                 k = printk_color RED VGA_BLACK (''  Diff to start: %ld'' @ NL) [ArgW (addr - heap_virt_start)] k
             in Some k
           else
             let header = ptr - SIZEOF_header
             in if PAGE_2M_SIZE < hdr_size (kram k) header
                then Some (printk_color RED VGA_BLACK (''free: Invalid header at %p'' @ NL) [ArgW header] k)
                else
                  let k = set_ram (set_hdr_is_free header 1 (kram k)) k;
                      k = k\<lparr>mem := (mem k)\<lparr>malloc_total_freed :=
                            malloc_total_freed (mem k) + hdr_size (kram k) header\<rparr>\<rparr>
                  in case free_merge (malloc_head (mem k)) k of
                      None \<Rightarrow> None
                    | Some k \<Rightarrow>
                        let k = malloc_debug (''Freed memory at %p, size: %lu bytes'' @ NL)
                                  [ArgW ptr, ArgW (hdr_size (kram k) header)] k
                        in Some (malloc_debug (''Stats: allocated=%lu, freed=%lu'' @ NL)
                             [ArgW (malloc_total_allocated (mem k)), ArgW (malloc_total_freed (mem k))] k))"


subsection \<open>The fields as cells\<close>

interpretation hdr_size: cell_field hdr_size set_hdr_size 0 8
  using cell_field_64 [of 0] by (simp add: hdr_size_def [abs_def] set_hdr_size_def [abs_def])
interpretation hdr_next: cell_field hdr_next set_hdr_next 8 8
  using cell_field_64 [of 8] by (simp add: hdr_next_def [abs_def] set_hdr_next_def [abs_def])
interpretation hdr_free: cell_field hdr_is_free set_hdr_is_free 16 4
  using cell_field_32 [of 16] by (simp add: hdr_is_free_def [abs_def] set_hdr_is_free_def [abs_def])
interpretation hdr_size_next: cell_fields hdr_size set_hdr_size 0 8 hdr_next set_hdr_next 8 8
  by unfold_locales simp
interpretation hdr_size_free: cell_fields hdr_size set_hdr_size 0 8 hdr_is_free set_hdr_is_free 16 4
  by unfold_locales simp
interpretation hdr_next_free: cell_fields hdr_next set_hdr_next 8 8 hdr_is_free set_hdr_is_free 16 4
  by unfold_locales simp
interpretation page_phy: cell_field page_phy_addr set_page_phy_addr 0 8
  using cell_field_64 [of 0] by (simp add: page_phy_addr_def [abs_def] set_page_phy_addr_def [abs_def])
interpretation page_ref: cell_field page_ref_count set_page_ref_count 8 4
  using cell_field_32 [of 8] by (simp add: page_ref_count_def [abs_def] set_page_ref_count_def [abs_def])
interpretation page_next: cell_field page_next set_page_next 16 8
  using cell_field_64 [of 16] by (simp add: page_next_def [abs_def] set_page_next_def [abs_def])
interpretation page_phy_ref: cell_fields page_phy_addr set_page_phy_addr 0 8 page_ref_count set_page_ref_count 8 4
  by unfold_locales simp
interpretation page_phy_next: cell_fields page_phy_addr set_page_phy_addr 0 8 page_next set_page_next 16 8
  by unfold_locales simp
interpretation page_ref_next: cell_fields page_ref_count set_page_ref_count 8 4 page_next set_page_next 16 8
  by unfold_locales simp

lemmas cell_simps [simp] =
  hdr_size.get_put hdr_next.get_put hdr_free.get_put
  hdr_size_next.get_put_other hdr_size_next.get_put_other'
  hdr_size_free.get_put_other hdr_size_free.get_put_other'
  hdr_next_free.get_put_other hdr_next_free.get_put_other'
  page_phy.get_put page_ref.get_put page_next.get_put
  page_phy_ref.get_put_other page_phy_ref.get_put_other'
  page_phy_next.get_put_other page_phy_next.get_put_other'
  page_ref_next.get_put_other page_ref_next.get_put_other'


subsection \<open>The self test\<close>

definition free_if :: "u64 \<Rightarrow> 'a kmem_scheme \<Rightarrow> 'a kmem_scheme option" where
  "free_if p k = (if p \<noteq> 0 then free p k else Some k)"

definition memory_test :: "'a kmem_scheme \<Rightarrow> 'a kmem_scheme option" where
  "memory_test k = do {
     let k = printk_color GREEN VGA_BLACK (''=== Memory Allocation Test Start ==='' @ NL) [] k;
     (ptr1, k) \<leftarrow> malloc 512 k;
     (ptr2, k) \<leftarrow> malloc 1024 k;
     (ptr3, k) \<leftarrow> malloc 2048 k;
     let k = (if ptr1 \<noteq> 0 \<and> ptr2 \<noteq> 0 \<and> ptr3 \<noteq> 0 then
                let k = printk_color CYAN VGA_BLACK (''Test 1: Multiple allocations:'' @ NL) [] k;
                    k = printk_color CYAN VGA_BLACK (''  malloc(512)  = %p'' @ NL) [ArgW ptr1] k;
                    k = printk_color CYAN VGA_BLACK (''  malloc(1024) = %p'' @ NL) [ArgW ptr2] k;
                    k = printk_color CYAN VGA_BLACK (''  malloc(2048) = %p'' @ NL) [ArgW ptr3] k;
                    k = set_ram (memset ptr1 0xBB 512 (kram k)) k;
                    k = set_ram (memset ptr2 0xCC 1024 (kram k)) k;
                    k = set_ram (memset ptr3 0xDD 2048 (kram k)) k
                in printk_color CYAN VGA_BLACK (''  Memory filled with different patterns'' @ NL) [] k
              else printk_color RED VGA_BLACK (''Test 1: Multiple allocations failed!'' @ NL) [] k);
     (ptr4, k) \<leftarrow> malloc (1024 * 1024) k;
     let k = (if ptr4 \<noteq> 0 then
                let k = printk_color CYAN VGA_BLACK (''Test 2: malloc(1MB) = %p'' @ NL) [ArgW ptr4] k;
                    k = set_ram (memset ptr4 0x55 (1024 * 1024) (kram k)) k
                in printk_color CYAN VGA_BLACK (''  1MB memory filled'' @ NL) [] k
              else printk_color RED VGA_BLACK (''Test 2: malloc(1MB) failed!'' @ NL) [] k);
     let k = (if ptr2 \<noteq> 0 then
                let k = set_ram (store_bytes (kram k) ptr2 (map of_char (''TEST'' @ [NUL]))) k
                in printk_color CYAN VGA_BLACK (''Test 3: Write/read test: '' @ [CHR 0x27] @ ''%s'' @ [CHR 0x27] @ NL)
                     [ArgS (Some (map (\<lambda>b. char_of (unat b)) (load_bytes (kram k) ptr2 1024)))] k
              else k);
     k \<leftarrow> free_if ptr1 k;
     k \<leftarrow> free_if ptr2 k;
     k \<leftarrow> free_if ptr3 k;
     k \<leftarrow> free_if ptr4 k;
     Some (printk_color CYAN VGA_BLACK (''  All memory freed'' @ NL) [] k)
   }"

end
