(* ===== verification/Blocks.thy ===== *)
theory Blocks
  imports Memory
begin

text \<open>
  The lists of the allocator of \<open>kernel/memory.c\<close> and what they stand for: the header list in memory
  as a tiling of blocks, the page list, the abstract first-fit allocator on lists of blocks, and the
  invariant of the heap. The search, the split, the growth by a page and the coalescing of the code
  are shown as operations on these lists.
\<close>

subsection \<open>Blocks in memory\<close>

text \<open>
  A block is its payload size and whether it is free. \<open>hseg m a bs q\<close>: from address \<open>a\<close> the
  memory holds the headers of the blocks \<open>bs\<close>, each directly after the payload of the one
  before, linked in this order, the last one to \<open>q\<close>.
\<close>

type_synonym blocks = "(nat \<times> bool) list"

fun hlen :: "blocks \<Rightarrow> nat" where
  "hlen [] = 0"
| "hlen ((s, f) # bs) = 24 + s + hlen bs"

definition hptr :: "nat \<Rightarrow> blocks \<Rightarrow> u64 \<Rightarrow> u64" where
  "hptr a bs q = (if bs = [] then q else of_nat a)"

fun hseg :: "ram \<Rightarrow> nat \<Rightarrow> blocks \<Rightarrow> u64 \<Rightarrow> bool" where
  "hseg m a [] q \<longleftrightarrow> True"
| "hseg m a ((s, f) # bs) q \<longleftrightarrow>
     hdr_size m (of_nat a) = of_nat s \<and> (hdr_is_free m (of_nat a) \<noteq> 0 \<longleftrightarrow> f)
     \<and> hdr_next m (of_nat a) = hptr (a + 24 + s) bs q \<and> hseg m (a + 24 + s) bs q"

text \<open>The bytes of the headers, and of the payloads in use.\<close>

fun headers :: "nat \<Rightarrow> blocks \<Rightarrow> u64 set" where
  "headers a [] = {}"
| "headers a ((s, f) # bs) = span (of_nat a) 24 \<union> headers (a + 24 + s) bs"

fun live :: "nat \<Rightarrow> blocks \<Rightarrow> (nat \<times> nat) set" where
  "live a [] = {}"
| "live a ((s, f) # bs) = (if f then {} else {(a + 24, s)}) \<union> live (a + 24 + s) bs"

lemma hlen_append [simp]: "hlen (xs @ ys) = hlen xs + hlen ys"
  by (induction xs) auto

lemma hseg_append:
  "hseg m a (xs @ ys) q \<longleftrightarrow> hseg m a xs (hptr (a + hlen xs) ys q) \<and> hseg m (a + hlen xs) ys q"
proof (induction xs arbitrary: a)
  case (Cons b xs)
  obtain s f where b: "b = (s, f)" by fastforce
  have "hptr a' (xs @ ys) q = hptr a' xs (hptr (a' + hlen xs) ys q)" for a'
    by (cases xs) (auto simp: hptr_def)
  with Cons show ?case by (simp add: b add.assoc)
qed simp

lemma headers_append [simp]: "headers a (xs @ ys) = headers a xs \<union> headers (a + hlen xs) ys"
  by (induction a xs rule: headers.induct) (auto simp: add.assoc)

lemma live_append [simp]: "live a (xs @ ys) = live a xs \<union> live (a + hlen xs) ys"
  by (induction a xs rule: live.induct) (auto simp: add.assoc)

lemma span_apart:
  assumes "a + n \<le> b" and "b + k \<le> 2 ^ 64"
  shows "span (of_nat a) n \<inter> span (of_nat b) k = {}"
proof -
  have False if "i < n" "j < k" "of_nat a + of_nat i = of_nat b + (of_nat j :: u64)" for i j
  proof -
    have "(of_nat (a + i) :: u64) = of_nat (b + j)" using that(3) by simp
    then have "unat (of_nat (a + i) :: u64) = unat (of_nat (b + j) :: u64)" by (rule arg_cong)
    moreover have "a + i < 2 ^ LENGTH(64)" and "b + j < 2 ^ LENGTH(64)"
      using assms that(1,2) by simp_all
    ultimately have "a + i = b + j" by (simp only: unat_of_nat mod_less)
    with assms that(1,2) show False by simp
  qed
  then show ?thesis by (auto simp: span_def)
qed

lemma headers_within:
  assumes "a + hlen bs \<le> 2 ^ 64"
  shows "headers a bs \<subseteq> span (of_nat a) (hlen bs)"
  using assms
proof (induction a bs rule: headers.induct)
  case (2 a s f bs)
  have "span (of_nat a :: u64) 24 \<subseteq> span (of_nat a) (hlen ((s, f) # bs))"
    by (rule span_mono) simp
  moreover have "span (of_nat (a + 24 + s) :: u64) (hlen bs) \<subseteq> span (of_nat a) (hlen ((s, f) # bs))"
    using span_offset [of "24 + s" "hlen bs" "hlen ((s, f) # bs)" "of_nat a"] by (simp add: add.assoc)
  ultimately show ?case using 2 by fastforce
qed simp

lemma hseg_agree:
  "hseg m a bs q \<Longrightarrow> (\<And>x. x \<in> headers a bs \<Longrightarrow> m' x = m x) \<Longrightarrow> hseg m' a bs q"
proof (induction m a bs q rule: hseg.induct)
  case (2 m a s f bs q)
  have c: "x \<in> span (of_nat a) 24 \<Longrightarrow> m' x = m x" for x using "2.prems" by simp
  have "hdr_size m' (of_nat a) = hdr_size m (of_nat a)" by (rule hdr_size.get_agree) (rule c)
  moreover have "hdr_next m' (of_nat a) = hdr_next m (of_nat a)" by (rule hdr_next.get_agree) (rule c)
  moreover have "hdr_is_free m' (of_nat a) = hdr_is_free m (of_nat a)" by (rule hdr_free.get_agree) (rule c)
  ultimately show ?case using 2 by simp
qed simp

text \<open>The header after a prefix is none of the prefix, and none of the rest.\<close>

lemma header_apart:
  assumes "a + hlen xs + 24 \<le> 2 ^ 64" and "x \<in> span (of_nat (a + hlen xs)) 24"
  shows "x \<notin> headers a xs"
  using headers_within [of a xs] span_apart [of a "hlen xs" "a + hlen xs" 24] assms by auto

lemma header_apart_rest:
  assumes "a + 24 + s + hlen ys \<le> 2 ^ 64" and "x \<in> span (of_nat a) 24"
  shows "x \<notin> headers (a + 24 + s) ys"
  using headers_within [of "a + 24 + s" ys] span_apart [of a 24 "a + 24 + s" "hlen ys"] assms by auto

text \<open>Replacing the block after a prefix: only that header is written.\<close>

lemma hseg_replace:
  assumes seg: "hseg m a (xs @ (s, f) # ys) q"
    and len: "a + hlen (xs @ (s, f) # ys) \<le> 2 ^ 64"
    and frame: "\<And>x. x \<notin> span (of_nat (a + hlen xs)) 24 \<union> W \<Longrightarrow> m' x = m x"
    and W: "W \<inter> headers a xs = {}" "W \<inter> headers (a + hlen xs + 24 + s) ys = {}"
    and mid: "hseg m' (a + hlen xs) bs (hptr (a + hlen xs + 24 + s) ys q)"
    and same: "hlen bs = 24 + s" "bs \<noteq> []"
  shows "hseg m' a (xs @ bs @ ys) q"
proof -
  let ?c = "a + hlen xs"
  have p: "hptr ?c (bs @ ys) q = of_nat ?c" "hptr ?c ((s, f) # ys) q = of_nat ?c"
    using same(2) by (simp_all add: hptr_def)
  have pre: "hseg m a xs (of_nat ?c)" and rest: "hseg m (?c + 24 + s) ys q"
    using seg unfolding hseg_append p by simp_all
  have "hseg m' a xs (of_nat ?c)"
    using pre by (rule hseg_agree) (use len W(1) header_apart [of a xs] in \<open>auto intro!: frame\<close>)
  moreover have "hseg m' (?c + 24 + s) ys q"
    using rest by (rule hseg_agree)
      (use len W(2) header_apart_rest [of ?c s ys] in \<open>auto intro!: frame simp: add.assoc\<close>)
  ultimately show ?thesis
    using mid same(1) unfolding hseg_append p by (simp add: add.assoc)
qed


subsection \<open>The abstract allocator\<close>

definition fits :: "nat \<Rightarrow> nat \<times> bool \<Rightarrow> bool" where
  "fits need b \<longleftrightarrow> snd b \<and> need \<le> fst b"

text \<open>The block that a fitting block becomes: split when the rest has room for a header and 8 bytes.\<close>

definition carve :: "nat \<Rightarrow> nat \<Rightarrow> blocks" where
  "carve n s = (if n + 24 + 24 + 8 < s then [(n, False), (s - (n + 24), True)] else [(s, False)])"

text \<open>First fit in a list of blocks: the offset of the block taken, and the blocks after.\<close>

fun take_first :: "nat \<Rightarrow> blocks \<Rightarrow> (nat \<times> blocks) option" where
  "take_first n [] = None"
| "take_first n ((s, f) # bs) =
     (if fits (n + 24) (s, f) then Some (0, carve n s @ bs)
      else map_option (\<lambda>(o', bs'). (24 + s + o', (s, f) # bs')) (take_first n bs))"

fun merge :: "blocks \<Rightarrow> blocks" where
  "merge [] = []"
| "merge [b] = [b]"
| "merge ((s, f) # (t, g) # bs) =
     (if f \<and> g then merge ((s + 24 + t, True) # bs) else (s, f) # merge ((t, g) # bs))"

lemma hlen_carve: "hlen (carve n s) = 24 + s"
  by (auto simp: carve_def)

lemma take_first_split:
  assumes "take_first n bs = Some (off, bs')"
  obtains xs s ys where "bs = xs @ (s, True) # ys" and "off = hlen xs" and "bs' = xs @ carve n s @ ys"
    and "n + 24 \<le> s" and "\<forall>b\<in>set xs. \<not> fits (n + 24) b"
proof -
  have "\<exists>xs s ys. bs = xs @ (s, True) # ys \<and> off = hlen xs \<and> bs' = xs @ carve n s @ ys
    \<and> n + 24 \<le> s \<and> (\<forall>b\<in>set xs. \<not> fits (n + 24) b)"
    using assms
  proof (induction n bs arbitrary: off bs' rule: take_first.induct)
    case (2 n s f bs)
    show ?case
    proof (cases "fits (n + 24) (s, f)")
      case True
      with "2.prems" show ?thesis by (intro exI [of _ "[]"]) (auto simp: fits_def)
    next
      case False
      then obtain o1 b1 where "take_first n bs = Some (o1, b1)" "off = 24 + s + o1" "bs' = (s, f) # b1"
        using "2.prems" by auto
      with "2.IH" [OF False] obtain xs t ys where "bs = xs @ (t, True) # ys" "o1 = hlen xs"
          "b1 = xs @ carve n t @ ys" "n + 24 \<le> t" "\<forall>b\<in>set xs. \<not> fits (n + 24) b" by blast
      with False \<open>off = _\<close> \<open>bs' = _\<close> show ?thesis
        by (intro exI [of _ "(s, f) # xs"]) auto
    qed
  qed simp
  with that show thesis by blast
qed

lemma take_first_None: "take_first n bs = None \<longleftrightarrow> (\<forall>b\<in>set bs. \<not> fits (n + 24) b)"
  by (induction n bs rule: take_first.induct) auto

lemma hlen_merge [simp]: "hlen (merge bs) = hlen bs"
  by (induction bs rule: merge.induct) auto

lemma live_merge [simp]: "live a (merge bs) = live a bs"
  by (induction bs arbitrary: a rule: merge.induct) (auto simp: add.assoc)

fun coalesced :: "blocks \<Rightarrow> bool" where
  "coalesced ((s, f) # (t, g) # bs) \<longleftrightarrow> \<not> (f \<and> g) \<and> coalesced ((t, g) # bs)"
| "coalesced _ \<longleftrightarrow> True"

lemma merge_Cons: "\<exists>t bs'. merge ((s, f) # bs) = (t, f) # bs'"
  by (induction "(s, f) # bs" arbitrary: s f bs rule: merge.induct) auto

lemma coalesced_merge: "coalesced (merge bs)"
proof (induction bs rule: merge.induct)
  case (3 s f t g bs)
  then show ?case using merge_Cons [of t g bs] by auto
qed auto

lemmas cell_apart =
  hdr_size.get_put_apart hdr_next.get_put_apart hdr_free.get_put_apart
  hdr_size_next.get_apart hdr_size_next.get_apart' hdr_size_free.get_apart hdr_size_free.get_apart'
  hdr_next_free.get_apart hdr_next_free.get_apart'
  page_phy.get_put_apart page_ref.get_put_apart page_next.get_put_apart
  page_phy_ref.get_apart page_phy_ref.get_apart' page_phy_next.get_apart page_phy_next.get_apart'
  page_ref_next.get_apart page_ref_next.get_apart'

lemma hptr_Nil [simp]: "hptr a [] q = q"
  by (simp add: hptr_def)

lemmas hdr_outside = hdr_size.put_outside hdr_next.put_outside hdr_free.put_outside
lemmas page_outside = page_phy.put_outside page_ref.put_outside page_next.put_outside


subsection \<open>Natural numbers as words\<close>

lemma unat_of_nat64: "n < 2 ^ 64 \<Longrightarrow> unat (of_nat n :: u64) = n"
  by (simp add: unat_of_nat)

lemma of_nat64_le: "x < 2 ^ 64 \<Longrightarrow> y < 2 ^ 64 \<Longrightarrow> (of_nat x :: u64) \<le> of_nat y \<longleftrightarrow> x \<le> y"
  by (simp only: word_le_nat_alt unat_of_nat64)

lemma of_nat64_less: "x < 2 ^ 64 \<Longrightarrow> y < 2 ^ 64 \<Longrightarrow> (of_nat x :: u64) < of_nat y \<longleftrightarrow> x < y"
  by (simp only: word_less_nat_alt unat_of_nat64)

lemma of_nat64_eq_0: "x < 2 ^ 64 \<Longrightarrow> (of_nat x :: u64) = 0 \<longleftrightarrow> x = 0"
  using unat_of_nat64 [of x] by auto

lemma of_nat64_minus: "y \<le> x \<Longrightarrow> (of_nat (x - y) :: u64) = of_nat x - of_nat y"
  by (rule of_nat_diff)


subsection \<open>The parts of \<open>malloc\<close> on the block list\<close>

lemma kmem_frames [simp]:
  "mem (printk fmt args k) = mem k" "mem (printk_color fg bg fmt args k) = mem k"
  "mem (malloc_debug fmt args k) = mem k" "mem (set_ram m k) = (mem k)\<lparr>ram := m\<rparr>"
  by (simp_all add: printk_def printk_color_def malloc_debug_def set_ram_def split: option.splits)

lemma malloc_find_list:
  assumes "hseg m a bs 0" and "0 < a" and "a + hlen bs \<le> 2 ^ 64" and "n \<le> 2 ^ 21"
  shows "\<exists>prev'. malloc_find m (of_nat (n + 24)) prev (hptr a bs 0) = Some (case take_first n bs of
      None \<Rightarrow> (if bs = [] then prev else of_nat (a + hlen (butlast bs)), 0)
    | Some (off, _) \<Rightarrow> (prev', of_nat (a + off)))"
  using assms
proof (induction n bs arbitrary: a prev rule: take_first.induct)
  case (1 n)
  then show ?case by (simp add: hptr_def malloc_find.simps)
next
  case (2 n s f bs)
  have c0: "(of_nat a :: u64) \<noteq> 0"
    using of_nat64_eq_0 [of a] "2.prems" by simp
  have seg: "hdr_size m (of_nat a) = of_nat s" "hdr_is_free m (of_nat a) \<noteq> 0 \<longleftrightarrow> f"
      "hdr_next m (of_nat a) = hptr (a + 24 + s) bs 0" "hseg m (a + 24 + s) bs 0"
    using "2.prems"(1) by simp_all
  have le: "of_nat (n + 24) \<le> (of_nat s :: u64) \<longleftrightarrow> n + 24 \<le> s"
    by (rule of_nat64_le) (use "2.prems" in auto)
  show ?case
  proof (cases "fits (n + 24) (s, f)")
    case True
    then have "malloc_find m (of_nat (n + 24)) prev (of_nat a) = Some (prev, of_nat a)"
      using c0 seg le by (subst malloc_find.simps) (simp add: fits_def)
    with True show ?thesis by (simp add: hptr_def)
  next
    case False
    then have step: "malloc_find m (of_nat (n + 24)) prev (of_nat a)
        = malloc_find m (of_nat (n + 24)) (of_nat a) (hptr (a + 24 + s) bs 0)"
      using c0 seg le by (subst malloc_find.simps) (auto simp: fits_def)
    obtain prev' where "malloc_find m (of_nat (n + 24)) (of_nat a) (hptr (a + 24 + s) bs 0)
      = Some (case take_first n bs of
          None \<Rightarrow> (if bs = [] then of_nat a else of_nat (a + 24 + s + hlen (butlast bs)), 0)
        | Some (off, _) \<Rightarrow> (prev', of_nat (a + 24 + s + off)))"
      using "2.IH" [OF False seg(4)] "2.prems" by (auto simp: add.assoc)
    with False step show ?thesis
      by (intro exI [of _ prev'])
        (auto simp: hptr_def add.assoc simp del: of_nat_add split: option.splits)
  qed
qed

text \<open>The splitting step on the byte memory and on the list.\<close>

definition split_ram :: "u64 \<Rightarrow> u64 \<Rightarrow> u64 \<Rightarrow> ram \<Rightarrow> ram" where
  "split_ram sz total_size c m =
     (if total_size + 24 + 8 < hdr_size m c
      then set_hdr_next c (c + total_size) (set_hdr_size c sz (set_hdr_is_free (c + total_size) 1
        (let m2 = set_hdr_size (c + total_size) (hdr_size m c - total_size) m
         in set_hdr_next (c + total_size) (hdr_next m2 c) m2)))
      else m)"

definition split_block :: "nat \<Rightarrow> nat \<Rightarrow> bool \<Rightarrow> blocks" where
  "split_block n s f = (if n + 24 + 24 + 8 < s then [(n, f), (s - (n + 24), True)] else [(s, f)])"

lemma carve_split: "carve n s = split_block n s False"
  by (simp add: carve_def split_block_def)

lemma hlen_split: "hlen (split_block n s f) = 24 + s"
  by (auto simp: split_block_def)

lemma split_nonempty: "split_block n s f \<noteq> []"
  by (simp add: split_block_def)

lemma malloc_take_effect:
  "fst (malloc_take sz tot c k) = c + 24"
  "mem (snd (malloc_take sz tot c k)) = (mem k)\<lparr>ram := set_hdr_is_free c 0 (split_ram sz tot c (kram k)),
     malloc_total_allocated := malloc_total_allocated (mem k) + sz\<rparr>"
  by (simp_all add: malloc_take_def split_ram_def Let_def)

lemma split_ram_frame:
  "x \<notin> span c 24 \<union> span (c + tot) 24 \<Longrightarrow> split_ram sz tot c m x = m x"
  by (simp add: split_ram_def Let_def hdr_outside)

lemma split_ram_list:
  assumes seg: "hseg m a (xs @ (s, f) # ys) q" and "n + 24 \<le> s"
    and len: "a + hlen (xs @ (s, f) # ys) \<le> 2 ^ 64" and "n \<le> 2 ^ 21"
  shows "hseg (split_ram (of_nat n) (of_nat (n + 24)) (of_nat (a + hlen xs)) m) a
    (xs @ split_block n s f @ ys) q"
proof -
  let ?c = "a + hlen xs" and ?d = "a + hlen xs + 24 + n"
  let ?m = "split_ram (of_nat n) (of_nat (n + 24)) (of_nat ?c) m"
  have d: "of_nat ?c + (of_nat (n + 24) :: u64) = of_nat ?d" by simp
  have hd: "hdr_size m (of_nat ?c) = of_nat s" "hdr_is_free m (of_nat ?c) \<noteq> 0 \<longleftrightarrow> f"
      "hdr_next m (of_nat ?c) = hptr (?c + 24 + s) ys q"
    using seg by (simp_all add: hseg_append)
  have cond: "of_nat (n + 24) + 32 < (of_nat s :: u64) \<longleftrightarrow> n + 24 + 24 + 8 < s"
    using of_nat64_less [of "n + 24 + 32" s] assms(2,4) len by (simp add: add.commute)
  show ?thesis
  proof (cases "n + 24 + 24 + 8 < s")
    case True
    have ap: "span (of_nat ?c) 24 \<inter> span (of_nat ?d :: u64) 24 = {}"
      using span_apart [of ?c 24 ?d 24] len True by simp
    then have ap': "span (of_nat ?d) 24 \<inter> span (of_nat ?c :: u64) 24 = {}" by blast
    have W1: "span (of_nat ?d) 24 \<inter> headers a xs = {}"
      using headers_within [of a xs] span_apart [of a "hlen xs" ?d 24] len True by fastforce
    have W2: "span (of_nat ?d) 24 \<inter> headers (?c + 24 + s) ys = {}"
      using headers_within [of "?c + 24 + s" ys] span_apart [of ?d 24 "?c + 24 + s" "hlen ys"] len True
      by fastforce
    have e: "?d + 24 + (s - (n + 24)) = ?c + 24 + s" using True by simp
    have sz: "of_nat s - (24 + of_nat n) = (of_nat (s - (n + 24)) :: u64)"
      using True by (simp add: of_nat_diff add.commute)
    have mid: "hseg ?m ?c (split_block n s f) (hptr (?c + 24 + s) ys q)"
      using True cond hd
      by (simp add: split_block_def e split_ram_def Let_def d cell_apart ap ap' sz del: of_nat_add)
        (simp add: hptr_def)
    have "?m x = m x" if "x \<notin> span (of_nat ?c) 24 \<union> span (of_nat ?d) 24" for x
      by (rule split_ram_frame) (use that in \<open>simp only: d not_False_eq_True\<close>)
    from hseg_replace [OF seg len this W1 W2 mid hlen_split split_nonempty] show ?thesis .
  next
    case False
    then show ?thesis using seg cond hd by (simp add: split_ram_def split_block_def)
  qed
qed

text \<open>Marking a block used or free.\<close>

lemma set_free_list:
  assumes seg: "hseg m a (xs @ (s, f) # ys) q" and len: "a + hlen (xs @ (s, f) # ys) \<le> 2 ^ 64"
  shows "hseg (set_hdr_is_free (of_nat (a + hlen xs)) v m) a (xs @ (s, v \<noteq> 0) # ys) q"
proof -
  let ?c = "a + hlen xs"
  let ?m = "set_hdr_is_free (of_nat ?c) v m"
  have mid: "hseg ?m ?c [(s, v \<noteq> 0)] (hptr (?c + 24 + s) ys q)"
    using seg by (simp add: hseg_append)
  have "?m x = m x" if "x \<notin> span (of_nat ?c) 24 \<union> {}" for x
    using that by (simp add: hdr_outside)
  from hseg_replace [OF seg len this _ _ mid] show ?thesis by auto
qed

lemma set_used_split:
  assumes "hseg m a (xs @ split_block n s f @ ys) q" and "a + hlen (xs @ split_block n s f @ ys) \<le> 2 ^ 64"
  shows "hseg (set_hdr_is_free (of_nat (a + hlen xs)) 0 m) a (xs @ carve n s @ ys) q"
proof -
  have "\<exists>t zs. split_block n s f @ ys = (t, f) # zs \<and> carve n s @ ys = (t, False) # zs"
    by (simp add: split_block_def carve_def)
  then obtain t zs where "split_block n s f @ ys = (t, f) # zs" "carve n s @ ys = (t, False) # zs"
    by blast
  with assms set_free_list [of m a xs t f zs q 0] show ?thesis by simp
qed


subsection \<open>Coalescing\<close>

definition merge_ram :: "u64 \<Rightarrow> ram \<Rightarrow> ram" where
  "merge_ram c m =
     (let m1 = set_hdr_size c (hdr_size m c + 24 + hdr_size m (hdr_next m c)) m
      in set_hdr_next c (hdr_next m1 (hdr_next m1 c)) m1)"

lemma free_merge_step:
  "free_merge c k =
     (if c = 0 \<or> hdr_next (kram k) c = 0 then Some k
      else if hdr_is_free (kram k) c \<noteq> 0 \<and> hdr_is_free (kram k) (hdr_next (kram k) c) \<noteq> 0 then
        free_merge c (set_ram (merge_ram c (kram k)) (malloc_debug (''Merging blocks: %lu + %lu = %lu bytes'' @ NL)
           [ArgW (hdr_size (kram k) c), ArgW (hdr_size (kram k) (hdr_next (kram k) c)),
            ArgW (hdr_size (kram k) c + 24 + hdr_size (kram k) (hdr_next (kram k) c))] k))
      else free_merge (hdr_next (kram k) c) k)"
  by (subst free_merge.simps) (simp add: Let_def merge_ram_def set_ram_def)

text \<open>The loop ends, and leaves the merged list; only headers are written.\<close>

lemma free_merge_list:
  assumes "hseg (kram k) a bs 0" and "0 < a" and "a + hlen bs \<le> 2 ^ 64"
  shows "\<exists>k' m'. free_merge (hptr a bs 0) k = Some k' \<and> mem k' = (mem k)\<lparr>ram := m'\<rparr>
    \<and> hseg m' a (merge bs) 0 \<and> (\<forall>x. x \<notin> headers a bs \<longrightarrow> m' x = kram k x)"
  using assms
proof (induction bs arbitrary: a k rule: merge.induct)
  case 1
  show ?case
    by (intro exI [of _ k] exI [of _ "kram k"]) (simp add: free_merge_step)
next
  case (2 b)
  obtain s f where "b = (s, f)" by fastforce
  with 2 show ?case
    by (intro exI [of _ k] exI [of _ "kram k"]) (simp add: hptr_def free_merge_step)
next
  case (3 s f t g bs)
  let ?b = "a + 24 + s"
  have nz: "(of_nat a :: u64) \<noteq> 0" "(of_nat ?b :: u64) \<noteq> 0"
    using of_nat64_eq_0 [of a] of_nat64_eq_0 [of ?b] "3.prems" by auto
  have seg: "hdr_size (kram k) (of_nat a) = of_nat s" "hdr_is_free (kram k) (of_nat a) \<noteq> 0 \<longleftrightarrow> f"
      "hdr_next (kram k) (of_nat a) = of_nat ?b"
      "hdr_size (kram k) (of_nat ?b) = of_nat t" "hdr_is_free (kram k) (of_nat ?b) \<noteq> 0 \<longleftrightarrow> g"
      "hdr_next (kram k) (of_nat ?b) = hptr (?b + 24 + t) bs 0" "hseg (kram k) (?b + 24 + t) bs 0"
    using "3.prems"(1) by (simp_all add: hptr_def del: of_nat_add)
  show ?case
  proof (cases "f \<and> g")
    case True
    let ?m = "merge_ram (of_nat a) (kram k)"
    let ?k = "set_ram ?m (malloc_debug (''Merging blocks: %lu + %lu = %lu bytes'' @ NL)
           [ArgW (of_nat s), ArgW (of_nat t), ArgW (of_nat s + 24 + of_nat t)] k)"
    have ap: "span (of_nat ?b) 24 \<inter> span (of_nat a :: u64) 24 = {}"
      using span_apart [of a 24 ?b 24] "3.prems"(3) by auto
    have out: "?m x = kram k x" if "x \<notin> span (of_nat a) 24" for x
      using that by (simp add: merge_ram_def Let_def hdr_outside)
    have "hseg ?m (?b + 24 + t) bs 0"
      using seg(7) by (rule hseg_agree)
        (use header_apart_rest [of a "s + 24 + t" bs] "3.prems"(3) in \<open>auto intro!: out simp: add.assoc\<close>)
    then have seg': "hseg (kram ?k) a ((s + 24 + t, True) # bs) 0"
      using True seg by (simp add: merge_ram_def Let_def cell_apart ap del: of_nat_add)
        (simp add: algebra_simps)
    obtain k' m' where IH: "free_merge (hptr a ((s + 24 + t, True) # bs) 0) ?k = Some k'"
        "mem k' = (mem ?k)\<lparr>ram := m'\<rparr>" "hseg m' a (merge ((s + 24 + t, True) # bs)) 0"
        "\<forall>x. x \<notin> headers a ((s + 24 + t, True) # bs) \<longrightarrow> m' x = kram ?k x"
      using "3.IH"(1) [OF True seg'] "3.prems" by (auto simp: add.assoc)
    have "free_merge (of_nat a) k = free_merge (of_nat a) ?k"
      using True nz seg by (subst free_merge_step) simp
    moreover have "m' x = kram k x" if "x \<notin> headers a ((s, f) # (t, g) # bs)" for x
      using that IH(4) out by (auto simp: add.assoc)
    ultimately show ?thesis
      using True IH by (intro exI [of _ k'] exI [of _ m']) (simp add: hptr_def)
  next
    case False
    have seg': "hseg (kram k) ?b ((t, g) # bs) 0" using seg by simp
    obtain k' m' where IH: "free_merge (hptr ?b ((t, g) # bs) 0) k = Some k'"
        "mem k' = (mem k)\<lparr>ram := m'\<rparr>" "hseg m' ?b (merge ((t, g) # bs)) 0"
        "\<forall>x. x \<notin> headers ?b ((t, g) # bs) \<longrightarrow> m' x = kram k x"
      using "3.IH"(2) [OF False seg'] "3.prems" by auto
    have step: "free_merge (of_nat a) k = free_merge (of_nat ?b) k"
      using False nz seg by (subst free_merge_step) auto
    obtain u r where mg: "merge ((t, g) # bs) = (u, g) # r" using merge_Cons by blast
    have same: "m' x = kram k x" if "x \<in> span (of_nat a) 24" for x
      using that IH(4) header_apart_rest [of a s "(t, g) # bs" x] "3.prems"(3) by auto
    have "hdr_size m' (of_nat a) = of_nat s" "hdr_is_free m' (of_nat a) \<noteq> 0 \<longleftrightarrow> f"
        "hdr_next m' (of_nat a) = of_nat ?b"
      using seg hdr_size.get_agree [of "of_nat a" m' "kram k"] hdr_next.get_agree [of "of_nat a" m' "kram k"]
        hdr_free.get_agree [of "of_nat a" m' "kram k"] same by simp_all
    then have "hseg m' a (merge ((s, f) # (t, g) # bs)) 0"
      using False IH(3) by (auto simp: mg hptr_def)
    with IH step show ?thesis
      by (intro exI [of _ k'] exI [of _ m']) (auto simp: hptr_def)
  qed
qed

subsection \<open>Free pages in memory\<close>

text \<open>
  \<open>pseg m ds v h\<close>: from \<open>h\<close> hangs a list of page descriptors at the addresses \<open>ds\<close>, for
  consecutive 2 MB pages, the first one mapped at virtual address \<open>v\<close>.
\<close>

fun pseg :: "ram \<Rightarrow> nat list \<Rightarrow> nat \<Rightarrow> u64 \<Rightarrow> bool" where
  "pseg m [] v h \<longleftrightarrow> h = 0"
| "pseg m (d # ds) v h \<longleftrightarrow> h = of_nat d \<and> Phy_To_Virt (page_phy_addr m (of_nat d)) = of_nat v
     \<and> pseg m ds (v + 2097152) (page_next m (of_nat d))"

abbreviation cells_apart :: "nat \<Rightarrow> nat \<Rightarrow> bool" where
  "cells_apart d e \<equiv> d + 24 \<le> e \<or> e + 24 \<le> d"

text \<open>The descriptors are cells of their own, outside the addresses from \<open>lo\<close> to \<open>hi\<close>.\<close>

definition descs_ok :: "nat list \<Rightarrow> nat \<Rightarrow> nat \<Rightarrow> bool" where
  "descs_ok ds lo hi \<longleftrightarrow> sorted_wrt cells_apart ds
     \<and> (\<forall>d\<in>set ds. 0 < d \<and> d + 24 \<le> 2 ^ 64 \<and> (d + 24 \<le> lo \<or> hi \<le> d))"

definition desc_cells :: "nat list \<Rightarrow> u64 set" where
  "desc_cells ds = (\<Union>d\<in>set ds. span (of_nat d) 24)"

lemma pseg_agree:
  "pseg m ds v h \<Longrightarrow> (\<And>x. x \<in> desc_cells ds \<Longrightarrow> m' x = m x) \<Longrightarrow> pseg m' ds v h"
proof (induction m ds v h rule: pseg.induct)
  case (2 m d ds v h)
  have c: "x \<in> span (of_nat d) 24 \<Longrightarrow> m' x = m x" for x using "2.prems" by (simp add: desc_cells_def)
  have "page_phy_addr m' (of_nat d) = page_phy_addr m (of_nat d)" by (rule page_phy.get_agree) (rule c)
  moreover have "page_next m' (of_nat d) = page_next m (of_nat d)" by (rule page_next.get_agree) (rule c)
  ultimately show ?case using 2 by (simp add: desc_cells_def)
qed simp

lemma span_apart2:
  assumes "a + n \<le> b \<or> b + k \<le> a" and "a + n \<le> 2 ^ 64" and "b + k \<le> 2 ^ 64"
  shows "span (of_nat a) n \<inter> span (of_nat b) k = {}"
  using assms(1)
proof
  assume "a + n \<le> b" then show ?thesis using assms span_apart [of a n b k] by blast
next
  assume "b + k \<le> a" then show ?thesis using assms span_apart [of b k a n] by blast
qed

lemma descs_ok_apart:
  assumes "descs_ok ds lo hi" and "d \<in> set ds" and "lo \<le> a" and "a + n \<le> hi" and "hi \<le> 2 ^ 64"
  shows "span (of_nat d) 24 \<inter> span (of_nat a :: u64) n = {}"
  using assms by (intro span_apart2) (auto simp: descs_ok_def)

lemma descs_ok_Cons:
  "descs_ok (d # ds) lo hi \<longleftrightarrow> 0 < d \<and> d + 24 \<le> 2 ^ 64 \<and> (d + 24 \<le> lo \<or> hi \<le> d)
     \<and> (\<forall>e\<in>set ds. cells_apart d e) \<and> descs_ok ds lo hi"
  by (auto simp: descs_ok_def)

lemma descs_head_apart:
  assumes "descs_ok (d # ds) lo hi"
  shows "span (of_nat d) 24 \<inter> desc_cells ds = {}"
proof -
  have "span (of_nat d :: u64) 24 \<inter> span (of_nat e) 24 = {}" if "e \<in> set ds" for e
    using assms that by (intro span_apart2) (auto simp: descs_ok_def)
  then show ?thesis by (auto simp: desc_cells_def)
qed

definition alloc_page_ram :: "nat \<Rightarrow> nat \<Rightarrow> ram \<Rightarrow> ram" where
  "alloc_page_ram d v m = memset (of_nat v) 0 0x200000
     (set_page_ref_count (of_nat d) 1 (set_page_next (of_nat d) 0 m))"

lemma alloc_page_ram_frame:
  "x \<notin> span (of_nat d) 24 \<union> span (of_nat v) 2097152 \<Longrightarrow> alloc_page_ram d v m x = m x"
  by (simp add: alloc_page_ram_def memset_frame page_outside)

text \<open>Taking a page: its descriptor leaves the list, its 2 MB are cleared.\<close>

lemma alloc_page_list:
  assumes seg: "pseg (kram k) (d # ds) v (free_pages_list (mem k))"
    and ok: "descs_ok (d # ds) lo hi" and "lo \<le> v" and "v + 2097152 \<le> hi" and "hi \<le> 2 ^ 64"
  defines "m' \<equiv> alloc_page_ram d v (kram k)"
  shows "fst (alloc_page k) = of_nat d" and "fst (alloc_page k) \<noteq> 0"
    and "mem (snd (alloc_page k)) = (mem k)\<lparr>ram := m', free_pages_list := page_next (kram k) (of_nat d),
        total_free_pages := total_free_pages (mem k) - 1\<rparr>"
    and "pseg m' ds (v + 2097152) (page_next (kram k) (of_nat d))"
    and "Phy_To_Virt (page_phy_addr m' (of_nat d)) = of_nat v"
proof -
  have d0: "(of_nat d :: u64) \<noteq> 0"
    using of_nat64_eq_0 [of d] ok by (auto simp: descs_ok_Cons)
  have h: "free_pages_list (mem k) = of_nat d" "Phy_To_Virt (page_phy_addr (kram k) (of_nat d)) = of_nat v"
    using seg by simp_all
  show "fst (alloc_page k) = of_nat d" "fst (alloc_page k) \<noteq> 0"
    using h d0 by (simp_all add: alloc_page_def Let_def)
  show "mem (snd (alloc_page k)) = (mem k)\<lparr>ram := m', free_pages_list := page_next (kram k) (of_nat d),
      total_free_pages := total_free_pages (mem k) - 1\<rparr>"
    using h d0 by (simp add: alloc_page_def Let_def m'_def alloc_page_ram_def)
  have dv: "span (of_nat d) 24 \<inter> span (of_nat v :: u64) 2097152 = {}"
    using ok assms(3-5) by (intro descs_ok_apart) auto
  have "m' x = kram k x" if x: "x \<in> desc_cells ds" for x
  proof -
    have "x \<notin> span (of_nat d) 24" using descs_head_apart [OF ok] x by blast
    moreover have "x \<notin> span (of_nat v) 2097152"
    proof -
      obtain e where "e \<in> set ds" "x \<in> span (of_nat e) 24"
        using x unfolding desc_cells_def by blast
      then show ?thesis
        using descs_ok_apart [of "d # ds" lo hi e v 2097152] ok assms(3-5) by auto
    qed
    ultimately show ?thesis by (simp add: m'_def alloc_page_ram_frame)
  qed
  then show "pseg m' ds (v + 2097152) (page_next (kram k) (of_nat d))"
    using seg by (auto intro: pseg_agree)
  have "page_phy_addr m' (of_nat d) = page_phy_addr (kram k) (of_nat d)"
  proof -
    have "page_phy_addr m' (of_nat d)
        = page_phy_addr (set_page_ref_count (of_nat d) 1 (set_page_next (of_nat d) 0 (kram k))) (of_nat d)"
      by (rule page_phy.get_agree) (use dv in \<open>auto simp: m'_def alloc_page_ram_def intro!: memset_frame\<close>)
    then show ?thesis by simp
  qed
  with h show "Phy_To_Virt (page_phy_addr m' (of_nat d)) = of_nat v" by simp
qed

lemma alloc_page_empty:
  "free_pages_list (mem k) = 0 \<Longrightarrow> fst (alloc_page k) = 0 \<and> mem (snd (alloc_page k)) = mem k"
  by (simp add: alloc_page_def)


subsection \<open>The invariant of the heap\<close>

text \<open>
  \<open>heap_inv g a bs ds\<close>: the blocks \<open>bs\<close> tile the heap from address \<open>a\<close>, the free pages described
  at \<open>ds\<close> follow it directly, the heap limits checked by \<open>free\<close> enclose both, blocks are
  8-aligned, and no block in use is larger than a page.
\<close>

abbreviation heap_top :: "nat \<Rightarrow> blocks \<Rightarrow> nat list \<Rightarrow> nat" where
  "heap_top a bs ds \<equiv> a + hlen bs + 2097152 * length ds"

definition blocks_ok :: "blocks \<Rightarrow> bool" where
  "blocks_ok bs \<longleftrightarrow> (\<forall>(s, f)\<in>set bs. 8 dvd s \<and> (\<not> f \<longrightarrow> 0 < s \<and> s \<le> 2097152))"

definition heap_inv :: "memory \<Rightarrow> nat \<Rightarrow> blocks \<Rightarrow> nat list \<Rightarrow> bool" where
  "heap_inv g a bs ds \<longleftrightarrow> 0 < a \<and> 8 dvd a \<and> heap_top a bs ds \<le> 2 ^ 64
     \<and> malloc_head g = hptr a bs 0 \<and> hseg (ram g) a bs 0
     \<and> pseg (ram g) ds (a + hlen bs) (free_pages_list g) \<and> descs_ok ds a (heap_top a bs ds)
     \<and> total_free_pages g = of_nat (length ds) \<and> blocks_ok bs
     \<and> unat (Phy_To_Virt (kernel_heap_start g)) \<le> a
     \<and> heap_top a bs ds \<le> unat (Phy_To_Virt (kernel_heap_end g))"

lemma heap_inv_pages:
  assumes "heap_inv g a bs ds"
  shows "ds = [] \<longleftrightarrow> free_pages_list g = 0"
proof (cases ds)
  case Nil
  with assms show ?thesis by (simp add: heap_inv_def)
next
  case (Cons d es)
  with assms of_nat64_eq_0 [of d] show ?thesis by (auto simp: heap_inv_def descs_ok_Cons)
qed

lemma heap_headers:
  assumes "heap_inv g a bs ds" and "x \<in> headers a bs"
  shows "x \<in> span (of_nat a) (hlen bs)"
  using headers_within [of a bs] assms by (auto simp: heap_inv_def)

text \<open>A page taken from the list leaves the blocks in place.\<close>

lemma page_keeps_blocks:
  assumes inv: "heap_inv (mem k) a bs (d # ds)"
  shows "hseg (alloc_page_ram d (a + hlen bs) (kram k)) a bs 0"
proof -
  have top: "heap_top a bs (d # ds) \<le> 2 ^ 64" and ok: "descs_ok (d # ds) a (heap_top a bs (d # ds))"
    using inv by (simp_all add: heap_inv_def)
  have "span (of_nat d) 24 \<inter> span (of_nat a :: u64) (hlen bs) = {}"
    using descs_ok_apart [OF ok, of d a "hlen bs"] top by auto
  moreover have "span (of_nat (a + hlen bs)) 2097152 \<inter> span (of_nat a :: u64) (hlen bs) = {}"
    using span_apart [of a "hlen bs" "a + hlen bs" 2097152] top by auto
  ultimately have "alloc_page_ram d (a + hlen bs) (kram k) x = kram k x" if "x \<in> headers a bs" for x
    using heap_headers [OF inv that] by (intro alloc_page_ram_frame) blast
  with inv show ?thesis by (auto simp: heap_inv_def intro: hseg_agree)
qed


subsection \<open>Growing the heap by a page\<close>

definition new_block_ram :: "u64 \<Rightarrow> bool \<Rightarrow> ram \<Rightarrow> ram" where
  "new_block_ram c f m = set_hdr_is_free c (if f then 1 else 0) (set_hdr_next c 0
     (set_hdr_size c (0x200000 - 24) m))"

lemma new_block_ram_frame: "x \<notin> span c 24 \<Longrightarrow> new_block_ram c f m x = m x"
  by (simp add: new_block_ram_def hdr_outside)

lemma new_block_list: "hseg (new_block_ram (of_nat c) f m) c [(2097128, f)] 0"
  by (simp add: new_block_ram_def)

text \<open>Appending a block at the end: the header before it, if any, is relinked.\<close>

lemma hseg_snoc:
  assumes seg: "hseg m a (xs @ [(s, f)]) 0" and len: "a + hlen (xs @ [(s, f)]) + 24 \<le> 2 ^ 64"
    and new: "hseg m (a + hlen (xs @ [(s, f)])) [b] 0"
  shows "hseg (set_hdr_next (of_nat (a + hlen xs)) (of_nat (a + hlen (xs @ [(s, f)]))) m)
    a (xs @ [(s, f)] @ [b]) 0"
proof -
  obtain t g where b: "b = (t, g)" by fastforce
  let ?c = "a + hlen xs" and ?e = "a + hlen xs + 24 + s"
  let ?m = "set_hdr_next (of_nat ?c) (of_nat ?e) m"
  have out: "?m x = m x" if "x \<notin> span (of_nat ?c) 24" for x
    using that by (simp add: hdr_outside)
  have "hseg m a xs (of_nat ?c)" using seg by (simp add: hseg_append hptr_def)
  then have "hseg ?m a xs (of_nat ?c)"
  proof (rule hseg_agree)
    fix x assume "x \<in> headers a xs"
    then have "x \<notin> span (of_nat ?c) 24" using header_apart [of a xs x] len by auto
    then show "?m x = m x" by (rule out)
  qed
  moreover have "hseg m ?e [b] 0" using new by (simp add: add.assoc)
  then have "hseg ?m ?e [b] 0"
  proof (rule hseg_agree)
    fix x assume "x \<in> headers ?e [b]"
    then have "x \<notin> span (of_nat ?c) 24" using span_apart [of ?c 24 ?e 24] len by (auto simp: b)
    then show "?m x = m x" by (rule out)
  qed
  ultimately show ?thesis
    using seg by (simp add: hseg_append hptr_def add.assoc)
qed

subsection \<open>Bytes in use\<close>

definition payload :: "nat \<Rightarrow> blocks \<Rightarrow> u64 set" where
  "payload a bs = (\<Union>(x, s)\<in>live a bs. span (of_nat x) s)"

lemma payload_Nil [simp]: "payload a [] = {}"
  by (simp add: payload_def)

lemma payload_Cons [simp]:
  "payload a ((s, f) # bs) = (if f then {} else span (of_nat (a + 24)) s) \<union> payload (a + 24 + s) bs"
  by (auto simp: payload_def)

lemma payload_append [simp]: "payload a (xs @ ys) = payload a xs \<union> payload (a + hlen xs) ys"
  by (auto simp: payload_def)

lemma payload_within:
  assumes "a + hlen bs \<le> 2 ^ 64"
  shows "payload a bs \<subseteq> span (of_nat a) (hlen bs)"
  using assms
proof (induction a bs rule: live.induct)
  case (2 a s f bs)
  have "span (of_nat (a + 24) :: u64) s \<subseteq> span (of_nat a) (hlen ((s, f) # bs))"
    using span_offset [of 24 s "hlen ((s, f) # bs)" "of_nat a"] by simp
  moreover have "span (of_nat (a + 24 + s) :: u64) (hlen bs) \<subseteq> span (of_nat a) (hlen ((s, f) # bs))"
    using span_offset [of "24 + s" "hlen bs" "hlen ((s, f) # bs)" "of_nat a"] by (simp add: add.assoc)
  moreover have "payload (a + 24 + s) bs \<subseteq> span (of_nat (a + 24 + s)) (hlen bs)"
    using 2 by simp
  ultimately show ?case by (simp only: payload_Cons) auto
qed simp

lemma payload_headers:
  assumes "a + hlen bs \<le> 2 ^ 64"
  shows "payload a bs \<inter> headers a bs = {}"
  using assms
proof (induction a bs rule: live.induct)
  case (2 a s f bs)
  have "span (of_nat (a + 24) :: u64) s \<inter> headers (a + 24 + s) bs = {}"
    using headers_within [of "a + 24 + s" bs] span_apart [of "a + 24" s "a + 24 + s" "hlen bs"] "2.prems"
    by fastforce
  moreover have "span (of_nat a :: u64) 24 \<inter> payload (a + 24 + s) bs = {}"
    using payload_within [of "a + 24 + s" bs] span_apart [of a 24 "a + 24 + s" "hlen bs"] "2.prems"
    by fastforce
  moreover have "span (of_nat a :: u64) 24 \<inter> span (of_nat (a + 24)) s = {}"
    using span_apart [of a 24 "a + 24" s] "2.prems" by simp
  ultimately show ?case using 2 by auto
qed simp

lemma payload_free_block:
  assumes "a + hlen (xs @ (s, True) # ys) \<le> 2 ^ 64"
  shows "payload a (xs @ (s, True) # ys) \<inter> span (of_nat (a + hlen xs)) (24 + s) = {}"
proof -
  let ?c = "a + hlen xs"
  have "payload a xs \<inter> span (of_nat ?c) (24 + s) = {}"
    using payload_within [of a xs] span_apart [of a "hlen xs" ?c "24 + s"] assms by auto
  moreover have "payload (?c + 24 + s) ys \<inter> span (of_nat ?c) (24 + s) = {}"
    using payload_within [of "?c + 24 + s" ys] span_apart [of ?c "24 + s" "?c + 24 + s" "hlen ys"] assms
    by (fastforce simp: add.assoc)
  ultimately show ?thesis by (simp add: add.assoc) blast
qed

text \<open>The addresses the allocator may write: heap, free pages and their descriptors, less what is in use.\<close>

definition heap_area :: "nat \<Rightarrow> blocks \<Rightarrow> nat list \<Rightarrow> u64 set" where
  "heap_area a bs ds = span (of_nat a) (hlen bs + 2097152 * length ds) \<union> desc_cells ds"

definition heap_keeps :: "nat \<Rightarrow> blocks \<Rightarrow> nat list \<Rightarrow> ram \<Rightarrow> ram \<Rightarrow> bool" where
  "heap_keeps a bs ds m m' \<longleftrightarrow> (\<forall>x. x \<in> payload a bs \<or> x \<notin> heap_area a bs ds \<longrightarrow> m' x = m x)"

lemma heap_keeps_trans:
  assumes "heap_keeps a bs ds m m'" and "heap_keeps a bs' ds' m' m''"
    and "payload a bs \<subseteq> payload a bs'" and "heap_area a bs' ds' \<subseteq> heap_area a bs ds"
  shows "heap_keeps a bs ds m m''"
  using assms by (auto simp: heap_keeps_def)

lemma heap_area_block:
  assumes "k + j \<le> hlen bs + 2097152 * length ds"
  shows "span (of_nat (a + k)) j \<subseteq> heap_area a bs ds"
  using span_offset [OF assms, of "of_nat a"] by (auto simp: heap_area_def)

lemma blocks_ok_Nil [simp]: "blocks_ok []"
  by (simp add: blocks_ok_def)

lemma blocks_ok_append [simp]: "blocks_ok (xs @ ys) \<longleftrightarrow> blocks_ok xs \<and> blocks_ok ys"
  by (auto simp: blocks_ok_def)

lemma blocks_ok_Cons [simp]: "blocks_ok ((s, f) # bs) \<longleftrightarrow> 8 dvd s \<and> (\<not> f \<longrightarrow> 0 < s \<and> s \<le> 2097152) \<and> blocks_ok bs"
  by (auto simp: blocks_ok_def)

end
