(* ===== verification/FirstFit.thy ===== *)
theory FirstFit
  imports Blocks
begin

text \<open>
  \<open>malloc\<close> and \<open>free\<close> of \<open>kernel/memory.c\<close> refine the abstract allocator of \<open>Blocks\<close>, for one call and
  for runs, and keep the interface \<open>allocator\<close> that the rest of the kernel relies on.
\<close>

subsection \<open>\<open>malloc\<close> refines first fit\<close>

text \<open>Rounding a request up to 8 bytes.\<close>

definition round8 :: "nat \<Rightarrow> nat" where
  "round8 n = (n + 7) div 8 * 8"

lemma round8_word:
  assumes "n + 7 < 2 ^ 64"
  shows "(of_nat n + 7) AND NOT 7 = (of_nat (round8 n) :: u64)"
proof -
  have "x AND NOT (mask 3) = push_bit 3 (drop_bit 3 x)" for x :: u64
    by (rule bit_word_eqI) (auto simp: bit_simps)
  then have "x AND NOT 7 = push_bit 3 (drop_bit 3 x)" for x :: u64
    by (simp add: mask_eq_exp_minus_1)
  moreover have "drop_bit 3 (of_nat n + 7) = (of_nat ((n + 7) div 8) :: u64)"
  proof -
    have "unat (of_nat n + 7 :: u64) = n + 7"
      using unat_of_nat64 [OF assms] by simp
    then have "unat (drop_bit 3 (of_nat n + 7 :: u64)) = (n + 7) div 8"
      unfolding unat_drop_bit by simp
    then have "(of_nat (unat (drop_bit 3 (of_nat n + 7 :: u64))) :: u64) = of_nat ((n + 7) div 8)"
      by (rule arg_cong)
    then show ?thesis by simp
  qed
  ultimately show ?thesis
    by (simp add: round8_def push_bit_eq_mult)
qed

lemma round8_bounds: "n \<le> round8 n" "round8 n \<le> n + 7" "8 dvd round8 n" "n \<le> 2097000 \<Longrightarrow> round8 n \<le> 2097000"
  by (simp_all add: round8_def)

lemma heap_inv_stats [simp]:
  "heap_inv (g\<lparr>malloc_total_allocated := x\<rparr>) a bs ds = heap_inv g a bs ds"
  "heap_inv (g\<lparr>malloc_total_freed := x\<rparr>) a bs ds = heap_inv g a bs ds"
  "heap_inv (g\<lparr>malloc_total_freed := x, ram := m\<rparr>) a bs ds = heap_inv (g\<lparr>ram := m\<rparr>) a bs ds"
  by (simp_all add: heap_inv_def)

text \<open>Rewriting headers inside the heap, with the tiling kept, keeps the invariant.\<close>

lemma heap_inv_rewrite:
  assumes inv: "heap_inv g a bs ds" and seg: "hseg m a bs' 0"
    and out: "\<And>x. x \<notin> span (of_nat a) (hlen bs) \<Longrightarrow> m x = ram g x"
    and same: "hlen bs' = hlen bs" "bs' = [] \<longleftrightarrow> bs = []" "blocks_ok bs'"
  shows "heap_inv (g\<lparr>ram := m\<rparr>) a bs' ds"
proof -
  have "pseg m ds (a + hlen bs) (free_pages_list g)"
  proof (rule pseg_agree)
    show "pseg (ram g) ds (a + hlen bs) (free_pages_list g)" using inv by (simp add: heap_inv_def)
    fix x assume "x \<in> desc_cells ds"
    then obtain e where "e \<in> set ds" "x \<in> span (of_nat e) 24" by (auto simp: desc_cells_def)
    then have "x \<notin> span (of_nat a) (hlen bs)"
      using descs_ok_apart [of ds a "heap_top a bs ds" e a "hlen bs"] inv by (auto simp: heap_inv_def)
    then show "m x = ram g x" by (rule out)
  qed
  with inv seg same show ?thesis by (auto simp: heap_inv_def hptr_def)
qed

lemma split_refines:
  assumes inv: "heap_inv g a (xs @ (s, f) # ys) ds" and n: "n + 24 \<le> s" "8 dvd n" "n \<le> 2097000" "0 < n"
  defines "m \<equiv> split_ram (of_nat n) (of_nat (n + 24)) (of_nat (a + hlen xs)) (ram g)"
  shows "heap_inv (g\<lparr>ram := m\<rparr>) a (xs @ split_block n s f @ ys) ds"
    and "\<And>x. x \<notin> span (of_nat (a + hlen xs)) (24 + s) \<Longrightarrow> m x = ram g x"
proof -
  let ?c = "a + hlen xs" and ?bs = "xs @ (s, f) # ys"
  have top: "heap_top a ?bs ds \<le> 2 ^ 64" using inv by (simp add: heap_inv_def)
  show out: "m x = ram g x" if x: "x \<notin> span (of_nat ?c) (24 + s)" for x
  proof (cases "n + 24 + 24 + 8 < s")
    case True
    then have "x \<notin> span (of_nat ?c + of_nat (n + 24)) 24"
      using x span_offset [of "n + 24" 24 "24 + s" "of_nat ?c"] by auto
    moreover have "x \<notin> span (of_nat ?c) 24" using x span_mono [of 24 "24 + s"] by auto
    ultimately show ?thesis unfolding m_def by (intro split_ram_frame) blast
  next
    case False
    have "hdr_size (ram g) (of_nat ?c) = of_nat s" using inv by (simp add: heap_inv_def hseg_append)
    moreover have "\<not> of_nat (n + 24) + 24 + 8 < (of_nat s :: u64)"
      using False of_nat64_less [of "n + 56" s] n top by (simp add: add.commute)
    ultimately show ?thesis by (simp add: m_def split_ram_def)
  qed
  have "span (of_nat ?c) (24 + s) \<subseteq> span (of_nat a :: u64) (hlen ?bs)"
    using span_offset [of "hlen xs" "24 + s" "hlen ?bs" "of_nat a"] by simp
  moreover have "hseg m a (xs @ split_block n s f @ ys) 0"
    unfolding m_def by (rule split_ram_list) (use inv n top in \<open>auto simp: heap_inv_def\<close>)
  moreover have "blocks_ok (xs @ split_block n s f @ ys)"
    using inv n by (auto simp: heap_inv_def split_block_def)
  ultimately show "heap_inv (g\<lparr>ram := m\<rparr>) a (xs @ split_block n s f @ ys) ds"
    by (intro heap_inv_rewrite [OF inv]) (auto simp: hlen_split split_nonempty intro!: out)
qed

lemma set_free_refines:
  assumes inv: "heap_inv g a (xs @ (s, f) # ys) ds" and s: "v = 0 \<longrightarrow> 0 < s \<and> s \<le> 2097152"
  defines "m \<equiv> set_hdr_is_free (of_nat (a + hlen xs)) v (ram g)"
  shows "heap_inv (g\<lparr>ram := m\<rparr>) a (xs @ (s, v \<noteq> 0) # ys) ds"
    and "\<And>x. x \<notin> span (of_nat (a + hlen xs)) 24 \<Longrightarrow> m x = ram g x"
proof -
  let ?c = "a + hlen xs" and ?bs = "xs @ (s, f) # ys"
  have top: "heap_top a ?bs ds \<le> 2 ^ 64" using inv by (simp add: heap_inv_def)
  show out: "\<And>x. x \<notin> span (of_nat ?c) 24 \<Longrightarrow> m x = ram g x"
    by (simp add: m_def hdr_outside)
  have "span (of_nat ?c) 24 \<subseteq> span (of_nat a :: u64) (hlen ?bs)"
    using span_offset [of "hlen xs" 24 "hlen ?bs" "of_nat a"] by simp
  moreover have "hseg m a (xs @ (s, v \<noteq> 0) # ys) 0"
    unfolding m_def by (rule set_free_list) (use inv top in \<open>auto simp: heap_inv_def\<close>)
  moreover have "blocks_ok (xs @ (s, v \<noteq> 0) # ys)"
    using inv s by (auto simp: heap_inv_def)
  ultimately show "heap_inv (g\<lparr>ram := m\<rparr>) a (xs @ (s, v \<noteq> 0) # ys) ds"
    by (intro heap_inv_rewrite [OF inv]) (auto intro!: out)
qed

lemma malloc_take_refines:
  assumes inv: "heap_inv (mem k) a (xs @ (s, True) # ys) ds"
    and n: "n + 24 \<le> s" "8 dvd n" "n \<le> 2097000" "0 < n"
  defines "k' \<equiv> snd (malloc_take (of_nat n) (of_nat (n + 24)) (of_nat (a + hlen xs)) k)"
  shows "heap_inv (mem k') a (xs @ carve n s @ ys) ds"
    and "heap_keeps a (xs @ (s, True) # ys) ds (kram k) (kram k')"
proof -
  let ?c = "a + hlen xs" and ?bs = "xs @ (s, True) # ys"
  let ?m = "split_ram (of_nat n) (of_nat (n + 24)) (of_nat ?c) (kram k)"
  have m: "mem k' = (mem k)\<lparr>ram := set_hdr_is_free (of_nat ?c) 0 ?m,
      malloc_total_allocated := malloc_total_allocated (mem k) + of_nat n\<rparr>"
    by (simp only: k'_def malloc_take_effect)
  have top: "heap_top a ?bs ds \<le> 2 ^ 64" using inv by (simp add: heap_inv_def)
  note sp = split_refines [OF inv n]
  obtain t zs where t: "split_block n s True @ ys = (t, True) # zs" "carve n s @ ys = (t, False) # zs"
      "0 < t" "t \<le> 2097152"
    using n by (cases "n + 24 + 24 + 8 < s") (auto simp: split_block_def carve_def)
  have "heap_inv ((mem k)\<lparr>ram := ?m\<rparr>) a (xs @ (t, True) # zs) ds"
    using sp(1) t(1) by simp
  from set_free_refines [OF this, of 0] t
  show "heap_inv (mem k') a (xs @ carve n s @ ys) ds"
    unfolding m by (simp del: of_nat_add)
  show "heap_keeps a ?bs ds (kram k) (kram k')"
    unfolding heap_keeps_def
  proof (intro allI impI)
    fix x assume "x \<in> payload a ?bs \<or> x \<notin> heap_area a ?bs ds"
    then have x: "x \<notin> span (of_nat ?c) (24 + s)"
      using payload_free_block [of a xs s ys] heap_area_block [of "hlen xs" "24 + s" ?bs ds a] top by auto
    then have "?m x = kram k x" by (rule sp(2))
    moreover have "x \<notin> span (of_nat ?c) 24" using x span_mono [of 24 "24 + s"] by auto
    moreover have "kram k' = set_hdr_is_free (of_nat ?c) 0 ?m" unfolding m by (simp del: of_nat_add)
    ultimately show "kram k' x = kram k x" by (simp only: hdr_outside not_False_eq_True)
  qed
qed

text \<open>A page taken when the heap is empty, and a page appended to it.\<close>

lemma heap_area_page:
  "heap_area a (bs @ bs') ds \<union> span (of_nat d) 24 = heap_area a bs (d # ds)" if "hlen bs' = 2097152"
  using that by (auto simp: heap_area_def desc_cells_def ac_simps)

lemma page_frame:
  assumes inv: "heap_inv (mem k) a bs (d # ds)"
    and x: "x \<in> payload a bs \<or> x \<notin> heap_area a bs (d # ds)"
  shows "x \<notin> span (of_nat d) 24 \<union> span (of_nat (a + hlen bs)) 2097152"
proof -
  have top: "heap_top a bs (d # ds) \<le> 2 ^ 64" and ok: "descs_ok (d # ds) a (heap_top a bs (d # ds))"
    using inv by (simp_all add: heap_inv_def)
  have "x \<notin> span (of_nat d) 24" if "x \<in> payload a bs"
    using payload_within [of a bs] descs_ok_apart [OF ok, of d a "hlen bs"] top that by auto
  moreover have "x \<notin> span (of_nat (a + hlen bs)) 2097152" if "x \<in> payload a bs"
    using payload_within [of a bs] span_apart [of a "hlen bs" "a + hlen bs" 2097152] top that by auto
  moreover have "span (of_nat d) 24 \<union> span (of_nat (a + hlen bs)) 2097152 \<subseteq> heap_area a bs (d # ds)"
    using heap_area_block [of "hlen bs" 2097152 bs "d # ds" a] by (auto simp: heap_area_def desc_cells_def)
  ultimately show ?thesis using x by blast
qed

text \<open>The state after a page was taken and one block of its size put at the end of the heap.\<close>

lemma page_appended:
  assumes inv: "heap_inv (mem k) a bs (d # ds)"
    and seg: "hseg m a (bs @ [(2097128, f)]) 0"
    and out: "\<And>x. x \<notin> headers a (bs @ [(2097128, f)]) \<Longrightarrow> m x = alloc_page_ram d (a + hlen bs) (kram k) x"
    and g: "g = (mem k)\<lparr>ram := m, free_pages_list := page_next (kram k) (of_nat d),
        total_free_pages := total_free_pages (mem k) - 1, malloc_head := of_nat a\<rparr>"
  shows "heap_inv g a (bs @ [(2097128, f)]) ds" and "heap_keeps a bs (d # ds) (kram k) m"
proof -
  let ?bs = "bs @ [(2097128, f)]" and ?v = "a + hlen bs"
  have top: "heap_top a bs (d # ds) \<le> 2 ^ 64" and ok: "descs_ok (d # ds) a (heap_top a bs (d # ds))"
    and p: "pseg (kram k) (d # ds) ?v (free_pages_list (mem k))"
    using inv by (simp_all add: heap_inv_def)
  have top': "heap_top a ?bs ds = heap_top a bs (d # ds)" by simp
  have hd: "headers a ?bs \<subseteq> span (of_nat a) (hlen bs + 2097152)"
    using headers_within [of a ?bs] top by simp
  have "pseg (alloc_page_ram d ?v (kram k)) ds (?v + 2097152) (page_next (kram k) (of_nat d))"
    by (rule alloc_page_list(4) [OF p ok]) (use top in auto)
  then have "pseg m ds (?v + 2097152) (page_next (kram k) (of_nat d))"
  proof (rule pseg_agree)
    fix x assume "x \<in> desc_cells ds"
    then obtain e where "e \<in> set ds" "x \<in> span (of_nat e) 24" by (auto simp: desc_cells_def)
    then have "x \<notin> headers a ?bs"
      using descs_ok_apart [OF ok, of e a "hlen bs + 2097152"] top hd by auto
    then show "m x = alloc_page_ram d ?v (kram k) x" by (rule out)
  qed
  with inv seg ok show "heap_inv g a ?bs ds"
    unfolding heap_inv_def top' by (auto simp: g hptr_def descs_ok_Cons add.assoc)
  show "heap_keeps a bs (d # ds) (kram k) m"
    unfolding heap_keeps_def
  proof (intro allI impI)
    fix x assume x: "x \<in> payload a bs \<or> x \<notin> heap_area a bs (d # ds)"
    have "x \<notin> headers a ?bs"
    proof
      assume h: "x \<in> headers a ?bs"
      have "span (of_nat a) (hlen bs + 2097152) \<subseteq> heap_area a bs (d # ds)"
        using heap_area_block [of 0 "hlen bs + 2097152" bs "d # ds" a] by simp
      with h hd x have "x \<in> payload a bs" by blast
      then show False
        using h payload_headers [of a bs] page_frame [OF inv x] top span_mono [of 24 2097152 "of_nat ?v"]
        by (auto simp del: of_nat_add)
    qed
    then show "m x = kram k x"
      using page_frame [OF inv x] by (simp add: out alloc_page_ram_frame del: of_nat_add)
  qed
qed


lemma malloc_new_page_effect:
  assumes page: "alloc_page k = (page, k1)" "page \<noteq> 0" and v: "v = Phy_To_Virt (page_phy_addr (kram k1) page)"
    and m2: "m2 = (if prev \<noteq> 0 then set_hdr_next prev v (new_block_ram v False (kram k1))
        else new_block_ram v False (kram k1))"
    and nx: "hdr_next m2 v = 0" and ap: "span v 24 \<inter> span (v + tot) 24 = {}"
  shows "malloc_new_page sz tot prev k = (v + 24, snd (malloc_new_page sz tot prev k))"
    and "mem (snd (malloc_new_page sz tot prev k)) = (mem k1)\<lparr>ram := split_ram sz tot v m2,
      malloc_total_allocated := malloc_total_allocated (mem k1) + sz\<rparr>"
proof -
  have "hdr_next (set_hdr_size (v + tot) w m2) v = 0" for w
    using nx ap by (simp add: cell_apart)
  then show "malloc_new_page sz tot prev k = (v + 24, snd (malloc_new_page sz tot prev k))"
    and "mem (snd (malloc_new_page sz tot prev k)) = (mem k1)\<lparr>ram := split_ram sz tot v m2,
      malloc_total_allocated := malloc_total_allocated (mem k1) + sz\<rparr>"
    using page(2) by (simp_all add: malloc_new_page_def page(1) Let_def m2 v split_ram_def new_block_ram_def)
qed


text \<open>The abstract allocator: payload offset of the answer, blocks and number of free pages left.\<close>

definition abs_first_page :: "blocks \<times> nat \<Rightarrow> blocks \<times> nat" where
  "abs_first_page = (\<lambda>(bs, p). if bs = [] \<and> 0 < p then ([(2097128, True)], p - 1) else (bs, p))"

definition abs_malloc :: "nat \<Rightarrow> blocks \<times> nat \<Rightarrow> nat option \<times> blocks \<times> nat" where
  "abs_malloc n st =
     (if n = 0 \<or> 2097000 < n then (None, st)
      else case abs_first_page st of (bs, p) \<Rightarrow>
        if bs = [] then (None, bs, p)
        else case take_first (round8 n) bs of
            Some (off, bs') \<Rightarrow> (Some (off + 24), bs', p)
          | None \<Rightarrow> if p = 0 then (None, bs, p)
                    else (Some (hlen bs + 24), bs @ carve (round8 n) 2097128, p - 1))"

lemma first_page_refines:
  assumes inv: "heap_inv (mem k) a bs ds"
  shows "\<exists>bs' ds'. abs_first_page (bs, length ds) = (bs', length ds')
    \<and> heap_inv (mem (snd (malloc_first_page k))) a bs' ds'
    \<and> fst (malloc_first_page k) = (bs' \<noteq> [])
    \<and> heap_keeps a bs ds (kram k) (kram (snd (malloc_first_page k)))
    \<and> payload a bs \<subseteq> payload a bs' \<and> heap_area a bs' ds' \<subseteq> heap_area a bs ds
    \<and> (ds' = ds \<and> bs' = bs \<or> bs = [] \<and> ds = hd ds # ds')"
proof (cases "bs = []")
  case False
  then have "malloc_head (mem k) \<noteq> 0"
    using inv of_nat64_eq_0 [of a] by (cases bs) (auto simp: heap_inv_def hptr_def)
  with False inv show ?thesis
    by (intro exI [of _ bs] exI [of _ ds]) (simp add: abs_first_page_def malloc_first_page_def heap_keeps_def)
next
  case Nil: True
  have head: "malloc_head (mem k) = 0" using inv Nil by (simp add: heap_inv_def)
  show ?thesis
  proof (cases ds)
    case dNil: Nil
    have "fst (alloc_page k) = 0 \<and> mem (snd (alloc_page k)) = mem k"
      using heap_inv_pages [OF inv] dNil by (intro alloc_page_empty) simp
    then have "fst (malloc_first_page k) = False" "mem (snd (malloc_first_page k)) = mem k"
      using head by (simp_all add: malloc_first_page_def split_beta)
    with inv Nil dNil show ?thesis
      by (intro exI [of _ "[]"] exI [of _ "[]"]) (simp add: abs_first_page_def heap_keeps_def)
  next
    case (Cons d es)
    note inv' = inv [unfolded Nil Cons]
    have top: "heap_top a [] (d # es) \<le> 2 ^ 64" and ok: "descs_ok (d # es) a (heap_top a [] (d # es))"
      and p: "pseg (kram k) (d # es) a (free_pages_list (mem k))"
      using inv' by (simp_all add: heap_inv_def)
    note al = alloc_page_list [OF p ok order_refl, simplified, OF top [simplified]]
    let ?m = "alloc_page_ram d a (kram k)"
    let ?k = "snd (malloc_first_page k)"
    let ?g = "(mem k)\<lparr>ram := new_block_ram (of_nat a) True ?m,
        free_pages_list := page_next (kram k) (of_nat d),
        total_free_pages := total_free_pages (mem k) - 1, malloc_head := of_nat a\<rparr>"
    have ok1: "fst (malloc_first_page k)" and m: "mem ?k = ?g"
      using al head by (simp_all add: malloc_first_page_def split_beta Let_def new_block_ram_def)
    have "hseg (new_block_ram (of_nat a) True ?m) a ([] @ [(2097128, True)]) 0"
      using new_block_list by simp
    from page_appended [OF inv' this _ refl]
    have "heap_inv ?g a [(2097128, True)] es" "heap_keeps a [] (d # es) (kram k) (kram ?k)"
      using new_block_ram_frame by (simp_all add: m)
    then show ?thesis
      using ok1 unfolding Nil Cons m [symmetric]
      by (intro exI [of _ "[(2097128, True)]"] exI [of _ es])
        (auto simp: abs_first_page_def heap_area_def desc_cells_def)
  qed
qed

lemma new_page_refines:
  assumes inv: "heap_inv (mem k) a bs (d # ds)" and ne: "bs \<noteq> []"
    and n: "8 dvd n" "n \<le> 2097000" "0 < n"
  defines "r \<equiv> malloc_new_page (of_nat n) (of_nat (n + 24)) (of_nat (a + hlen (butlast bs))) k"
  shows "fst r = of_nat (a + hlen bs + 24)"
    and "heap_inv (mem (snd r)) a (bs @ carve n 2097128) ds"
    and "heap_keeps a bs (d # ds) (kram k) (kram (snd r))"
proof -
  obtain xs s f where bs: "bs = xs @ [(s, f)]" using ne by (cases bs rule: rev_cases) auto
  let ?v = "a + hlen bs" and ?c = "a + hlen xs"
  have top: "heap_top a bs (d # ds) \<le> 2 ^ 64" and ok: "descs_ok (d # ds) a (heap_top a bs (d # ds))"
    and p: "pseg (kram k) (d # ds) ?v (free_pages_list (mem k))"
    using inv by (simp_all add: heap_inv_def)
  have c0: "(of_nat ?c :: u64) \<noteq> 0"
    using of_nat64_eq_0 [of ?c] inv by (auto simp: heap_inv_def bs)
  define k1 where "k1 = snd (alloc_page k)"
  have page: "alloc_page k = (of_nat d, k1)" "(of_nat d :: u64) \<noteq> 0"
    using alloc_page_list(1,2) [OF p ok, of] top by (auto simp: k1_def prod_eq_iff)
  let ?m0 = "alloc_page_ram d ?v (kram k)"
  have k1: "mem k1 = (mem k)\<lparr>ram := ?m0, free_pages_list := page_next (kram k) (of_nat d),
      total_free_pages := total_free_pages (mem k) - 1\<rparr>"
    and v: "of_nat ?v = Phy_To_Virt (page_phy_addr (kram k1) (of_nat d))"
    using alloc_page_list(3,5) [OF p ok, of] top by (auto simp: k1_def)
  define m1 where "m1 = new_block_ram (of_nat ?v) False ?m0"
  define m2 where "m2 = set_hdr_next (of_nat ?c) (of_nat ?v) m1"
  have "hseg m1 a bs 0"
    using page_keeps_blocks [OF inv]
  proof (rule hseg_agree)
    fix x assume "x \<in> headers a bs"
    then have "x \<notin> span (of_nat ?v) 24"
      using headers_within [of a bs] span_apart [of a "hlen bs" ?v 24] top by auto
    then show "m1 x = ?m0 x" unfolding m1_def by (rule new_block_ram_frame)
  qed
  then have seg: "hseg m2 a (bs @ [(2097128, False)]) 0"
    using hseg_snoc [of m1 a xs s f "(2097128, False)"] new_block_list [of ?v False ?m0] top
    by (simp add: m1_def m2_def bs add.assoc)
  define g where "g = (mem k)\<lparr>ram := m2, free_pages_list := page_next (kram k) (of_nat d),
        total_free_pages := total_free_pages (mem k) - 1, malloc_head := of_nat a\<rparr>"
  have "m2 x = ?m0 x" if "x \<notin> headers a (bs @ [(2097128, False)])" for x
    using that by (auto simp: m1_def m2_def bs hdr_outside new_block_ram_frame add.assoc simp del: of_nat_add)
  then have app: "heap_inv g a (bs @ [(2097128, False)]) ds" "heap_keeps a bs (d # ds) (kram k) m2"
    using page_appended [OF inv seg _ g_def] by blast+
  have nx: "hdr_next m2 (of_nat ?v) = 0" using seg by (simp add: hseg_append)
  have ap: "span (of_nat ?v) 24 \<inter> span (of_nat ?v + of_nat (n + 24) :: u64) 24 = {}"
    using span_apart [of ?v 24 "?v + (n + 24)" 24] n top by simp
  have hd: "malloc_head (mem k) = of_nat a" using inv ne by (simp add: heap_inv_def hptr_def)
  have kr1: "kram k1 = ?m0" by (simp add: k1)
  have m2: "m2 = (if of_nat ?c \<noteq> (0 :: u64)
      then set_hdr_next (of_nat ?c) (of_nat ?v) (new_block_ram (of_nat ?v) False (kram k1))
      else new_block_ram (of_nat ?v) False (kram k1))"
    using c0 by (simp only: m2_def m1_def kr1 if_True not_False_eq_True)
  have r: "r = malloc_new_page (of_nat n) (of_nat (n + 24)) (of_nat ?c) k"
    by (simp add: r_def bs)
  note e = malloc_new_page_effect [OF page v m2 nx ap, of "of_nat n"]
  have eff: "fst r = of_nat ?v + 24" "mem (snd r) = (mem k1)\<lparr>ram := split_ram (of_nat n) (of_nat (n + 24)) (of_nat ?v) m2,
      malloc_total_allocated := malloc_total_allocated (mem k1) + of_nat n\<rparr>"
    using arg_cong [OF e(1), of fst] e(2) by (simp_all only: r fst_conv)
  have g: "mem (snd r) = g\<lparr>ram := split_ram (of_nat n) (of_nat (n + 24)) (of_nat ?v) m2,
      malloc_total_allocated := malloc_total_allocated (mem k1) + of_nat n\<rparr>"
    unfolding eff(2) using hd by (auto simp: g_def k1 intro!: memory.equality simp del: of_nat_add)
  show "fst r = of_nat (a + hlen bs + 24)" using eff(1) by simp
  have n': "n + 24 \<le> 2097128" using n by simp
  note sp = split_refines [OF app(1) n' n]
  have r2: "ram g = m2" by (simp add: g_def)
  show "heap_inv (mem (snd r)) a (bs @ carve n 2097128) ds"
    using sp(1) unfolding g by (simp add: r2 carve_split del: of_nat_add)
  have kr: "kram (snd r) = split_ram (of_nat n) (of_nat (n + 24)) (of_nat ?v) m2"
    unfolding g by (simp del: of_nat_add)
  show "heap_keeps a bs (d # ds) (kram k) (kram (snd r))"
    unfolding heap_keeps_def
  proof (intro allI impI)
    fix x assume x: "x \<in> payload a bs \<or> x \<notin> heap_area a bs (d # ds)"
    then have "x \<notin> span (of_nat ?v) (24 + 2097128)" using page_frame [OF inv x] by (simp del: of_nat_add)
    then have "kram (snd r) x = m2 x" using sp(2) [of x] by (simp only: kr r2 not_False_eq_True)
    with app(2) x show "kram (snd r) x = kram k x" by (auto simp: heap_keeps_def)
  qed
qed


lemma malloc_step:
  assumes inv: "heap_inv (mem k) a bs ds" and n: "n < 2 ^ 64"
  shows "\<exists>o' bs' ds' k'. abs_malloc n (bs, length ds) = (o', bs', length ds')
    \<and> malloc (of_nat n) k = Some (case o' of None \<Rightarrow> 0 | Some x \<Rightarrow> of_nat (a + x), k')
    \<and> heap_inv (mem k') a bs' ds' \<and> heap_keeps a bs ds (kram k) (kram k')
    \<and> heap_area a bs' ds' \<subseteq> heap_area a bs ds"
proof -
  have n0: "(of_nat n :: u64) = 0 \<longleftrightarrow> n = 0" using n by (rule of_nat64_eq_0)
  have nm: "(0x200000 - 24 - 128 :: u64) < of_nat n \<longleftrightarrow> 2097000 < n"
    using of_nat64_less [of 2097000 n] n by simp
  show ?thesis
  proof (cases "n = 0 \<or> 2097000 < n")
    case True
    then obtain k' where "malloc (of_nat n) k = Some (0, k')" "mem k' = mem k"
      using n0 nm by (auto simp: malloc_def)
    with True inv show ?thesis
      by (intro exI [of _ None] exI [of _ bs] exI [of _ ds] exI [of _ k'])
        (auto simp: abs_malloc_def heap_keeps_def)
  next
    case False
    define r where "r = round8 n"
    have r: "8 dvd r" "r \<le> 2097000" "0 < r"
      using round8_bounds [of n] False by (auto simp: r_def)
    have rw: "(of_nat n + 7) AND NOT 7 = (of_nat r :: u64)" "of_nat r + 24 = (of_nat (r + 24) :: u64)"
      using round8_word [of n] False by (simp_all add: r_def)
    define k1 where "k1 = snd (malloc_first_page k)"
    obtain b1 d1 where f: "abs_first_page (bs, length ds) = (b1, length d1)" "heap_inv (mem k1) a b1 d1"
        "fst (malloc_first_page k) = (b1 \<noteq> [])" "heap_keeps a bs ds (kram k) (kram k1)"
        "payload a bs \<subseteq> payload a b1" "heap_area a b1 d1 \<subseteq> heap_area a bs ds"
      using first_page_refines [OF inv] unfolding k1_def by blast
    have abs: "abs_malloc n (bs, length ds) = (if b1 = [] then (None, b1, length d1)
        else case take_first r b1 of Some (off, b2) \<Rightarrow> (Some (off + 24), b2, length d1)
          | None \<Rightarrow> if length d1 = 0 then (None, b1, length d1)
                    else (Some (hlen b1 + 24), b1 @ carve r 2097128, length d1 - 1))"
      using False f(1) unfolding abs_malloc_def r_def by simp
    have conc: "malloc (of_nat n) k = (if b1 = [] then Some (0, k1)
        else case malloc_find (kram k1) (of_nat (r + 24)) 0 (malloc_head (mem k1)) of
            None \<Rightarrow> None
          | Some (prev, current) \<Rightarrow> Some (if current \<noteq> 0 then malloc_take (of_nat r) (of_nat (r + 24)) current k1
              else malloc_new_page (of_nat r) (of_nat (r + 24)) prev k1))"
    proof -
      have nf: "(n = 0) = False" "(2097000 < n) = False" using False by auto
      show ?thesis
        using n0 nm f(3) by (simp only: malloc_def Let_def rw if_False k1_def split_beta simp_thms nf)
    qed
    show ?thesis
    proof (cases "b1 = []")
      case True
      with abs conc f show ?thesis
        by (intro exI [of _ None] exI [of _ b1] exI [of _ d1] exI [of _ k1]) simp
    next
      case ne: False
      have inv1: "hseg (kram k1) a b1 0" "0 < a" "a + hlen b1 \<le> 2 ^ 64" "malloc_head (mem k1) = hptr a b1 0"
        using f(2) by (simp_all add: heap_inv_def)
      show ?thesis
      proof (cases "take_first r b1")
        case (Some p)
        then obtain off b2 where p: "take_first r b1 = Some (off, b2)" by (cases p) auto
        then obtain xs s ys where xs: "b1 = xs @ (s, True) # ys" "off = hlen xs" "b2 = xs @ carve r s @ ys"
            "r + 24 \<le> s"
          by (rule take_first_split)
        have c0: "(of_nat (a + off) :: u64) \<noteq> 0"
          using of_nat64_eq_0 [of "a + off"] inv1 by (auto simp: xs)
        obtain prev where "malloc_find (kram k1) (of_nat (r + 24)) 0 (hptr a b1 0) = Some (prev, of_nat (a + off))"
          using malloc_find_list [OF inv1(1-3), of r 0] r p by auto
        then have res: "malloc (of_nat n) k = Some (malloc_take (of_nat r) (of_nat (r + 24)) (of_nat (a + off)) k1)"
          using ne c0 by (simp add: conc inv1(4))
        define k2 where "k2 = snd (malloc_take (of_nat r) (of_nat (r + 24)) (of_nat (a + hlen xs)) k1)"
        note t = malloc_take_refines [OF f(2) [unfolded xs(1)] xs(4) r, folded k2_def xs(3), folded xs(1)]
        have "heap_keeps a bs ds (kram k) (kram k2)"
          using heap_keeps_trans [OF f(4) t(2) f(5,6)] .
        moreover have "malloc (of_nat n) k = Some (of_nat (a + (off + 24)), k2)"
          unfolding res k2_def xs(2) by (simp add: prod_eq_iff malloc_take_effect)
        moreover have "heap_area a b2 d1 = heap_area a b1 d1"
          by (simp add: heap_area_def xs hlen_carve)
        ultimately show ?thesis
          using ne abs p f(6) t(1)
          by (intro exI [of _ "Some (off + 24)"] exI [of _ b2] exI [of _ d1] exI [of _ k2]) simp
      next
        case None
        obtain prev where pf: "malloc_find (kram k1) (of_nat (r + 24)) 0 (hptr a b1 0)
            = Some (of_nat (a + hlen (butlast b1)), 0)"
          using malloc_find_list [OF inv1(1-3), of r 0] r None ne by auto
        then have res: "malloc (of_nat n) k
            = Some (malloc_new_page (of_nat r) (of_nat (r + 24)) (of_nat (a + hlen (butlast b1))) k1)"
          using ne by (simp add: conc inv1(4))
        show ?thesis
        proof (cases d1)
          case Nil
          then have "fst (alloc_page k1) = 0 \<and> mem (snd (alloc_page k1)) = mem k1"
            using heap_inv_pages [OF f(2)] by (intro alloc_page_empty) simp
          then obtain k2 where "malloc_new_page (of_nat r) (of_nat (r + 24)) (of_nat (a + hlen (butlast b1))) k1 = (0, k2)"
              "mem k2 = mem k1"
            by (cases "alloc_page k1") (simp add: malloc_new_page_def)
          with res ne abs None Nil f show ?thesis
            by (intro exI [of _ "None :: nat option"] exI [of _ b1] exI [of _ d1] exI [of _ k2]) simp
        next
          case (Cons d es)
          define k2 where "k2 = snd (malloc_new_page (of_nat r) (of_nat (r + 24)) (of_nat (a + hlen (butlast b1))) k1)"
          note t = new_page_refines [OF f(2) [unfolded Cons] ne r, folded k2_def]
          have "heap_keeps a bs ds (kram k) (kram k2)"
            using heap_keeps_trans [OF f(4) t(3) f(5) f(6) [unfolded Cons]] .
          moreover have "malloc (of_nat n) k = Some (of_nat (a + (hlen b1 + 24)), k2)"
            using t(1) unfolding res k2_def by (simp add: prod_eq_iff add.assoc)
          moreover have "heap_area a (b1 @ carve r 2097128) es \<subseteq> heap_area a b1 d1"
            by (auto simp: heap_area_def hlen_carve Cons desc_cells_def add.assoc)
          ultimately show ?thesis
            using ne abs None Cons f(6) t(2)
            by (intro exI [of _ "Some (hlen b1 + 24)"] exI [of _ "b1 @ carve r 2097128"] exI [of _ es] exI [of _ k2])
              auto
        qed
      qed
    qed
  qed
qed



subsection \<open>\<open>free\<close> refines marking and coalescing\<close>

fun release :: "nat \<Rightarrow> blocks \<Rightarrow> blocks" where
  "release x [] = []"
| "release x ((s, f) # bs) = (if x = 24 then (s, True) # bs else (s, f) # release (x - (24 + s)) bs)"

definition abs_free :: "nat \<Rightarrow> blocks \<times> nat \<Rightarrow> blocks \<times> nat" where
  "abs_free x st = (merge (release x (fst st)), snd st)"

lemma live_split:
  assumes "(a + x, s) \<in> live a bs"
  shows "\<exists>xs ys. bs = xs @ (s, False) # ys \<and> x = hlen xs + 24 \<and> release x bs = xs @ (s, True) # ys"
  using assms
proof (induction a bs arbitrary: x rule: live.induct)
  case (2 a t f bs)
  have above: "a' < fst p" if "p \<in> live a' bs'" for p a' bs'
    using that by (induction a' bs' rule: live.induct) (auto split: if_splits)
  show ?case
  proof (cases "x = 24")
    case True
    have "(a + 24, s) \<notin> live (a + 24 + t) bs" using above by fastforce
    with True 2(2) have "\<not> f" "s = t" by (auto split: if_splits)
    with True show ?thesis by (intro exI [of _ "[]"] exI [of _ bs]) auto
  next
    case False
    then have m: "(a + x, s) \<in> live (a + 24 + t) bs" using 2(2) by (auto split: if_splits)
    then have "a + 24 + t < a + x" using above by fastforce
    then obtain y where y: "x = 24 + t + y" by (metis add.assoc add_less_cancel_left less_imp_add_positive)
    with m have "(a + 24 + t + y, s) \<in> live (a + 24 + t) bs" by (simp add: add.assoc)
    from 2(1) [OF this] obtain xs ys where "bs = xs @ (s, False) # ys" "y = hlen xs + 24"
        "release y bs = xs @ (s, True) # ys" by blast
    with y False show ?thesis by (intro exI [of _ "(t, f) # xs"] exI [of _ ys]) (auto simp: add.commute)
  qed
qed simp

lemma release_append: "release (hlen xs + 24) (xs @ (s, f) # ys) = xs @ (s, True) # ys"
proof (induction xs)
  case (Cons b xs)
  obtain t g where "b = (t, g)" by fastforce
  with Cons show ?case by (simp add: add.commute)
qed simp

lemma blocks_ok_merge: "blocks_ok bs \<Longrightarrow> blocks_ok (merge bs)"
  by (induction bs rule: merge.induct) auto

lemma merge_eq_Nil [simp]: "merge bs = [] \<longleftrightarrow> bs = []"
  by (induction bs rule: merge.induct) auto

lemma free_step:
  fixes k :: "'a kmem_scheme"
  assumes inv: "heap_inv (mem k) a bs ds" and x: "(a + x, s) \<in> live a bs"
  shows "\<exists>k'. free (of_nat (a + x)) k = Some k'
    \<and> heap_inv (mem k') a (fst (abs_free x (bs, length ds))) ds
    \<and> (\<forall>y. y \<notin> headers a bs \<longrightarrow> kram k' y = kram k y)"
proof -
  obtain xs ys where bs: "bs = xs @ (s, False) # ys" "x = hlen xs + 24"
    using live_split [OF x] by blast
  let ?c = "a + hlen xs" and ?rs = "xs @ (s, True) # ys"
  let ?kc = "\<lambda>m t. (mem k)\<lparr>ram := m, malloc_total_freed := malloc_total_freed (mem k) + t\<rparr>"
  have top: "heap_top a bs ds \<le> 2 ^ 64" using inv by (simp add: heap_inv_def)
  have s: "0 < s" "s \<le> 2097152" using inv by (simp_all add: heap_inv_def bs)
  have p: "(of_nat (a + x) :: u64) \<noteq> 0" "of_nat (a + x) - 24 = (of_nat ?c :: u64)"
    using of_nat64_eq_0 [of "a + x"] inv top s by (auto simp: heap_inv_def bs)
  have ux: "unat (of_nat (a + x) :: u64) = a + x"
    using top s by (intro unat_of_nat64) (simp add: bs)
  have range: "\<not> (of_nat (a + x) < Phy_To_Virt (kernel_heap_start (mem k))
      \<or> Phy_To_Virt (kernel_heap_end (mem k)) \<le> of_nat (a + x))"
    unfolding word_less_nat_alt word_le_nat_alt ux
    using inv s by (simp add: heap_inv_def bs)
  have hs: "hdr_size (kram k) (of_nat ?c) = of_nat s" using inv by (simp add: heap_inv_def hseg_append bs)
  have small: "\<not> 0x200000 < (of_nat s :: u64)"
    using of_nat64_less [of 2097152 s] s by simp
  let ?m = "set_hdr_is_free (of_nat ?c) 1 (kram k)"
  have inv1: "heap_inv ((mem k)\<lparr>ram := ?m\<rparr>) a ?rs ds"
    using set_free_refines(1) [OF inv [unfolded bs(1)], of 1] by simp
  obtain k1 :: "'a kmem_scheme" and k3 where conc: "free (of_nat (a + x)) k = (case free_merge (malloc_head (mem k)) k1 of
        None \<Rightarrow> None | Some k2 \<Rightarrow> Some (k3 k2))"
      and k1: "mem k1 = ?kc ?m (of_nat s)" and k3: "\<And>k2. mem (k3 k2) = mem k2"
  proof -
    let ?k0 = "malloc_debug (''Kernel heap phys: 0x%016lx - 0x%016lx'' @ NL)
        [ArgW (kernel_heap_start (mem k)), ArgW (kernel_heap_end (mem k))]
      (malloc_debug (''Pointer addr: 0x%016lx'' @ NL) [ArgW (of_nat (a + x))]
      (malloc_debug (''Heap virt range: 0x%016lx - 0x%016lx'' @ NL)
        [ArgW (Phy_To_Virt (kernel_heap_start (mem k))), ArgW (Phy_To_Virt (kernel_heap_end (mem k)))]
      (malloc_debug (''Checking pointer %p'' @ NL) [ArgW (of_nat (a + x))] k)))"
    let ?k1 = "(set_ram ?m ?k0)\<lparr>mem := ?kc ?m (of_nat s)\<rparr>"
    let ?k3 = "\<lambda>k2 :: 'a kmem_scheme. malloc_debug (''Stats: allocated=%lu, freed=%lu'' @ NL)
        [ArgW (malloc_total_allocated (mem k2)), ArgW (malloc_total_freed (mem k2))]
      (malloc_debug (''Freed memory at %p, size: %lu bytes'' @ NL)
        [ArgW (of_nat (a + x)), ArgW (hdr_size (kram k2) (of_nat ?c))] k2)"
    have "free (of_nat (a + x)) k = (case free_merge (malloc_head (mem k)) ?k1 of
        None \<Rightarrow> None | Some k2 \<Rightarrow> Some (?k3 k2))"
      using p range hs small unfolding free_def
      by (simp add: Let_def p(2) hs del: of_nat_add split: option.split)
    then show thesis by (rule that [of ?k3 ?k1]) simp_all
  qed
  have "hseg (kram k1) a ?rs 0" "0 < a" "a + hlen ?rs \<le> 2 ^ 64"
    using inv1 by (simp_all add: heap_inv_def k1)
  from free_merge_list [OF this] obtain k2 m' where k2: "free_merge (hptr a ?rs 0) k1 = Some k2"
      "mem k2 = (mem k1)\<lparr>ram := m'\<rparr>" "hseg m' a (merge ?rs) 0"
      "\<forall>y. y \<notin> headers a ?rs \<longrightarrow> m' y = kram k1 y"
    by blast
  have hd: "malloc_head (mem k) = hptr a ?rs 0" using inv by (simp add: heap_inv_def bs hptr_def)
  have rel: "fst (abs_free x (bs, length ds)) = merge ?rs"
    by (simp add: abs_free_def bs release_append)
  have hdr: "headers a ?rs = headers a bs" by (simp add: bs)
  have "heap_inv (((mem k)\<lparr>ram := ?m\<rparr>)\<lparr>ram := m'\<rparr>) a (merge ?rs) ds"
  proof (rule heap_inv_rewrite [OF inv1 k2(3)])
    fix y assume "y \<notin> span (of_nat a) (hlen ?rs)"
    then have "y \<notin> headers a ?rs" using headers_within [of a ?rs] top by (auto simp: bs)
    with k2(4) k1 show "m' y = ram ((mem k)\<lparr>ram := ?m\<rparr>) y" by simp
  qed (use inv1 in \<open>auto simp: blocks_ok_merge heap_inv_def\<close>)
  then have "heap_inv (mem (k3 k2)) a (merge ?rs) ds"
    by (simp add: k3 k2(2) k1)
  moreover have "kram (k3 k2) y = kram k y" if "y \<notin> headers a bs" for y
  proof -
    have "y \<notin> span (of_nat ?c) 24" using that by (simp add: bs)
    then have "?m y = kram k y" by (rule hdr_free.put_outside)
    moreover have "m' y = kram k1 y" using k2(4) that unfolding hdr by blast
    moreover have "kram k1 = ?m" by (simp add: k1 del: of_nat_add)
    ultimately show ?thesis by (simp add: k3 k2(2))
  qed
  moreover have "free (of_nat (a + x)) k = Some (k3 k2)"
    unfolding conc hd k2(1) by simp
  ultimately show ?thesis unfolding rel by blast
qed

subsection \<open>Blocks in use\<close>

lemma live_bounds: "(x, s) \<in> live a bs \<Longrightarrow> a + 24 \<le> x \<and> x + s \<le> a + hlen bs"
proof (induction a bs rule: live.induct)
  case (2 a t f bs)
  then show ?case by (cases "(x, s) \<in> live (a + 24 + t) bs") (auto split: if_splits)
qed simp

lemma live_apart:
  "(x, s) \<in> live a bs \<Longrightarrow> (y, t) \<in> live a bs \<Longrightarrow> (x, s) \<noteq> (y, t) \<Longrightarrow> x + s + 24 \<le> y \<or> y + t + 24 \<le> x"
proof (induction a bs rule: live.induct)
  case (2 a u f bs)
  have b: "(z, r) \<in> live (a + 24 + u) bs \<Longrightarrow> a + 24 + u + 24 \<le> z" for z r
    using live_bounds by blast
  show ?case
  proof (cases "(x, s) \<in> live (a + 24 + u) bs \<and> (y, t) \<in> live (a + 24 + u) bs")
    case True
    with 2 show ?thesis by blast
  next
    case False
    with "2.prems" b [of x s] b [of y t] show ?thesis by (auto split: if_splits)
  qed
qed simp

lemma live_shift: "(a + x, s) \<in> live a bs \<longleftrightarrow> (x, s) \<in> live 0 bs"
proof -
  have "live (a + b) bs = (\<lambda>(x, s). (a + x, s)) ` live b bs" for b
    by (induction b bs rule: live.induct) (auto simp: image_Un add.assoc)
  from this [of 0] show ?thesis by auto
qed

lemma live_pos: "blocks_ok bs \<Longrightarrow> (x, s) \<in> live a bs \<Longrightarrow> 0 < s \<and> s \<le> 2097152"
  by (induction a bs rule: live.induct) (auto split: if_splits)

text \<open>Addresses of blocks in use, as words, are nonzero and distinct.\<close>

lemma live_address:
  assumes "heap_inv g a bs ds" and "(x, s) \<in> live a bs"
  shows "0 < x" and "x < 2 ^ 64" and "x + s \<le> 2 ^ 64" and "0 < s" and "s \<le> 2097152"
  using assms live_bounds [OF assms(2)] live_pos [OF _ assms(2)] by (auto simp: heap_inv_def)

lemma live_carve:
  assumes "n + 24 \<le> s"
  shows "\<exists>t\<ge>n. live a (carve n s) = {(a + 24, t)}"
  using assms by (auto simp: carve_def)

lemma abs_malloc_live:
  assumes "abs_malloc n (bs, p) = (Some x, bs', p')"
  shows "\<exists>s\<ge>n. live a bs' = insert (a + x, s) (live a bs) \<and> (\<forall>t. (a + x, t) \<notin> live a bs)"
proof -
  obtain b1 p1 where f: "abs_first_page (bs, p) = (b1, p1)" by fastforce
  have l1: "live a b1 = live a bs" using f by (auto simp: abs_first_page_def split: if_splits)
  have n: "\<not> (n = 0 \<or> 2097000 < n)" "b1 \<noteq> []" using assms f by (auto simp: abs_malloc_def split: if_splits)
  have r: "n \<le> round8 n" "round8 n \<le> 2097000" using round8_bounds [of n] n by auto
  show ?thesis
  proof (cases "take_first (round8 n) b1")
    case None
    then have eq: "x = hlen b1 + 24" "bs' = b1 @ carve (round8 n) 2097128"
      using assms n f by (auto simp: abs_malloc_def split: if_splits)
    obtain t where t: "round8 n \<le> t" "live (a + hlen b1) (carve (round8 n) 2097128) = {(a + hlen b1 + 24, t)}"
      using live_carve [of "round8 n" 2097128 "a + hlen b1"] r by auto
    have "(a + hlen b1 + 24, u) \<notin> live a b1" for u using live_bounds [of _ u a b1] by fastforce
    with t r show ?thesis by (intro exI [of _ t]) (auto simp: eq l1 [symmetric] add.assoc)
  next
    case (Some q)
    then obtain off b2 where q: "take_first (round8 n) b1 = Some (off, b2)" by (cases q) auto
    then obtain xs s ys where xs: "b1 = xs @ (s, True) # ys" "off = hlen xs" "b2 = xs @ carve (round8 n) s @ ys"
        "round8 n + 24 \<le> s"
      by (rule take_first_split)
    have eq: "x = off + 24" "bs' = b2" using assms n f q by (auto simp: abs_malloc_def)
    obtain t where t: "round8 n \<le> t" "live (a + hlen xs) (carve (round8 n) s) = {(a + hlen xs + 24, t)}"
      using live_carve xs(4) by blast
    have "(a + (hlen xs + 24), u) \<notin> live a b1" for u
      using live_bounds [of "a + (hlen xs + 24)" u a xs] live_bounds [of "a + (hlen xs + 24)" u "a + hlen xs + 24 + s" ys]
      by (auto simp: xs)
    then show ?thesis
      using t r by (intro exI [of _ t]) (auto simp: eq l1 [symmetric] xs hlen_carve add.assoc)
  qed
qed

lemma abs_malloc_None_live:
  "abs_malloc n (bs, p) = (None, bs', p') \<Longrightarrow> live a bs' = live a bs"
  by (auto simp: abs_malloc_def abs_first_page_def split: if_splits option.splits)

lemma abs_free_live:
  assumes "(a + x, s) \<in> live a bs"
  shows "live a (fst (abs_free x (bs, p))) = live a bs - {(a + x, s)}"
proof -
  obtain xs ys where bs: "bs = xs @ (s, False) # ys" "x = hlen xs + 24" "release x bs = xs @ (s, True) # ys"
    using live_split [OF assms] by blast
  have "(a + x, s) \<notin> live a xs" "(a + x, s) \<notin> live (a + hlen xs + 24 + s) ys"
    using live_bounds [of "a + x" s a xs] live_bounds [of "a + x" s "a + hlen xs + 24 + s" ys] bs(2) by auto
  then show ?thesis
    by (simp add: abs_free_def bs(3)) (auto simp: bs(1,2) add.assoc)
qed


subsection \<open>Runs of the allocator\<close>

datatype heap_op = Malloc nat | Free nat

fun heap_step :: "nat \<Rightarrow> heap_op \<Rightarrow> 'a kmem_scheme \<Rightarrow> 'a kmem_scheme option" where
  "heap_step a (Malloc n) k = map_option snd (malloc (of_nat n) k)"
| "heap_step a (Free x) k = free (of_nat (a + x)) k"

fun abs_heap_step :: "heap_op \<Rightarrow> blocks \<times> nat \<Rightarrow> blocks \<times> nat" where
  "abs_heap_step (Malloc n) st = snd (abs_malloc n st)"
| "abs_heap_step (Free x) st = abs_free x st"

text \<open>Requests are 64-bit numbers; only blocks in use are freed.\<close>

fun heap_legal :: "heap_op \<Rightarrow> blocks \<times> nat \<Rightarrow> bool" where
  "heap_legal (Malloc n) st \<longleftrightarrow> n < 2 ^ 64"
| "heap_legal (Free x) st \<longleftrightarrow> x \<in> fst ` live 0 (fst st)"

definition heap_rel :: "nat \<Rightarrow> 'a kmem_scheme \<Rightarrow> blocks \<times> nat \<Rightarrow> bool" where
  "heap_rel a k st \<longleftrightarrow> (\<exists>ds. heap_inv (mem k) a (fst st) ds \<and> snd st = length ds)"

lemma heap_rel_mem: "mem k' = mem k \<Longrightarrow> heap_rel a k' st \<longleftrightarrow> heap_rel a k st"
  by (simp add: heap_rel_def split_beta)

interpretation heap_sim: simulation "heap_rel a" "heap_step a" abs_heap_step heap_legal for a
proof unfold_locales
  fix k :: "'a kmem_scheme" and st e
  assume "heap_rel a k st" and legal: "heap_legal e st"
  then obtain bs ds where st: "st = (bs, length ds)" "heap_inv (mem k) a bs ds"
    by (cases st) (auto simp: heap_rel_def)
  show "\<exists>k'. heap_step a e k = Some k' \<and> heap_rel a k' (abs_heap_step e st)"
  proof (cases e)
    case (Malloc n)
    with legal have "n < 2 ^ 64" by simp
    from malloc_step [OF st(2) this] show ?thesis
      by (fastforce simp: Malloc st(1) heap_rel_def)
  next
    case (Free x)
    with legal st(1) obtain s where "(x, s) \<in> live 0 bs" by auto
    then have "(a + x, s) \<in> live a bs" by (simp add: live_shift)
    from free_step [OF st(2) this] show ?thesis
      by (auto simp: Free st(1) heap_rel_def abs_free_def)
  qed
qed


subsection \<open>The allocator's interface\<close>

text \<open>
  What the rest of the kernel may rely on. \<open>R k g\<close>: state \<open>k\<close> is sound, with ghost state \<open>g\<close>;
  \<open>owned g\<close> are the buffers handed out, with their lengths.
\<close>

locale allocator =
  fixes R :: "'s \<Rightarrow> 'g \<Rightarrow> bool"
    and owned :: "'g \<Rightarrow> (u64 \<times> nat) set"
    and bytes :: "'s \<Rightarrow> ram"
    and alloc :: "nat \<Rightarrow> 's \<Rightarrow> (u64 \<times> 's) option"
    and dealloc :: "u64 \<Rightarrow> 's \<Rightarrow> 's option"
  assumes alloc_law: "R s g \<Longrightarrow> n < 2 ^ 64 \<Longrightarrow> \<exists>p s' g'. alloc n s = Some (p, s') \<and> R s' g'
      \<and> (\<forall>(q, l)\<in>owned g. \<forall>x\<in>span q l. bytes s' x = bytes s x)
      \<and> (p = 0 \<and> owned g' = owned g
          \<or> p \<noteq> 0 \<and> (\<exists>m\<ge>n. (p, m) \<notin> owned g \<and> owned g' = insert (p, m) (owned g)))"
    and dealloc_law: "R s g \<Longrightarrow> (p, m) \<in> owned g \<Longrightarrow> \<exists>s' g'. dealloc p s = Some s' \<and> R s' g'
      \<and> owned g' = owned g - {(p, m)}
      \<and> (\<forall>(q, l)\<in>owned g. \<forall>x\<in>span q l. bytes s' x = bytes s x)"
    and disjoint: "R s g \<Longrightarrow> (p, m) \<in> owned g \<Longrightarrow> (q, l) \<in> owned g \<Longrightarrow> (p, m) \<noteq> (q, l)
      \<Longrightarrow> span p m \<inter> span q l = {}"
begin

text \<open>A buffer that is taken and given back leaves the owned buffers and their bytes as they were.\<close>

lemma scratch_buffer:
  assumes "R s g" and "n < 2 ^ 64"
  shows "\<exists>p s1. alloc n s = Some (p, s1) \<and> (p = 0 \<or> (\<exists>s2 g2. dealloc p s1 = Some s2 \<and> R s2 g2
    \<and> owned g2 = owned g \<and> (\<forall>(q, l)\<in>owned g. \<forall>x\<in>span q l. bytes s2 x = bytes s x)))"
proof -
  obtain p s1 g1 where a: "alloc n s = Some (p, s1)" "R s1 g1"
      "\<forall>(q, l)\<in>owned g. \<forall>x\<in>span q l. bytes s1 x = bytes s x"
      "p = 0 \<and> owned g1 = owned g
          \<or> p \<noteq> 0 \<and> (\<exists>m\<ge>n. (p, m) \<notin> owned g \<and> owned g1 = insert (p, m) (owned g))"
    using alloc_law [OF assms] by blast
  show ?thesis
  proof (cases "p = 0")
    case False
    with a(4) obtain m where m: "(p, m) \<notin> owned g" "owned g1 = insert (p, m) (owned g)" by blast
    then have "(p, m) \<in> owned g1" by simp
    from dealloc_law [OF a(2) this] obtain s2 g2 where "dealloc p s1 = Some s2" "R s2 g2"
        "owned g2 = owned g1 - {(p, m)}" "\<forall>(q, l)\<in>owned g1. \<forall>x\<in>span q l. bytes s2 x = bytes s1 x"
      by blast
    with a m show ?thesis by fastforce
  qed (use a in blast)
qed

text \<open>An address is handed out with one size only.\<close>

lemma same_block:
  assumes "R s g" and "(p, m) \<in> owned g" and "(p, l) \<in> owned g" and "0 < m" and "0 < l"
  shows "m = l"
proof (rule ccontr)
  assume "m \<noteq> l"
  then have "span p m \<inter> span p l = {}" using disjoint [OF assms(1-3)] by simp
  moreover have "p \<in> span p m \<inter> span p l" using assms(4,5) by (cases m; cases l) (simp_all add: span_Suc)
  ultimately show False by blast
qed

text \<open>A new buffer does not overlap the ones handed out before.\<close>

lemma fresh_buffer:
  assumes "R s g" and "n < 2 ^ 64" and "alloc n s = Some (p, s')" and "p \<noteq> 0" and "(q, l) \<in> owned g"
  shows "\<exists>m\<ge>n. span p m \<inter> span q l = {}"
proof -
  obtain g' m where "R s' g'" "m \<ge> n" "(p, m) \<notin> owned g" "owned g' = insert (p, m) (owned g)"
    using alloc_law [OF assms(1,2)] assms(3,4) by auto
  with disjoint [of s' g' p m q l] assms(5) show ?thesis by blast
qed

end

definition heap_owned :: "nat \<Rightarrow> blocks \<times> nat \<Rightarrow> (u64 \<times> nat) set" where
  "heap_owned a st = (\<lambda>(x, s). (of_nat x, s)) ` live a (fst st)"

lemma heap_owned_bytes:
  "x \<in> payload a bs \<longleftrightarrow> (\<exists>(q, l)\<in>heap_owned a (bs, p). x \<in> span q l)"
  by (auto simp: heap_owned_def payload_def split_beta)

text \<open>With a page left, a request of at most a page is granted, and takes at most one page.\<close>

lemma abs_malloc_pages:
  assumes "0 < n" and "n \<le> 2097000" and "0 < p"
  shows "fst (abs_malloc n (bs, p)) \<noteq> None" and "p \<le> snd (snd (abs_malloc n (bs, p))) + 1"
proof -
  have "round8 n \<le> 2097000" using round8_bounds(4) assms(2) by blast
  then have "fits (round8 n + 24) (2097128, True)" by (simp add: fits_def)
  then show "fst (abs_malloc n (bs, p)) \<noteq> None" "p \<le> snd (snd (abs_malloc n (bs, p))) + 1"
    using assms by (auto simp: abs_malloc_def abs_first_page_def split: option.split)
qed

lemma malloc_contract:
  fixes k :: "'a kmem_scheme"
  assumes "heap_rel a k st" and n: "n < (2::nat) ^ 64"
  shows "\<exists>p k' g'. malloc (of_nat n) k = Some (p, k') \<and> heap_rel a k' g'
      \<and> (\<forall>(q, l)\<in>heap_owned a st. \<forall>x\<in>span q l. kram k' x = kram k x)
      \<and> (p = 0 \<and> heap_owned a g' = heap_owned a st
          \<or> p \<noteq> 0 \<and> (\<exists>m\<ge>n. (p, m) \<notin> heap_owned a st \<and> heap_owned a g' = insert (p, m) (heap_owned a st)))
      \<and> (0 < n \<and> n \<le> 2097000 \<and> 0 < snd st \<longrightarrow> p \<noteq> 0 \<and> snd st \<le> snd g' + 1)"
proof -
  from assms(1) obtain bs ds where st: "st = (bs, length ds)" and inv: "heap_inv (mem k) a bs ds"
    by (cases st) (auto simp: heap_rel_def)
  obtain o' bs' ds' k' where m: "abs_malloc n (bs, length ds) = (o', bs', length ds')"
      "malloc (of_nat n) k = Some (case o' of None \<Rightarrow> 0 | Some x \<Rightarrow> of_nat (a + x), k')"
      "heap_inv (mem k') a bs' ds'" "heap_keeps a bs ds (kram k) (kram k')"
    using malloc_step [OF inv n] by blast
  have keep: "\<forall>(q, l)\<in>heap_owned a st. \<forall>x\<in>span q l. kram k' x = kram k x"
    using m(4) heap_owned_bytes [of _ a bs "length ds"] by (fastforce simp: heap_keeps_def st)
  show ?thesis
  proof (intro exI conjI)
    show "malloc (of_nat n) k = Some (case o' of None \<Rightarrow> 0 | Some x \<Rightarrow> of_nat (a + x), k')" by (rule m(2))
    show "heap_rel a k' (bs', length ds')" using m(3) by (auto simp: heap_rel_def)
    show "\<forall>(q, l)\<in>heap_owned a st. \<forall>x\<in>span q l. kram k' x = kram k x" by (rule keep)
    have nz: "(case o' of None \<Rightarrow> 0 | Some x \<Rightarrow> of_nat (a + x)) = (0 :: u64) \<longleftrightarrow> o' = None"
    proof (cases o')
      case (Some x)
      then obtain s where "live a bs' = insert (a + x, s) (live a bs)"
        using abs_malloc_live [of n bs "length ds" x bs' "length ds'" a] m(1) by auto
      then have "(a + x, s) \<in> live a bs'" by simp
      note ax = live_address [OF m(3) this]
      with ax(1) show ?thesis using of_nat64_eq_0 [OF ax(2)] Some by simp
    qed simp
    show "0 < n \<and> n \<le> 2097000 \<and> 0 < snd st \<longrightarrow> (case o' of None \<Rightarrow> 0 | Some x \<Rightarrow> of_nat (a + x)) \<noteq> (0 :: u64)
        \<and> snd st \<le> snd (bs', length ds') + 1"
      using abs_malloc_pages [of n "length ds" bs] unfolding nz by (auto simp: st m(1))
    let ?p = "(case o' of None \<Rightarrow> 0 | Some x \<Rightarrow> of_nat (a + x)) :: u64"
    show "?p = 0 \<and> heap_owned a (bs', length ds') = heap_owned a st
          \<or> ?p \<noteq> 0 \<and> (\<exists>m\<ge>n. (?p, m) \<notin> heap_owned a st
              \<and> heap_owned a (bs', length ds') = insert (?p, m) (heap_owned a st))"
    proof (cases o')
      case None
      with m(1) abs_malloc_None_live [of n bs "length ds" bs' "length ds'" a] show ?thesis
        by (simp add: heap_owned_def st)
    next
      case (Some x)
      then obtain s where s: "n \<le> s" "live a bs' = insert (a + x, s) (live a bs)" "\<forall>t. (a + x, t) \<notin> live a bs"
        using abs_malloc_live [of n bs "length ds" x bs' "length ds'" a] m(1) by auto
      have "(a + x, s) \<in> live a bs'" using s(2) by simp
      note ax = live_address [OF m(3) this]
      have "(of_nat (a + x), t) \<notin> heap_owned a st" for t
      proof
        assume "(of_nat (a + x), t) \<in> heap_owned a st"
        then obtain y where y: "(y, t) \<in> live a bs" "(of_nat y :: u64) = of_nat (a + x)"
          by (auto simp: heap_owned_def st)
        then have "y = a + x"
          using live_address(2) [OF inv y(1)] ax(2) by (metis unat_of_nat64)
        with y(1) s(3) show False by simp
      qed
      moreover have "(of_nat (a + x) :: u64) \<noteq> 0"
        using ax(1) unfolding of_nat64_eq_0 [OF ax(2)] by simp
      moreover have "heap_owned a (bs', length ds') = insert (of_nat (a + x), s) (heap_owned a st)"
        by (auto simp: heap_owned_def st s(2))
      ultimately show ?thesis using s(1) unfolding Some option.case by blast
    qed
  qed
qed

interpretation kheap: allocator "heap_rel a" "heap_owned a" kram "\<lambda>n. malloc (of_nat n)" free for a
proof unfold_locales
  show "\<exists>p k' g'. malloc (of_nat n) k = Some (p, k') \<and> heap_rel a k' g'
      \<and> (\<forall>(q, l)\<in>heap_owned a st. \<forall>x\<in>span q l. kram k' x = kram k x)
      \<and> (p = 0 \<and> heap_owned a g' = heap_owned a st
          \<or> p \<noteq> 0 \<and> (\<exists>m\<ge>n. (p, m) \<notin> heap_owned a st \<and> heap_owned a g' = insert (p, m) (heap_owned a st)))"
    if "heap_rel a k st" and "n < (2::nat) ^ 64" for k :: "'a kmem_scheme" and st n
    using malloc_contract [OF that] by blast
next
  fix k :: "'a kmem_scheme" and st p m
  assume "heap_rel a k st" and p: "(p, m) \<in> heap_owned a st"
  then obtain bs ds where st: "st = (bs, length ds)" and inv: "heap_inv (mem k) a bs ds"
    by (cases st) (auto simp: heap_rel_def)
  obtain z where z: "(z, m) \<in> live a bs" "p = of_nat z" using p by (auto simp: heap_owned_def st)
  then obtain x where x: "z = a + x" using live_bounds [OF z(1)] by (metis add.assoc le_Suc_ex)
  obtain k' where k': "free (of_nat (a + x)) k = Some k'"
      "heap_inv (mem k') a (fst (abs_free x (bs, length ds))) ds"
      "\<forall>y. y \<notin> headers a bs \<longrightarrow> kram k' y = kram k y"
    using free_step [OF inv] z x by blast
  have "\<forall>(q, l)\<in>heap_owned a st. \<forall>x\<in>span q l. kram k' x = kram k x"
    using k'(3) payload_headers [of a bs] inv heap_owned_bytes [of _ a bs "length ds"]
    by (fastforce simp: st heap_inv_def)
  moreover have "heap_owned a (abs_free x st) = heap_owned a st - {(p, m)}"
  proof -
    have "of_nat y \<noteq> p" if "(y, t) \<in> live a bs" "y \<noteq> z" for y t
      using that live_address(2) [OF inv that(1)] live_address(2) [OF inv z(1)] z(2) by (metis unat_of_nat64)
    moreover have "live a (fst (abs_free x st)) = live a bs - {(z, m)}"
      using abs_free_live z(1) x by (simp add: st)
    ultimately show ?thesis by (auto simp: heap_owned_def st z(2))
  qed
  moreover have "heap_rel a k' (abs_free x st)" using k'(2) by (auto simp: heap_rel_def abs_free_def st)
  ultimately show "\<exists>k' g'. free p k = Some k' \<and> heap_rel a k' g' \<and> heap_owned a g' = heap_owned a st - {(p, m)}
      \<and> (\<forall>(q, l)\<in>heap_owned a st. \<forall>x\<in>span q l. kram k' x = kram k x)"
    using k'(1) x z(2) by blast
next
  fix k :: "'a kmem_scheme" and st p m q l
  assume "heap_rel a k st" and p: "(p, m) \<in> heap_owned a st" "(q, l) \<in> heap_owned a st" "(p, m) \<noteq> (q, l)"
  then obtain bs ds where st: "st = (bs, length ds)" and inv: "heap_inv (mem k) a bs ds"
    by (cases st) (auto simp: heap_rel_def)
  obtain x y where xy: "(x, m) \<in> live a bs" "p = of_nat x" "(y, l) \<in> live a bs" "q = of_nat y"
    using p by (auto simp: heap_owned_def st)
  then have "x + m + 24 \<le> y \<or> y + l + 24 \<le> x" using live_apart p(3) by blast
  then show "span p m \<inter> span q l = {}"
    using live_address(3) [OF inv xy(1)] live_address(3) [OF inv xy(3)]
    unfolding xy by (intro span_apart2) auto
qed

end
