(* ===== verification/Heap.thy ===== *)
theory Heap
  imports FirstFit
begin

text \<open>
  The heap as a whole: \<open>init_page\<close> builds the page list from the memory map, what the answers of the
  allocator mean and what its calls leave alone, and the properties of \<open>kernel/memory.c\<close>.
\<close>

subsection \<open>Building the page list\<close>

definition region_pages :: "e820_entry \<Rightarrow> u64 list" where
  "region_pages e =
     (if e_type e \<noteq> 1 \<or> region_end e \<le> region_start e then []
      else map (\<lambda>n. region_start e + of_nat n * 0x200000)
             [0..<unat (region_end e - region_start e) div 0x200000])"

definition page_addrs :: "memory \<Rightarrow> u64 list" where
  "page_addrs g = concat (map (\<lambda>i. region_pages (e820 g i)) [0..<unat (e820_length g)])"

lemma fold_map: "fold f (map g xs) = fold (\<lambda>x. f (g x)) xs"
  by (rule ext) (induction xs, auto)

lemma add_region_pages: "add_region pages e st = fold (add_page pages) (region_pages e) st"
  by (auto simp: add_region_def region_pages_def fold_map)

lemma add_page_e820: "e820 (mem (fst (add_page pages j st))) = e820 (mem (fst st))"
    "e820_length (mem (fst (add_page pages j st))) = e820_length (mem (fst st))"
  by (simp_all add: add_page_def Let_def split: prod.split)

lemma fold_add_page_e820:
  "e820 (mem (fst (fold (add_page pages) js st))) = e820 (mem (fst st))"
  by (induction js arbitrary: st) (auto simp: add_page_e820)

lemma fold_regions:
  "fold (\<lambda>i (k, page_index, current). add_region pages (e820 (mem k) i) (k, page_index, current)) is st
    = fold (add_page pages) (concat (map (\<lambda>i. region_pages (e820 (mem (fst st)) i)) is)) st"
proof (induction "is" arbitrary: st)
  case (Cons i "is")
  obtain k p c where st: "st = (k, p, c)" by (cases st) auto
  show ?case
    using Cons [of "add_region pages (e820 (mem k) i) (k, p, c)"]
    by (simp add: st add_region_pages fold_add_page_e820)
qed simp

text \<open>The list after the pages \<open>js\<close>, descriptors at \<open>D\<close>, \<open>D + 24\<close>, and so on.\<close>

definition built :: "nat \<Rightarrow> u64 list \<Rightarrow> memory \<Rightarrow> memory \<Rightarrow> bool" where
  "built D js g g' \<longleftrightarrow>
     (\<forall>i<length js. page_phy_addr (ram g') (of_nat (D + 24 * i)) = js ! i
        \<and> page_ref_count (ram g') (of_nat (D + 24 * i)) = 0
        \<and> page_next (ram g') (of_nat (D + 24 * i)) = (if Suc i < length js then of_nat (D + 24 * Suc i) else 0))
     \<and> (\<forall>x. x \<notin> span (of_nat D) (24 * length js) \<longrightarrow> ram g' x = ram g x)
     \<and> g' = g\<lparr>ram := ram g', free_pages_list := (if js = [] then 0 else of_nat D),
          total_free_pages := of_nat (length js)\<rparr>"

lemma slots_apart:
  assumes "i \<noteq> j" and "D + 24 * i + 24 \<le> 2 ^ 64" and "D + 24 * j + 24 \<le> 2 ^ 64"
  shows "span (of_nat (D + 24 * i)) 24 \<inter> span (of_nat (D + 24 * j) :: u64) 24 = {}"
  using assms by (intro span_apart2) auto

lemma add_page_built:
  assumes D: "0 < D" "D + 24 * length js + 24 \<le> 2 ^ 64"
    and k: "built D js g (mem k)"
    and st: "(k', idx, cur) = add_page (of_nat D) j (k, of_nat (length js),
      if js = [] then 0 else of_nat (D + 24 * (length js - 1)))"
  shows "built D (js @ [j]) g (mem k')" and "idx = of_nat (Suc (length js))"
    and "cur = of_nat (D + 24 * length js)"
proof -
  let ?n = "length js"
  define P where "P = (of_nat (D + 24 * ?n) :: u64)"
  define C where "C = (of_nat (D + 24 * (?n - 1)) :: u64)"
  have p: "of_nat D + 24 * of_nat ?n = P" by (simp add: P_def)
  have P0: "js = [] \<Longrightarrow> P = of_nat D" by (simp add: P_def)
  have st: "(k', idx, cur) = add_page (of_nat D) j (k, of_nat ?n, if js = [] then 0 else C)"
    using st by (simp only: C_def)
  show "idx = of_nat (Suc ?n)" and "cur = of_nat (D + 24 * ?n)"
    using st by (simp_all add: add_page_def Let_def p)
  let ?m0 = "set_page_next P 0 (set_page_ref_count P 0 (set_page_phy_addr P j (kram k)))"
  let ?m = "if js = [] then ?m0 else set_page_next C P ?m0"
  have D0: "(of_nat D :: u64) \<noteq> 0" using of_nat64_eq_0 [of D] D by simp
  have e: "mem k = g\<lparr>ram := kram k, free_pages_list := (if js = [] then 0 else of_nat D),
      total_free_pages := of_nat ?n\<rparr>"
    and cells: "\<And>i. i < ?n \<Longrightarrow> page_phy_addr (kram k) (of_nat (D + 24 * i)) = js ! i
        \<and> page_ref_count (kram k) (of_nat (D + 24 * i)) = 0
        \<and> page_next (kram k) (of_nat (D + 24 * i)) = (if Suc i < ?n then of_nat (D + 24 * Suc i) else 0)"
    and frame: "\<And>x. x \<notin> span (of_nat D) (24 * ?n) \<Longrightarrow> kram k x = ram g x"
    using k unfolding built_def by blast+
  have fl: "free_pages_list (mem k) = (if js = [] then 0 else of_nat D)"
    by (subst e) simp
  have tp: "total_free_pages (mem k) = of_nat ?n"
    by (subst e) simp
  have k': "mem k' = (mem k)\<lparr>ram := ?m, free_pages_list := of_nat D, total_free_pages := of_nat ?n + 1\<rparr>"
    using st fl tp D0 P0 by (cases "js = []") (auto simp: add_page_def Let_def p intro!: memory.equality)
  have ap: "span (of_nat (D + 24 * i)) 24 \<inter> span P 24 = {}" if "i < ?n" for i
    using that D(2) unfolding P_def C_def by (intro slots_apart) auto
  have apc: "span (of_nat (D + 24 * i)) 24 \<inter> span C 24 = {}" if "i \<noteq> ?n - 1" "i \<le> ?n" for i
    using that D(2) unfolding P_def C_def by (intro slots_apart) auto
  have old: "page_phy_addr ?m (of_nat (D + 24 * i)) = js ! i
      \<and> page_ref_count ?m (of_nat (D + 24 * i)) = 0
      \<and> page_next ?m (of_nat (D + 24 * i)) = of_nat (D + 24 * Suc i)" if i: "i < ?n" for i
  proof (cases "i = ?n - 1")
    case True
    then have "js \<noteq> []" "Suc i = ?n" using i by auto
    moreover from this have "C = of_nat (D + 24 * i)" "P = of_nat (D + 24 * Suc i)"
      using True by (simp_all only: C_def P_def)
    ultimately show ?thesis
      using cells [OF i] ap [OF i] by (simp add: cell_apart del: of_nat_add of_nat_mult of_nat_Suc)
  next
    case False
    then have "js \<noteq> []" "Suc i < ?n" using i by auto
    then show ?thesis
      using cells [OF i] ap [OF i] apc [OF False] i
      by (simp add: cell_apart del: of_nat_add of_nat_mult of_nat_Suc)
  qed
  have new: "page_phy_addr ?m P = j \<and> page_ref_count ?m P = 0 \<and> page_next ?m P = 0"
  proof (cases "js = []")
    case False
    then have "?n \<noteq> ?n - 1" by (cases js) auto
    then have "span P 24 \<inter> span C 24 = {}" unfolding P_def by (rule apc) simp
    with False show ?thesis by (simp add: cell_apart del: of_nat_add of_nat_mult)
  qed simp
  have out: "?m x = ram g x" if x: "x \<notin> span (of_nat D) (24 * length (js @ [j]))" for x
  proof -
    have sub: "span (of_nat (D + 24 * i)) 24 \<subseteq> span (of_nat D :: u64) (24 * length (js @ [j]))" if "i \<le> ?n" for i
      using span_offset [of "24 * i" 24 "24 * length (js @ [j])" "of_nat D"] that by simp
    have "x \<notin> span P 24" using x sub [of ?n] unfolding P_def by blast
    moreover have "x \<notin> span C 24" using x sub [of "?n - 1"] unfolding C_def by auto
    moreover have "x \<notin> span (of_nat D) (24 * ?n)"
      using x span_mono [of "24 * ?n" "24 * length (js @ [j])" "of_nat D"] by auto
    ultimately show ?thesis by (simp add: page_outside frame del: of_nat_add of_nat_mult)
  qed
  have "mem k' = g\<lparr>ram := kram k', free_pages_list := of_nat D, total_free_pages := of_nat (Suc ?n)\<rparr>"
    by (subst k', subst e) (simp add: k' add.commute del: of_nat_add of_nat_mult)
  moreover have km: "kram k' = ?m" by (simp add: k')
  moreover have "page_phy_addr ?m (of_nat (D + 24 * i)) = (js @ [j]) ! i
      \<and> page_ref_count ?m (of_nat (D + 24 * i)) = 0
      \<and> page_next ?m (of_nat (D + 24 * i)) = (if Suc i < length (js @ [j]) then of_nat (D + 24 * Suc i) else 0)"
    if "i < length (js @ [j])" for i
  proof (cases "i < ?n")
    case True
    from old [OF this] show ?thesis using True by (simp only: nth_append if_True length_append) simp
  next
    case False
    with that have "i = ?n" by simp
    with new show ?thesis by (simp only: P_def) simp
  qed
  ultimately show "built D (js @ [j]) g (mem k')"
    using out unfolding built_def by simp
qed

lemma fold_pages_built:
  assumes "0 < D" and "D + 24 * length js \<le> 2 ^ 64"
    and g0: "free_pages_list (mem k) = 0" "total_free_pages (mem k) = 0"
  shows "\<exists>k'. fold (add_page (of_nat D)) js (k, 0, 0) = (k', of_nat (length js),
      if js = [] then 0 else of_nat (D + 24 * (length js - 1))) \<and> built D js (mem k) (mem k')"
  using assms(2)
proof (induction js rule: rev_induct)
  case Nil
  have "mem k = (mem k)\<lparr>ram := kram k, free_pages_list := 0, total_free_pages := 0\<rparr>"
    using g0 by (auto intro!: memory.equality)
  then show ?case by (simp add: built_def)
next
  case (snoc j js)
  obtain k1 where k1: "fold (add_page (of_nat D)) js (k, 0, 0) = (k1, of_nat (length js),
      if js = [] then 0 else of_nat (D + 24 * (length js - 1)))" "built D js (mem k) (mem k1)"
    using snoc by auto
  obtain k2 idx cur where st: "(k2, idx, cur) = add_page (of_nat D) j (k1, of_nat (length js),
      if js = [] then 0 else of_nat (D + 24 * (length js - 1)))"
    by (metis prod_cases3)
  have "D + 24 * length js + 24 \<le> 2 ^ 64" using snoc.prems by simp
  note b = add_page_built [OF assms(1) this k1(2) st]
  have "fold (add_page (of_nat D)) (js @ [j]) (k, 0, 0) = (k2, idx, cur)"
    unfolding fold_append comp_apply k1(1) by (simp add: st)
  with b show ?case by (simp del: of_nat_add of_nat_mult of_nat_Suc)
qed

text \<open>Consecutive pages form the list the allocator starts from.\<close>

lemma built_pseg:
  assumes b: "built D js g g'" and v: "\<And>i. i < length js \<Longrightarrow> Phy_To_Virt (js ! i) = of_nat (v + 2097152 * i)"
  shows "i \<le> length js \<Longrightarrow> pseg (ram g') (map (\<lambda>i. D + 24 * i) [i..<length js]) (v + 2097152 * i)
    (if i < length js then of_nat (D + 24 * i) else 0)"
proof (induction rule: inc_induct)
  case (step i)
  have c: "page_phy_addr (ram g') (of_nat (D + 24 * i)) = js ! i"
      "page_next (ram g') (of_nat (D + 24 * i)) = (if Suc i < length js then of_nat (D + 24 * Suc i) else 0)"
    using b step.hyps unfolding built_def by blast+
  have "[i..<length js] = i # [Suc i..<length js]" using step.hyps by (simp add: upt_conv_Cons)
  then show ?case
    using step c v [of i] by (simp add: algebra_simps del: of_nat_add of_nat_mult of_nat_Suc upt_Suc)
qed simp

lemma descs_slots:
  assumes "0 < D" and "D + 24 * n \<le> 2 ^ 64" and "D + 24 * n \<le> lo \<or> hi \<le> D"
  shows "descs_ok (map (\<lambda>i. D + 24 * i) [0..<n]) lo hi"
proof -
  have "sorted_wrt cells_apart (map (\<lambda>i. D + 24 * i) [0..<n])"
    by (auto simp: sorted_wrt_map sorted_wrt_iff_nth_less)
  with assms show ?thesis by (auto simp: descs_ok_def)
qed

lemma max_region_end_frame [simp]:
  "max_region_end (g\<lparr>kernel_heap_start := s\<rparr>) = max_region_end g"
  "max_region_end (g\<lparr>ram := m\<rparr>) = max_region_end g"
  "max_region_end (g\<lparr>pages_struct := p\<rparr>) = max_region_end g"
  "max_region_end (g\<lparr>free_pages_list := l\<rparr>) = max_region_end g"
  "max_region_end (g\<lparr>total_free_pages := t\<rparr>) = max_region_end g"
  by (simp_all add: max_region_end_def)

lemma init_heap_range_effect:
  "\<exists>s e. mem (init_heap_range k) = (mem k)\<lparr>kernel_heap_start := s, kernel_heap_end := e\<rparr>
    \<and> (free_pages_list (mem k) \<noteq> 0 \<longrightarrow> e = max_region_end (mem k)
        \<and> (s = page_phy_addr (kram k) (free_pages_list (mem k))
           \<or> s = PAGE_2M_ALIGN (page_phy_addr (kram k) (free_pages_list (mem k)))))"
proof (cases "free_pages_list (mem k) = 0")
  case True
  then show ?thesis
    by (intro exI [of _ "kernel_heap_start (mem k)"] exI [of _ "kernel_heap_end (mem k)"])
      (auto simp: init_heap_range_def intro!: memory.equality)
next
  case False
  let ?p = "page_phy_addr (kram k) (free_pages_list (mem k))"
  from False show ?thesis
    by (intro exI [of _ "if max_region_end (mem k) < 0x4000000 then ?p else PAGE_2M_ALIGN ?p"]
        exI [of _ "max_region_end (mem k)"])
      (auto simp: init_heap_range_def Let_def word_less_nat_alt intro!: memory.equality)
qed

lemma max_region_end_ge:
  assumes "i < unat (e820_length g)" and "e_type (e820 g i) = 1"
  shows "e_address (e820 g i) + e_length (e820 g i) \<le> max_region_end g"
proof -
  let ?f = "\<lambda>i top. let e = e820 g i in if e_type e = 1 \<and> top < e_address e + e_length e then e_address e + e_length e else top"
  have mono: "x \<le> fold ?f is x" for "is" and x :: u64
  proof (induction "is" arbitrary: x)
    case (Cons i "is")
    have "x \<le> ?f i x" by (auto simp: Let_def)
    also have "\<dots> \<le> fold ?f (i # is) x" using Cons by simp
    finally show ?case .
  qed simp
  obtain xs ys where split: "[0..<unat (e820_length g)] = xs @ i # ys"
    using assms(1) split_list [of i "[0..<unat (e820_length g)]"] by auto
  have "e_address (e820 g i) + e_length (e820 g i) \<le> ?f i x" for x
    using assms(2) by (auto simp: Let_def)
  also have "?f i x \<le> fold ?f ys (?f i x)" for x by (rule mono)
  finally show ?thesis unfolding max_region_end_def split by simp
qed


lemma aligned_page:
  assumes "P + 0x1fffff < 2 ^ 64" and "2097152 dvd P"
  shows "PAGE_2M_ALIGN (of_nat P) = of_nat P"
proof -
  have al: "x AND NOT (mask 21) = push_bit 21 (drop_bit 21 x)" for x :: u64
    by (rule bit_word_eqI) (auto simp: bit_simps)
  obtain q where q: "P = 2097152 * q" using assms(2) by (auto elim: dvdE)
  have "unat (of_nat P + 0x1fffff :: u64) = P + 0x1fffff" using unat_of_nat64 [OF assms(1)] by simp
  then have "unat (drop_bit 21 (of_nat P + 0x1fffff :: u64)) = q"
    unfolding unat_drop_bit by (simp add: q)
  then have "(of_nat (unat (drop_bit 21 (of_nat P + 0x1fffff :: u64))) :: u64) = of_nat q" by (rule arg_cong)
  then have d: "drop_bit 21 (of_nat P + 0x1fffff) = (of_nat q :: u64)" by simp
  have "PAGE_2M_ALIGN (of_nat P) = (of_nat P + 0x1fffff) AND NOT (mask 21)"
    by (simp add: PAGE_2M_ALIGN_def mask_eq_exp_minus_1 add.commute)
  also have "\<dots> = push_bit 21 (drop_bit 21 (of_nat P + 0x1fffff))" by (rule al)
  also have "\<dots> = of_nat P" by (simp only: d) (simp add: q push_bit_eq_mult)
  finally show ?thesis .
qed

lemma init_page_heap:
  fixes k :: "'a kmem_scheme"
  assumes boot: "free_pages_list (mem k) = 0" "total_free_pages (mem k) = 0" "malloc_head (mem k) = 0"
    and pages: "page_addrs (mem k) = map (\<lambda>i. of_nat (P + 2097152 * i)) [0..<N]" "0 < N" "2097152 dvd P"
    and a: "a = P + 0xffff800000000000" "a + 2097152 * N \<le> 2 ^ 64"
    and desc: "find_pages_region (mem k) (count_pages (mem k)) = Some r"
      "D = unat (Phy_To_Virt (e_address (e820 (mem k) r)))" "0 < D" "D + 24 * N \<le> 2 ^ 64"
      "D + 24 * N \<le> a \<or> a + 2097152 * N \<le> D"
    and top: "a + 2097152 * N \<le> unat (Phy_To_Virt (max_region_end (mem k)))"
  shows "heap_inv (mem (init_page k)) a [] (map (\<lambda>i. D + 24 * i) [0..<N])"
proof -
  let ?js = "page_addrs (mem k)"
  define k0 where "k0 = malloc_debug (''Page structures allocated at 0x%016lx, size: %lu bytes'' @ NL)
      [ArgW (of_nat D), ArgW (count_pages (mem k) * 24)]
      ((set_ram (memset (of_nat D) 0 (unat (count_pages (mem k) * 24)) (kram k))
        (printk_color BLUE VGA_BLACK (''=== Page Management Initialization Start ==='' @ NL) [] k))
       \<lparr>mem := (mem k)\<lparr>ram := memset (of_nat D) 0 (unat (count_pages (mem k) * 24)) (kram k), pages_struct := of_nat D\<rparr>\<rparr>)"
  have D: "Phy_To_Virt (e_address (e820 (mem k) r)) = of_nat D" "(of_nat D :: u64) \<noteq> 0"
    using desc(2-4) pages(2) of_nat64_eq_0 [of D] by simp_all
  have k0: "mem k0 = (mem k)\<lparr>ram := memset (of_nat D) 0 (unat (count_pages (mem k) * 24)) (kram k), pages_struct := of_nat D\<rparr>"
    by (simp add: k0_def)
  obtain k1 idx cur where k1: "fold (add_page (of_nat D)) ?js (k0, 0, 0) = (k1, idx, cur)"
      "built D ?js (mem k0) (mem k1)"
    using fold_pages_built [of D ?js k0] desc(3,4) boot pages(1) by (auto simp: k0)
  have conc: "init_page k = init_heap_range k1"
    using D(2) fold_regions [of "of_nat D" "[0..<unat (e820_length (mem k))]" "(k0, 0, 0)"] k1(1)
    by (simp add: init_page_def Let_def desc(1) D(1) page_addrs_def k0_def)
  have len: "length ?js = N" by (simp add: pages(1))
  have b: "mem k1 = (mem k0)\<lparr>ram := kram k1, free_pages_list := (if ?js = [] then 0 else of_nat D),
        total_free_pages := of_nat (length ?js)\<rparr>"
      "\<forall>i<length ?js. page_phy_addr (kram k1) (of_nat (D + 24 * i)) = ?js ! i"
    using k1(2) unfolding built_def by blast+
  have ne: "?js \<noteq> []" using pages(1,2) by simp
  have g1: "mem k1 = (mem k0)\<lparr>ram := kram k1, free_pages_list := of_nat D, total_free_pages := of_nat N\<rparr>"
    by (subst b(1)) (simp add: ne len)
  have phy: "page_phy_addr (kram k1) (of_nat D) = of_nat P"
    using b(2) [rule_format, of 0] pages(1,2) len by simp
  have fp: "malloc_head (mem k1) = 0" "free_pages_list (mem k1) = of_nat D" "total_free_pages (mem k1) = of_nat N"
    by (subst g1, simp add: k0 boot)+
  obtain s e where se: "mem (init_heap_range k1) = (mem k1)\<lparr>kernel_heap_start := s, kernel_heap_end := e\<rparr>"
      "e = max_region_end (mem k1)" "s = of_nat P \<or> s = PAGE_2M_ALIGN (of_nat P)"
    using init_heap_range_effect [of k1] D(2) by (auto simp: fp(2) phy)
  have lt: "P + 0x1fffff < 2 ^ 64" "a < 2 ^ 64" using a pages(2) by simp_all
  have s: "s = of_nat P" using se(3) aligned_page [OF lt(1) pages(3)] by auto
  have e: "e = max_region_end (mem k)" by (subst se(2), subst g1) (simp add: k0)
  have "Phy_To_Virt (of_nat P) = of_nat a" by (simp add: Phy_To_Virt_def a(1))
  then have start: "unat (Phy_To_Virt s) = a" using unat_of_nat64 [OF lt(2)] s by simp
  have v: "Phy_To_Virt (?js ! i) = of_nat (a + 2097152 * i)" if "i < length ?js" for i
    using that by (simp add: pages(1) Phy_To_Virt_def a(1))
  have "pseg (kram k1) (map (\<lambda>i. D + 24 * i) [0..<N]) a (of_nat D)"
    using built_pseg [OF k1(2) v, of 0] len pages(2) by simp
  moreover have "descs_ok (map (\<lambda>i. D + 24 * i) [0..<N]) a (a + 2097152 * N)"
    using desc(3-5) by (rule descs_slots)
  moreover have "8 dvd a" using pages(3) by (auto simp: a(1) intro: dvd_trans [of 8 2097152])
  ultimately show ?thesis
    using top a start unfolding conc heap_inv_def se(1) by (simp add: e fp)
qed

subsection \<open>Returning a page\<close>

lemma free_page_list:
  assumes seg: "pseg (kram k) ds v (free_pages_list (mem k))" and d: "0 < d" "d + 24 \<le> 2 ^ 64"
    and apart: "span (of_nat d) 24 \<inter> desc_cells ds = {}"
    and ref: "page_ref_count (kram k) (of_nat d) = 1"
  defines "k' \<equiv> free_page (of_nat d) k"
  shows "free_pages_list (mem k') = of_nat d" and "page_next (kram k') (of_nat d) = free_pages_list (mem k)"
    and "page_ref_count (kram k') (of_nat d) = 0"
    and "pseg (kram k') ds v (free_pages_list (mem k))"
    and "total_free_pages (mem k') = total_free_pages (mem k) + 1"
proof -
  have d0: "(of_nat d :: u64) \<noteq> 0" using of_nat64_eq_0 [of d] d by simp
  have m: "mem k' = (mem k)\<lparr>ram := set_page_next (of_nat d) (free_pages_list (mem k))
      (set_page_ref_count (of_nat d) 0 (kram k)), free_pages_list := of_nat d,
      total_free_pages := total_free_pages (mem k) + 1\<rparr>"
    using d0 ref by (simp add: k'_def free_page_def Let_def)
  show "free_pages_list (mem k') = of_nat d" "page_next (kram k') (of_nat d) = free_pages_list (mem k)"
    "page_ref_count (kram k') (of_nat d) = 0" "total_free_pages (mem k') = total_free_pages (mem k) + 1"
    by (simp_all add: m)
  have "kram k' x = kram k x" if "x \<in> desc_cells ds" for x
  proof -
    have "x \<notin> span (of_nat d) 24" using that apart by blast
    then show ?thesis by (simp add: m page_outside)
  qed
  then show "pseg (kram k') ds v (free_pages_list (mem k))" using seg by (rule pseg_agree [rotated])
qed


subsection \<open>Answers of the allocator\<close>

lemma live_aligned: "8 dvd a \<Longrightarrow> blocks_ok bs \<Longrightarrow> (x, s) \<in> live a bs \<Longrightarrow> 8 dvd x"
proof (induction a bs rule: live.induct)
  case (2 a t f bs)
  have "8 dvd a + 24" "8 dvd a + 24 + t" using 2 by (auto intro: dvd_add)
  with 2 show ?case by (auto split: if_splits)
qed simp

lemma merge_all_free:
  assumes "live a bs = {}" and "bs \<noteq> []"
  shows "merge bs = [(hlen bs - 24, True)]"
  using assms
proof (induction bs rule: merge.induct)
  case (2 b)
  then show ?case by (cases b) (auto split: if_splits)
next
  case (3 s f t g bs)
  then have "f" "g" by (auto split: if_splits)
  moreover from this 3 have "live a ((s + 24 + t, True) # bs) = {}" by (simp add: add.assoc)
  ultimately show ?case using 3 by (simp add: add.assoc)
qed simp

lemma abs_malloc_None_iff:
  assumes "abs_malloc n (bs, p) = (o', st')"
  shows "o' = None \<longleftrightarrow> n = 0 \<or> 2097000 < n \<or> (p = 0 \<and> (\<forall>b\<in>set bs. \<not> fits (round8 n + 24) b))"
proof (cases "bs = [] \<and> 0 < p")
  case True
  have "take_first (round8 n) [(2097128, True)] \<noteq> None" if "n \<le> 2097000"
    using round8_bounds(4) [OF that] by (simp add: fits_def)
  with True assms show ?thesis
    by (auto simp: abs_malloc_def abs_first_page_def split: if_splits option.splits)
next
  case False
  with assms take_first_None [of "round8 n" bs] show ?thesis
    by (auto simp: abs_malloc_def abs_first_page_def split: if_splits option.splits)
qed

lemma malloc_answer:
  assumes inv: "heap_inv (mem k) a bs ds" and n: "n < 2 ^ 64"
  shows "\<exists>p k' bs' ds'. malloc (of_nat n) k = Some (p, k') \<and> heap_inv (mem k') a bs' ds'
    \<and> (\<forall>(x, s)\<in>live a bs. \<forall>y\<in>span (of_nat x) s. kram k' y = kram k y)
    \<and> (p = 0 \<longleftrightarrow> n = 0 \<or> 2097000 < n \<or> (ds = [] \<and> (\<forall>b\<in>set bs. \<not> fits (round8 n + 24) b)))
    \<and> (if p = 0 then live a bs' = live a bs
       else \<exists>x s. p = of_nat x \<and> 8 dvd x \<and> n \<le> s \<and> live a bs' = insert (x, s) (live a bs)
              \<and> (\<forall>(y, t)\<in>live a bs. x + s + 24 \<le> y \<or> y + t + 24 \<le> x))"
proof -
  obtain o' bs' ds' k' where m: "abs_malloc n (bs, length ds) = (o', bs', length ds')"
      "malloc (of_nat n) k = Some (case o' of None \<Rightarrow> 0 | Some x \<Rightarrow> of_nat (a + x), k')"
      "heap_inv (mem k') a bs' ds'" "heap_keeps a bs ds (kram k) (kram k')"
    using malloc_step [OF inv n] by blast
  let ?p = "(case o' of None \<Rightarrow> 0 | Some x \<Rightarrow> of_nat (a + x)) :: u64"
  have keep: "\<forall>(x, s)\<in>live a bs. \<forall>y\<in>span (of_nat x) s. kram k' y = kram k y"
    using m(4) by (auto simp: heap_keeps_def payload_def)
  have p0: "?p = 0 \<longleftrightarrow> o' = None"
  proof (cases o')
    case (Some x)
    then obtain s where "(a + x, s) \<in> live a bs'"
      using abs_malloc_live [of n bs "length ds" x bs' "length ds'" a] m(1) by auto
    note ax = live_address [OF m(3) this]
    have "(of_nat (a + x) :: u64) \<noteq> 0"
      using ax(1) unfolding of_nat64_eq_0 [OF ax(2)] by simp
    with Some show ?thesis by (simp del: of_nat_add)
  qed simp
  then have null: "?p = 0 \<longleftrightarrow> n = 0 \<or> 2097000 < n \<or> (ds = [] \<and> (\<forall>b\<in>set bs. \<not> fits (round8 n + 24) b))"
    using abs_malloc_None_iff [OF m(1)] by simp
  have "if ?p = 0 then live a bs' = live a bs
       else \<exists>x s. ?p = of_nat x \<and> 8 dvd x \<and> n \<le> s \<and> live a bs' = insert (x, s) (live a bs)
              \<and> (\<forall>(y, t)\<in>live a bs. x + s + 24 \<le> y \<or> y + t + 24 \<le> x)"
  proof (cases o')
    case None
    then show ?thesis using abs_malloc_None_live [of n bs "length ds" bs' "length ds'" a] m(1) by simp
  next
    case (Some x)
    then obtain s where s: "n \<le> s" "live a bs' = insert (a + x, s) (live a bs)" "\<forall>t. (a + x, t) \<notin> live a bs"
      using abs_malloc_live [of n bs "length ds" x bs' "length ds'" a] m(1) by auto
    have al: "8 dvd a + x"
      using live_aligned [of a bs' "a + x" s] m(3) s(2) by (simp add: heap_inv_def)
    have ap: "a + x + s + 24 \<le> y \<or> y + t + 24 \<le> a + x" if "(y, t) \<in> live a bs" for y t
      using live_apart [of "a + x" s a bs' y t] that s(2,3) by auto
    have "?p \<noteq> 0" "?p = of_nat (a + x)" using p0 Some by simp_all
    then show ?thesis
      using s(1,2) al ap by (simp only: if_False simp_thms) (intro exI [of _ "a + x"] exI [of _ s], auto)
  qed
  with m(2,3) keep null show ?thesis by blast
qed

subsection \<open>Frames of the allocator\<close>

text \<open>The allocator changes the console and the memory only; the components whose state extends
  the kernel's keep theirs.\<close>

lemma kmem_more_frame [simp, frame_simps]:
  "kmem.more (printk f as (k :: 'a kmem_scheme)) = kmem.more k"
  "kmem.more (printk_color fg bg f as k) = kmem.more k"
  "kmem.more (malloc_debug f as k) = kmem.more k"
  "kmem.more (set_ram m k) = kmem.more k"
  by (simp_all add: printk_def printk_color_def malloc_debug_def set_ram_def split: option.splits)

lemma alloc_page_more [simp, frame_simps]: "kmem.more (snd (alloc_page k)) = kmem.more k"
  by (simp add: alloc_page_def Let_def)

lemma malloc_take_more [simp]: "kmem.more (snd (malloc_take n t c k)) = kmem.more k"
  by (simp add: malloc_take_def Let_def)

lemma malloc_new_page_more [simp]: "kmem.more (snd (malloc_new_page n t p k)) = kmem.more k"
proof (cases "alloc_page k")
  case (Pair page k1)
  then have "kmem.more k1 = kmem.more k" using alloc_page_more [of k] by simp
  then show ?thesis by (simp add: malloc_new_page_def Pair Let_def)
qed

lemma malloc_first_page_more [simp]: "kmem.more (snd (malloc_first_page k)) = kmem.more k"
proof (cases "alloc_page k")
  case (Pair page k1)
  then have "kmem.more k1 = kmem.more k" using alloc_page_more [of k] by simp
  then show ?thesis by (simp add: malloc_first_page_def Pair Let_def)
qed

lemma malloc_more:
  assumes "malloc n k = Some (p, k')"
  shows "kmem.more k' = kmem.more k"
proof -
  let ?n = "n + 7 AND NOT 7"
  obtain ok k1 where k1: "malloc_first_page k = (ok, k1)" by fastforce
  then have more: "kmem.more k1 = kmem.more k" using malloc_first_page_more [of k] by simp
  show ?thesis
  proof (cases "n = 0 \<or> 0x200000 - 24 - 128 < n \<or> \<not> ok")
    case True
    with assms more show ?thesis by (auto simp: malloc_def Let_def k1 split: if_splits)
  next
    case False
    then obtain q c where "(if c \<noteq> 0 then malloc_take ?n (?n + 24) c k1 else malloc_new_page ?n (?n + 24) q k1) = (p, k')"
      using assms unfolding malloc_def Let_def k1 prod.case by (auto split: option.splits)
    then show ?thesis
      using more by (metis malloc_take_more malloc_new_page_more snd_conv)
  qed
qed

lemma free_merge_more:
  assumes "free_merge c k = Some k'"
  shows "kmem.more k' = kmem.more k"
proof (rule free_merge.raw_induct [OF _ assms, of "\<lambda>c k k'. kmem.more k' = kmem.more k"])
  fix fm :: "u64 \<Rightarrow> 'a kmem_scheme \<Rightarrow> 'a kmem_scheme option" and c k k'
  assume "\<And>c k k'. fm c k = Some k' \<Longrightarrow> kmem.more k' = kmem.more k"
    and "(if c = 0 \<or> hdr_next (kram k) c = 0 then Some k
      else if hdr_is_free (kram k) c \<noteq> 0 \<and> hdr_is_free (kram k) (hdr_next (kram k) c) \<noteq> 0 then
        let merged_size = hdr_size (kram k) c + SIZEOF_header + hdr_size (kram k) (hdr_next (kram k) c);
            k = malloc_debug (''Merging blocks: %lu + %lu = %lu bytes'' @ NL)
                  [ArgW (hdr_size (kram k) c), ArgW (hdr_size (kram k) (hdr_next (kram k) c)), ArgW merged_size] k;
            k = set_ram (set_hdr_size c merged_size (kram k)) k;
            k = set_ram (set_hdr_next c (hdr_next (kram k) (hdr_next (kram k) c)) (kram k)) k
        in fm c k
      else fm (hdr_next (kram k) c) k) = Some k'"
  then show "kmem.more k' = kmem.more k"
    by (fastforce simp: Let_def split: if_splits)
qed

lemma free_more:
  assumes "free p k = Some k'"
  shows "kmem.more k' = kmem.more k"
  using assms by (auto simp: free_def Let_def split: if_splits option.splits dest!: free_merge_more)


subsection \<open>A machine with seven usable pages\<close>

text \<open>The state in which the witnesses apply the properties: 640 KB at 0, and 15 MB from 1 MB on.\<close>

definition demo_e820 :: "nat \<Rightarrow> e820_entry" where
  "demo_e820 i = (if i = 0 then \<lparr>e_address = 0, e_length = 0x9fc00, e_type = 1\<rparr>
                  else \<lparr>e_address = 0x100000, e_length = 0xf00000, e_type = 1\<rparr>)"

definition demo_memory :: memory where
  "demo_memory = \<lparr>ram = (\<lambda>_. 0), free_pages_list = 0, total_free_pages = 0,
     kernel_heap_start = 0, kernel_heap_end = 0, malloc_head = 0, malloc_total_allocated = 0,
     malloc_total_freed = 0, e820 = demo_e820, e820_length = 2,
     start_code = 0, end_code = 0, end_data = 0, end_brk = 0, pages_struct = 0\<rparr>"

definition demo_boot :: kmem where
  "demo_boot = \<lparr>con = console_boot (\<lambda>_. 0), mem = demo_memory\<rparr>"

definition demo_heap :: kmem where
  "demo_heap = init_page demo_boot"

lemma demo_region_bounds:
  "region_start (demo_e820 0) = 0" "region_end (demo_e820 0) = 0"
  "region_start (demo_e820 (Suc 0)) = 0x200000" "region_end (demo_e820 (Suc 0)) = 0x1000000"
  by (simp_all add: region_start_def region_end_def demo_e820_def PAGE_2M_ALIGN_def)

lemma demo_len: "[0..<2] = [0, Suc 0]"
  by (simp add: upt_rec)

lemma demo_fields:
  "e_address (demo_e820 0) = 0" "e_length (demo_e820 0) = 0x9fc00" "e_type (demo_e820 0) = 1"
  "e_address (demo_e820 (Suc 0)) = 0x100000" "e_length (demo_e820 (Suc 0)) = 0xf00000"
  "e_type (demo_e820 (Suc 0)) = 1"
  by (simp_all add: demo_e820_def)

lemma demo_memory_fields: "e820 demo_memory = demo_e820" "e820_length demo_memory = 2"
  by (simp_all add: demo_memory_def)

lemma demo_pages: "page_addrs demo_memory = map (\<lambda>i. of_nat (0x200000 + 2097152 * i)) [0..<7]"
proof -
  have "region_pages (demo_e820 0) = []" by (simp add: region_pages_def demo_region_bounds)
  moreover have "region_pages (demo_e820 (Suc 0)) = map (\<lambda>i. 0x200000 + of_nat i * 0x200000) [0..<7]"
    by (simp add: region_pages_def demo_region_bounds demo_fields del: upt_rec_numeral)
  ultimately show ?thesis
    by (simp add: page_addrs_def demo_memory_fields demo_len mult.commute del: upt_rec_numeral)
qed

lemma demo_count: "count_pages demo_memory = 7"
  by (simp add: count_pages_def demo_memory_fields demo_len Let_def demo_region_bounds demo_fields)

lemma demo_region: "find_pages_region demo_memory 7 = Some 0"
  by (simp add: find_pages_region_def demo_memory_fields demo_len demo_fields)

lemma demo_heap_start:
  "heap_inv (mem demo_heap) 0xffff800000200000 [] (map (\<lambda>i. 0xffff800000000000 + 24 * i) [0..<7])"
proof -
  have t: "max_region_end demo_memory = 0x1000000"
    by (simp add: max_region_end_def demo_memory_fields demo_len demo_fields)
  show ?thesis
    unfolding demo_heap_def
  proof (rule init_page_heap [where r = 0 and P = "0x200000"])
    show "page_addrs (mem demo_boot) = map (\<lambda>i. of_nat (0x200000 + 2097152 * i)) [0..<7]"
      by (simp add: demo_boot_def demo_pages)
    show "find_pages_region (mem demo_boot) (count_pages (mem demo_boot)) = Some 0"
      by (simp add: demo_boot_def demo_count demo_region)
  qed (simp_all add: demo_boot_def t Phy_To_Virt_def, simp_all add: demo_memory_def demo_e820_def)
qed


subsection \<open>Properties\<close>



text \<open>C21: \<open>malloc\<close> always returns. It answers 0 exactly for a zero request, a request over 2097000
  bytes, or when no free block is large enough and no page is left; otherwise it hands out an
  8-byte aligned block of at least the size asked for that overlaps no block in use (their
  headers included). The bytes of the blocks in use and the invariant are kept.\<close>

theorem malloc_hands_out_fresh_block:
  fixes k :: "'a kmem_scheme"
  assumes "heap_inv (mem k) a bs ds" and "n < 2 ^ 64"
  shows "\<exists>p k' bs' ds'. malloc (of_nat n) k = Some (p, k') \<and> heap_inv (mem k') a bs' ds'
    \<and> (\<forall>(x, s)\<in>live a bs. \<forall>y\<in>span (of_nat x) s. kram k' y = kram k y)
    \<and> (p = 0 \<longleftrightarrow> n = 0 \<or> 2097000 < n \<or> (ds = [] \<and> (\<forall>b\<in>set bs. \<not> fits (round8 n + 24) b)))
    \<and> (if p = 0 then live a bs' = live a bs
       else \<exists>x s. p = of_nat x \<and> 8 dvd x \<and> n \<le> s \<and> live a bs' = insert (x, s) (live a bs)
              \<and> (\<forall>(y, t)\<in>live a bs. x + s + 24 \<le> y \<or> y + t + 24 \<le> x))"
  using assms by (rule malloc_answer)

theorem malloc_hands_out_fresh_block_witness:
  "\<exists>p k'. malloc 64 demo_heap = Some (p, k') \<and> p \<noteq> 0"
  using malloc_hands_out_fresh_block [OF demo_heap_start, of 64] by auto

text \<open>C22: \<open>free\<close> of a block in use returns, takes exactly that block out of the blocks in use, writes
  no byte outside the headers of the heap, keeps the invariant, and leaves no two neighbouring
  blocks both free.\<close>

theorem free_returns_block:
  fixes k :: "'a kmem_scheme"
  assumes "heap_inv (mem k) a bs ds" and "(x, s) \<in> live a bs"
  shows "\<exists>k' bs'. free (of_nat x) k = Some k' \<and> heap_inv (mem k') a bs' ds
    \<and> live a bs' = live a bs - {(x, s)} \<and> coalesced bs'
    \<and> (\<forall>y. y \<notin> headers a bs \<longrightarrow> kram k' y = kram k y)"
proof -
  obtain z where x: "x = a + z" using live_bounds [OF assms(2)] by (metis add.assoc le_Suc_ex)
  from free_step [OF assms(1)] abs_free_live assms(2) x show ?thesis
    by (metis abs_free_def coalesced_merge fst_conv)
qed

lemma demo_malloc:
  "\<exists>p x s k1 bs ds. malloc 64 demo_heap = Some (p, k1) \<and> heap_inv (mem k1) 0xffff800000200000 bs ds
     \<and> p = of_nat x \<and> live 0xffff800000200000 bs = {(x, s)}"
proof -
  have "live 0xffff800000200000 [] = {}" by simp
  with malloc_answer [OF demo_heap_start, of 64] obtain p k1 bs ds x s
    where "malloc 64 demo_heap = Some (p, k1)" "heap_inv (mem k1) 0xffff800000200000 bs ds"
      "p = of_nat x" "live 0xffff800000200000 bs = {(x, s)}"
    by (auto split: if_splits)
  then show ?thesis by blast
qed

theorem free_returns_block_witness:
  "\<exists>p k1 k2. malloc 64 demo_heap = Some (p, k1) \<and> free p k1 = Some k2"
proof -
  obtain p x s k1 bs ds where d: "malloc 64 demo_heap = Some (p, k1)" "heap_inv (mem k1) 0xffff800000200000 bs ds"
      "p = of_nat x" "live 0xffff800000200000 bs = {(x, s)}"
    using demo_malloc by blast
  with free_returns_block [OF d(2), of x s] show ?thesis by auto
qed

text \<open>C3: every sequence of \<open>malloc\<close> and \<open>free\<close> calls that frees only blocks in use runs to its end
  and refines the abstract first-fit allocator on lists of blocks: the heap stays well formed,
  with the blocks and the number of free pages that the abstract run computes.\<close>

theorem heap_runs_refine_first_fit:
  fixes k :: "'a kmem_scheme"
  assumes "heap_rel a k st" and "legal heap_legal abs_heap_step es st"
  shows "\<exists>k'. run (heap_step a) es k = Some k' \<and> heap_rel a k' (fold abs_heap_step es st)"
  using assms by (rule heap_sim.run_refines)

theorem heap_runs_refine_first_fit_witness:
  "\<exists>k'. run (heap_step 0xffff800000200000) [Malloc 100, Malloc 50, Free 24] demo_heap = Some k'
     \<and> heap_rel 0xffff800000200000 k' ([(104, True), (56, False), (2096920, True)], 6)"
proof -
  have "heap_rel 0xffff800000200000 demo_heap ([], 7)"
    using demo_heap_start by (auto simp: heap_rel_def intro!: exI)
  moreover have m1: "abs_malloc 100 ([], 7) = (Some 24, [(104, False), (2097000, True)], 6)"
    by (simp add: abs_malloc_def abs_first_page_def round8_def fits_def carve_def)
  moreover have m2: "abs_malloc 50 ([(104, False), (2097000, True)], 6)
      = (Some 152, [(104, False), (56, False), (2096920, True)], 6)"
    by (simp add: abs_malloc_def abs_first_page_def round8_def fits_def carve_def)
  moreover have "abs_free 24 ([(104, False), (56, False), (2096920, True)], 6)
      = ([(104, True), (56, False), (2096920, True)], 6)"
    by (simp add: abs_free_def)
  ultimately show ?thesis
    using heap_runs_refine_first_fit [of "0xffff800000200000" demo_heap "([], 7)" "[Malloc 100, Malloc 50, Free 24]"]
    by simp
qed

text \<open>Freeing the last block in use leaves one free block that spans the whole heap: no memory
  is lost to fragmentation.\<close>

theorem free_last_block_restores_heap:
  fixes k :: "'a kmem_scheme"
  assumes "heap_inv (mem k) a bs ds" and "live a bs = {(x, s)}"
  shows "\<exists>k'. free (of_nat x) k = Some k' \<and> heap_inv (mem k') a [(hlen bs - 24, True)] ds"
proof -
  have x: "(x, s) \<in> live a bs" using assms(2) by simp
  obtain z where z: "x = a + z" using live_bounds [OF x] by (metis add.assoc le_Suc_ex)
  obtain xs ys where bs: "release z bs = xs @ (s, True) # ys" "bs = xs @ (s, False) # ys"
    using live_split [of a z s bs] x z by blast
  have "live a (release z bs) = {}"
    using abs_free_live [of a z s bs 0] x z assms(2) by (simp add: abs_free_def)
  then have "merge (release z bs) = [(hlen bs - 24, True)]"
    using merge_all_free [of a "release z bs"] bs by simp
  with free_step [OF assms(1), of z s] x z show ?thesis by (auto simp: abs_free_def)
qed

theorem free_last_block_restores_heap_witness:
  "\<exists>p k1 k2 n ds. malloc 64 demo_heap = Some (p, k1) \<and> free p k1 = Some k2
     \<and> heap_inv (mem k2) 0xffff800000200000 [(n, True)] ds"
proof -
  obtain p x s k1 bs ds where d: "malloc 64 demo_heap = Some (p, k1)" "heap_inv (mem k1) 0xffff800000200000 bs ds"
      "p = of_nat x" "live 0xffff800000200000 bs = {(x, s)}"
    using demo_malloc by blast
  with free_last_block_restores_heap [OF d(2,4)] show ?thesis by blast
qed

text \<open>C24: the coalescing loop does not look at addresses: of two free blocks linked one after the
  other it makes one, wherever the second lies, so that a block of the summed size is recorded
  at the first although other memory may lie between them.\<close>

theorem free_merge_ignores_addresses:
  fixes k :: "'a kmem_scheme"
  assumes "c \<noteq> 0" "d \<noteq> 0" and "span c 24 \<inter> span d 24 = {}"
    and "hdr_next (kram k) c = d" "hdr_next (kram k) d = 0"
    and "hdr_is_free (kram k) c \<noteq> 0" "hdr_is_free (kram k) d \<noteq> 0"
  shows "\<exists>k'. free_merge c k = Some k' \<and> hdr_next (kram k') c = 0
    \<and> hdr_size (kram k') c = hdr_size (kram k) c + 24 + hdr_size (kram k) d"
proof -
  have "span d 24 \<inter> span c 24 = {}" using assms(3) by blast
  then have "hdr_next (merge_ram c (kram k)) c = 0"
      "hdr_size (merge_ram c (kram k)) c = hdr_size (kram k) c + 24 + hdr_size (kram k) d"
    using assms(4,5) by (simp_all add: merge_ram_def Let_def cell_apart)
  with assms show ?thesis by (subst free_merge_step) (subst free_merge_step, simp)
qed

definition demo_gap :: kmem where
  "demo_gap = set_ram (set_hdr_is_free 0x400 1 (set_hdr_size 0x400 40
     (set_hdr_next 0x100 0x400 (set_hdr_is_free 0x100 1 (set_hdr_size 0x100 16 (\<lambda>_. 0)))))) demo_boot"

theorem free_merge_ignores_addresses_witness:
  "\<exists>k'. free_merge 0x100 demo_gap = Some k' \<and> hdr_size (kram k') 0x100 = 80"
proof -
  have ap: "span 0x400 24 \<inter> span (0x100 :: u64) 24 = {}" "span 0x100 24 \<inter> span (0x400 :: u64) 24 = {}"
    using span_apart [of 256 24 1024 24] by (simp_all add: Int_commute)
  have z: "hdr_next (\<lambda>_. 0) 0x400 = 0"
    by (simp add: hdr_next_def ld64_def load_bytes_def word_of_def upt_rec)
  show ?thesis
    using free_merge_ignores_addresses [of "0x100" "0x400" demo_gap] ap
    by (simp add: demo_gap_def cell_apart z, blast)
qed

text \<open>\<open>free_page\<close> undoes \<open>alloc_page\<close>: the page is again at the head of the free list, with
  reference count 0, the rest of the list and the page counter are as before, and the page's
  2 MB are zero.\<close>

theorem alloc_free_page_round_trip:
  fixes k :: "'a kmem_scheme"
  assumes "pseg (kram k) (d # ds) v (free_pages_list (mem k))" and "descs_ok (d # ds) lo hi"
    and "lo \<le> v" and "v + 2097152 \<le> hi" and "hi \<le> 2 ^ 64"
  shows "\<exists>k1. alloc_page k = (of_nat d, k1) \<and> pseg (kram k1) ds (v + 2097152) (free_pages_list (mem k1))
    \<and> (\<forall>x\<in>span (of_nat v) 2097152. kram k1 x = 0)
    \<and> pseg (kram (free_page (of_nat d) k1)) (d # ds) v (free_pages_list (mem (free_page (of_nat d) k1)))
    \<and> total_free_pages (mem (free_page (of_nat d) k1)) = total_free_pages (mem k)"
proof -
  define k1 where "k1 = snd (alloc_page k)"
  note al = alloc_page_list [OF assms]
  have k1: "alloc_page k = (of_nat d, k1)" "free_pages_list (mem k1) = page_next (kram k) (of_nat d)"
      "kram k1 = alloc_page_ram d v (kram k)" "total_free_pages (mem k1) = total_free_pages (mem k) - 1"
    using al(1,3) by (simp_all add: k1_def prod_eq_iff)
  have seg: "pseg (kram k1) ds (v + 2097152) (free_pages_list (mem k1))" using al(4) k1 by simp
  have dv: "span (of_nat d) 24 \<inter> span (of_nat v :: u64) 2097152 = {}"
    using assms(2-5) by (intro descs_ok_apart) auto
  have ref: "page_ref_count (kram k1) (of_nat d) = 1"
  proof -
    have "page_ref_count (kram k1) (of_nat d)
        = page_ref_count (set_page_ref_count (of_nat d) 1 (set_page_next (of_nat d) 0 (kram k))) (of_nat d)"
      by (rule page_ref.get_agree) (use dv in \<open>auto simp: k1(3) alloc_page_ram_def intro!: memset_frame\<close>)
    then show ?thesis by simp
  qed
  note fr = free_page_list [OF seg _ _ descs_head_apart [OF assms(2)] ref]
  have d: "0 < d" "d + 24 \<le> 2 ^ 64" using assms(2) by (simp_all add: descs_ok_Cons)
  note fr = fr [OF d]
  have "page_phy_addr (kram (free_page (of_nat d) k1)) (of_nat d) = page_phy_addr (kram k1) (of_nat d)"
    using d of_nat64_eq_0 [of d] ref by (simp add: free_page_def Let_def)
  with fr al(5) k1(3) have "pseg (kram (free_page (of_nat d) k1)) (d # ds) v (free_pages_list (mem (free_page (of_nat d) k1)))"
    by simp
  moreover have "\<forall>x\<in>span (of_nat v) 2097152. kram k1 x = 0"
    by (simp add: k1(3) alloc_page_ram_def memset_inside)
  ultimately show ?thesis using k1 seg fr(5) by auto
qed

theorem alloc_free_page_round_trip_witness:
  "\<exists>k1. alloc_page demo_heap = (0xffff800000000000, k1)
     \<and> total_free_pages (mem (free_page 0xffff800000000000 k1)) = total_free_pages (mem demo_heap)"
proof -
  let ?ds = "map (\<lambda>i. 0xffff800000000000 + 24 * i) [0..<7] :: nat list"
  have ds: "?ds = 0xffff800000000000 # map (\<lambda>i. 0xffff800000000000 + 24 * i) [1..<7]"
    by (simp add: upt_rec)
  have h: "pseg (kram demo_heap) ?ds 0xffff800000200000 (free_pages_list (mem demo_heap))"
      "descs_ok ?ds 0xffff800000200000 (0xffff800000200000 + 2097152 * 7)"
    using demo_heap_start by (simp_all add: heap_inv_def)
  from alloc_free_page_round_trip [OF h [unfolded ds]] show ?thesis by auto
qed

end
