(* ===== verification/Scheduler.thy ===== *)
theory Scheduler
  imports Heap
begin

text \<open>
  The cooperative scheduler (\<open>kernel/scheduler.c\<close>, \<open>scheduler.h\<close>, \<open>context_switch.asm\<close>): a table
  of eight processes, their creation and exit, the round-robin choice of \<open>process_yield\<close> and the
  switch of the callee-saved registers. \<open>cpu\<close> holds these registers as the running code has them
  when it calls \<open>context_switch_asm\<close>; the contents of the stacks are not modelled, so the quadword
  the switch reads at \<open>[rsp]\<close> (the return address the \<open>call\<close> has pushed) is an argument. The
  addresses the linker chooses are the fields of \<open>code_addr\<close>.
\<close>

abbreviation (input) MAX_PROCESSES :: nat where "MAX_PROCESSES \<equiv> 8"
abbreviation (input) STACK_SIZE :: u64 where "STACK_SIZE \<equiv> 4096 * 4"

record process_context =
  rbx :: u64
  rbp :: u64
  r12 :: u64
  r13 :: u64
  r14 :: u64
  r15 :: u64
  rsp :: u64
  rip :: u64

datatype proc_state = PROC_UNUSED | PROC_READY | PROC_RUNNING | PROC_BLOCKED

record process =
  pid :: u64
  pstate :: proc_state
  p_context :: process_context
  stack :: u64
  stack_size :: u64

record sched =
  g_procs :: "nat \<Rightarrow> process"
  g_current :: int
  g_next_pid :: u64
  g_scheduler_started :: bool

record ksched = kmem +
  sch :: sched
  cpu :: process_context

record code_addr =
  process_wrapper_addr :: u64
  idle_process_addr :: u64
  yield_return :: u64

definition context0 :: process_context where
  "context0 = \<lparr>rbx = 0, rbp = 0, r12 = 0, r13 = 0, r14 = 0, r15 = 0, rsp = 0, rip = 0\<rparr>"

text \<open>The initial values of the static variables.\<close>

definition sched_boot :: sched where
  "sched_boot = \<lparr>g_procs = (\<lambda>_. \<lparr>pid = 0, pstate = PROC_UNUSED, p_context = context0, stack = 0, stack_size = 0\<rparr>),
     g_current = -1, g_next_pid = 1, g_scheduler_started = False\<rparr>"

text \<open>\<open>f\<close> applied to the entry \<open>i\<close> of the table.\<close>

definition upd_proc :: "nat \<Rightarrow> (process \<Rightarrow> process) \<Rightarrow> 'a ksched_scheme \<Rightarrow> 'a ksched_scheme" where
  "upd_proc i f k = k\<lparr>sch := (sch k)\<lparr>g_procs := (g_procs (sch k))(i := f (g_procs (sch k) i))\<rparr>\<rparr>"

abbreviation procs :: "'a ksched_scheme \<Rightarrow> nat \<Rightarrow> process" where "procs k \<equiv> g_procs (sch k)"

definition set_current :: "int \<Rightarrow> 'a ksched_scheme \<Rightarrow> 'a ksched_scheme" where
  "set_current c k = k\<lparr>sch := (sch k)\<lparr>g_current := c\<rparr>\<rparr>"

definition context_switch_asm :: "u64 \<Rightarrow> nat option \<Rightarrow> nat \<Rightarrow> 'a ksched_scheme \<Rightarrow> 'a ksched_scheme" where
  "context_switch_asm ret old new k =
     (let k = k\<lparr>cpu := (cpu k)\<lparr>rsp := rsp (cpu k) - 8\<rparr>\<rparr>;
          k = (case old of
                 None \<Rightarrow> k
               | Some i \<Rightarrow> upd_proc i (\<lambda>p. p\<lparr>p_context := (cpu k)\<lparr>rip := ret\<rparr>\<rparr>) k)
      in k\<lparr>cpu := p_context (procs k new)\<rparr>)"

definition scheduler_init :: "'a ksched_scheme \<Rightarrow> 'a ksched_scheme" where
  "scheduler_init k = printk (''[SCHED] Scheduler initialized'' @ NL) [] k"

definition alloc_slot :: "'a ksched_scheme \<Rightarrow> int" where
  "alloc_slot k = (case List.find (\<lambda>i. pstate (procs k i) = PROC_UNUSED) [0..<MAX_PROCESSES] of
     Some i \<Rightarrow> int i | None \<Rightarrow> -1)"

definition process_create :: "code_addr \<Rightarrow> u64 \<Rightarrow> u64 \<Rightarrow> 'a ksched_scheme \<Rightarrow> (int \<times> 'a ksched_scheme) option" where
  "process_create ca entry arg k =
     (let idx = alloc_slot k
      in if idx < 0 then Some (-1, printk (''[SCHED] ERROR: No free process slots'' @ NL) [] k)
      else case malloc STACK_SIZE k of
          None \<Rightarrow> None
        | Some (stk, k) \<Rightarrow>
            if stk = 0 then Some (-1, printk (''[SCHED] ERROR: Failed to allocate stack'' @ NL) [] k)
            else
              let i = nat idx;
                  k = upd_proc i (\<lambda>p. p\<lparr>stack := stk\<rparr>) k;
                  k = upd_proc i (\<lambda>p. p\<lparr>stack_size := STACK_SIZE\<rparr>) k;
                  k = upd_proc i (\<lambda>p. p\<lparr>pid := g_next_pid (sch k)\<rparr>) k;
                  k = k\<lparr>sch := (sch k)\<lparr>g_next_pid := g_next_pid (sch k) + 1\<rparr>\<rparr>;
                  k = upd_proc i (\<lambda>p. p\<lparr>pstate := PROC_READY\<rparr>) k;
                  stack_top = (stk + STACK_SIZE) AND NOT 0xF;
                  k = upd_proc i (\<lambda>p. p\<lparr>p_context := \<lparr>rbx = entry, rbp = 0, r12 = arg, r13 = 0, r14 = 0,
                        r15 = 0, rsp = stack_top, rip = process_wrapper_addr ca\<rparr>\<rparr>) k;
                  k = printk (''[SCHED] Created process PID=%d in slot %d'' @ NL)
                        [ArgW (pid (procs k i)), ArgW (of_int idx)] k
              in Some (idx, k))"

text \<open>The first ready slot from \<open>start\<close> on, cyclically.\<close>

definition next_ready :: "'a ksched_scheme \<Rightarrow> nat \<Rightarrow> nat option" where
  "next_ready k start = map_option (\<lambda>i. (start + i) mod MAX_PROCESSES)
     (List.find (\<lambda>i. pstate (procs k ((start + i) mod MAX_PROCESSES)) = PROC_READY) [0..<MAX_PROCESSES])"

definition process_yield :: "code_addr \<Rightarrow> 'a ksched_scheme \<Rightarrow> 'a ksched_scheme" where
  "process_yield ca k =
     (if \<not> g_scheduler_started (sch k) then k
      else if g_current (sch k) < 0 then k
      else
        let cur = nat (g_current (sch k));
            k = (if pstate (procs k cur) = PROC_RUNNING then upd_proc cur (\<lambda>p. p\<lparr>pstate := PROC_READY\<rparr>) k else k);
            start = (cur + 1) mod MAX_PROCESSES
        in case next_ready k start of
            None \<Rightarrow> upd_proc cur (\<lambda>p. p\<lparr>pstate := PROC_RUNNING\<rparr>) k
          | Some next \<Rightarrow>
              if next = cur then upd_proc cur (\<lambda>p. p\<lparr>pstate := PROC_RUNNING\<rparr>) k
              else
                let k = set_current (int next) k;
                    k = upd_proc next (\<lambda>p. p\<lparr>pstate := PROC_RUNNING\<rparr>) k
                in context_switch_asm (yield_return ca) (Some cur) next k)"

definition scheduler_tick :: "'a ksched_scheme \<Rightarrow> 'a ksched_scheme" where
  "scheduler_tick k = k"

definition get_current_pid :: "'a ksched_scheme \<Rightarrow> u64" where
  "get_current_pid k =
     (let c = g_current (sch k)
      in if 0 \<le> c \<and> c < int MAX_PROCESSES \<and> pstate (procs k (nat c)) \<noteq> PROC_UNUSED
         then pid (procs k (nat c)) else 0)"

text \<open>
  \<open>scheduler_start\<close> jumps into the first process. The message after the switch is reached by no
  execution: the switch saves no context to return to.
\<close>

definition scheduler_start :: "code_addr \<Rightarrow> 'a ksched_scheme \<Rightarrow> 'a ksched_scheme option" where
  "scheduler_start ca k =
     (if g_scheduler_started (sch k) then Some k
      else
        let k = printk (''[SCHED] Starting scheduler.. .'' @ NL) [] k;
            (ready_count, k) = fold (\<lambda>i (n, k).
                if pstate (procs k i) = PROC_READY
                then (n + 1, printk (''[SCHED] Found process PID %d in slot %d'' @ NL)
                               [ArgW (pid (procs k i)), ArgW (of_nat i)] k)
                else (n, k)) [0..<MAX_PROCESSES] (0 :: nat, k)
        in case (if ready_count = 0
                 then map_option snd (process_create ca (idle_process_addr ca) 0
                        (printk (''[SCHED] No processes ready, creating idle'' @ NL) [] k))
                 else Some k) of
            None \<Rightarrow> None
          | Some k \<Rightarrow>
              (case List.find (\<lambda>i. pstate (procs k i) = PROC_READY) [0..<MAX_PROCESSES] of
                 None \<Rightarrow> Some (printk (''[SCHED] ERROR: No processes to run!'' @ NL) [] k)
               | Some first \<Rightarrow>
                   let k = set_current (int first) k;
                       k = upd_proc first (\<lambda>p. p\<lparr>pstate := PROC_RUNNING\<rparr>) k;
                       k = k\<lparr>sch := (sch k)\<lparr>g_scheduler_started := True\<rparr>\<rparr>;
                       k = printk (''[SCHED] Starting with PID %d'' @ NL) [ArgW (pid (procs k first))] k;
                       k = printk (''[SCHED] Jumping to first process.. .'' @ NL @ NL) [] k
                   in Some (context_switch_asm 0 None first k)))"

definition process_exit :: "code_addr \<Rightarrow> 'a ksched_scheme \<Rightarrow> 'a ksched_scheme option" where
  "process_exit ca k =
     (if g_current (sch k) < 0 then Some k
      else
        let cur = nat (g_current (sch k));
            exiting_pid = pid (procs k cur);
            k = printk (''[SCHED] Process %d exiting'' @ NL) [ArgW exiting_pid] k
        in case (if stack (procs k cur) \<noteq> 0 then free (stack (procs k cur)) k else Some k) of
            None \<Rightarrow> None
          | Some k \<Rightarrow>
              let k = upd_proc cur (\<lambda>p. p\<lparr>pstate := PROC_UNUSED\<rparr>) k;
                  k = upd_proc cur (\<lambda>p. p\<lparr>pid := 0\<rparr>) k;
                  k = upd_proc cur (\<lambda>p. p\<lparr>stack := 0\<rparr>) k;
                  k = upd_proc cur (\<lambda>p. p\<lparr>stack_size := 0\<rparr>) k;
                  other = List.find (\<lambda>i. (pstate (procs k i) = PROC_READY \<or> pstate (procs k i) = PROC_RUNNING)
                            \<and> int i \<noteq> g_current (sch k)) [0..<MAX_PROCESSES]
              in case (case other of
                         Some i \<Rightarrow> Some (int i, k)
                       | None \<Rightarrow> process_create ca (idle_process_addr ca) 0
                                   (printk (''[SCHED] No processes left, creating idle'' @ NL) [] k)) of
                  None \<Rightarrow> None
                | Some (next, k) \<Rightarrow>
                    if next < 0 then
                      let k = printk (''[SCHED] FATAL: Cannot create idle process!'' @ NL) [] k;
                          k = k\<lparr>sch := (sch k)\<lparr>g_scheduler_started := False\<rparr>\<rparr>
                      in Some (set_current (-1) k)
                    else
                      let k = set_current next k;
                          k = upd_proc (nat next) (\<lambda>p. p\<lparr>pstate := PROC_RUNNING\<rparr>) k;
                          k = printk (''[SCHED] Switching to PID %d after exit'' @ NL) [ArgW (pid (procs k (nat next)))] k
                      in Some (context_switch_asm 0 None (nat next) k))"

definition get_process_count :: "'a ksched_scheme \<Rightarrow> nat" where
  "get_process_count k = fold (\<lambda>i count. if pstate (procs k i) \<noteq> PROC_UNUSED then count + 1 else count)
     [0..<MAX_PROCESSES] 0"

definition get_process_pid :: "int \<Rightarrow> 'a ksched_scheme \<Rightarrow> u64" where
  "get_process_pid index k =
     (if 0 \<le> index \<and> index < int MAX_PROCESSES \<and> pstate (procs k (nat index)) \<noteq> PROC_UNUSED
      then pid (procs k (nat index)) else 0)"

definition get_process_state :: "int \<Rightarrow> 'a ksched_scheme \<Rightarrow> proc_state" where
  "get_process_state index k =
     (if 0 \<le> index \<and> index < int MAX_PROCESSES then pstate (procs k (nat index)) else PROC_UNUSED)"

fun state_code :: "proc_state \<Rightarrow> u64" where
  "state_code PROC_UNUSED = 0" | "state_code PROC_READY = 1"
| "state_code PROC_RUNNING = 2" | "state_code PROC_BLOCKED = 3"

definition debug_print_processes :: "'a ksched_scheme \<Rightarrow> 'a ksched_scheme" where
  "debug_print_processes k = fold (\<lambda>i k.
       if pstate (procs k i) \<noteq> PROC_UNUSED
       then printk (''  Slot %d: PID=%d, State=%d, Stack=0x%lx, RSP=0x%lx, RIP=0x%lx'' @ NL)
              [ArgW (of_nat i), ArgW (pid (procs k i)), ArgW (state_code (pstate (procs k i))),
               ArgW (stack (procs k i)), ArgW (rsp (p_context (procs k i))), ArgW (rip (p_context (procs k i)))] k
       else k) [0..<MAX_PROCESSES]
     (printk (''[SCHED] Process table (current=%d):'' @ NL) [ArgW (of_int (g_current (sch k)))] k)"

text \<open>The body of \<open>idle_process\<close> up to its endless halt loop.\<close>

definition idle_process :: "'a ksched_scheme \<Rightarrow> 'a ksched_scheme" where
  "idle_process k = printk (NL @ ''[IDLE] Idle process started (PID %d)'' @ NL) [ArgW (get_current_pid k)] k"

text \<open>\<open>call f x\<close> stands for the execution of the code at address \<open>f\<close> with argument \<open>x\<close>.\<close>

definition process_wrapper :: "(u64 \<Rightarrow> u64 \<Rightarrow> 'a ksched_scheme \<Rightarrow> 'a ksched_scheme option) \<Rightarrow> code_addr
    \<Rightarrow> 'a ksched_scheme \<Rightarrow> 'a ksched_scheme option" where
  "process_wrapper call ca k =
     (if g_current (sch k) < 0 \<or> int MAX_PROCESSES \<le> g_current (sch k) then Some k
      else
        let cur = nat (g_current (sch k));
            entry = rbx (p_context (procs k cur));
            arg = r12 (p_context (procs k cur))
        in case call entry arg k of
            None \<Rightarrow> None
          | Some k \<Rightarrow> process_exit ca (printk (''[SCHED] Process %d finished'' @ NL) [ArgW (pid (procs k cur))] k))"


subsection \<open>Frames\<close>

lemma sched_frame [simp, frame_simps]:
  "mem (printk f as (k :: 'a ksched_scheme)) = mem k" "sch (printk f as k) = sch k" "cpu (printk f as k) = cpu k"
  "mem (printk_color fg bg f as k) = mem k" "sch (printk_color fg bg f as k) = sch k" "cpu (printk_color fg bg f as k) = cpu k"
  by (simp_all add: printk_def printk_color_def split: option.splits)

lemma upd_proc_frame [simp, frame_simps]:
  "mem (upd_proc i f k) = mem k" "cpu (upd_proc i f k) = cpu k" "con (upd_proc i f k) = con k"
  "g_current (sch (upd_proc i f k)) = g_current (sch k)" "g_next_pid (sch (upd_proc i f k)) = g_next_pid (sch k)"
  "g_scheduler_started (sch (upd_proc i f k)) = g_scheduler_started (sch k)"
  "procs (upd_proc i f k) = (procs k)(i := f (procs k i))"
  by (simp_all add: upd_proc_def)

lemma set_current_frame [simp, frame_simps]:
  "mem (set_current c k) = mem k" "cpu (set_current c k) = cpu k" "con (set_current c k) = con k"
  "sch (set_current c k) = (sch k)\<lparr>g_current := c\<rparr>"
  by (simp_all add: set_current_def)

lemma upd_proc_sch: "sch (upd_proc i f k) = (sch k)\<lparr>g_procs := (procs k)(i := f (procs k i))\<rparr>"
  by (simp add: upd_proc_def)

lemma context_switch_frame [simp, frame_simps]:
  "mem (context_switch_asm r old new k) = mem k" "con (context_switch_asm r old new k) = con k"
  "g_current (sch (context_switch_asm r old new k)) = g_current (sch k)"
  "g_next_pid (sch (context_switch_asm r old new k)) = g_next_pid (sch k)"
  "g_scheduler_started (sch (context_switch_asm r old new k)) = g_scheduler_started (sch k)"
  "pstate (procs (context_switch_asm r old new k) i) = pstate (procs k i)"
  "pid (procs (context_switch_asm r old new k) i) = pid (procs k i)"
  "stack (procs (context_switch_asm r old new k) i) = stack (procs k i)"
  by (simp_all add: context_switch_asm_def Let_def split: option.split)

lemma ksched_more:
  fixes k k' :: "'a ksched_scheme"
  assumes "kmem.more k' = kmem.more k"
  shows "sch k' = sch k \<and> cpu k' = cpu k"
  using assms by (cases k; cases k') simp


subsection \<open>The table and its stacks\<close>

abbreviation used :: "sched \<Rightarrow> nat \<Rightarrow> bool" where
  "used s i \<equiv> pstate (g_procs s i) \<noteq> PROC_UNUSED"

text \<open>What holds of the slots: an unused slot is blank; the ids of the others are distinct, not 0
  and below the next id.\<close>

definition slots_ok :: "sched \<Rightarrow> bool" where
  "slots_ok s \<longleftrightarrow> (\<forall>i<8. pstate (g_procs s i) \<noteq> PROC_BLOCKED
      \<and> (if used s i then 0 < pid (g_procs s i) \<and> pid (g_procs s i) < g_next_pid s \<and> stack (g_procs s i) \<noteq> 0
         else pid (g_procs s i) = 0 \<and> stack (g_procs s i) = 0))
    \<and> (\<forall>i<8. \<forall>j<8. used s i \<longrightarrow> pid (g_procs s i) = pid (g_procs s j) \<longrightarrow> i = j)
    \<and> 0 < g_next_pid s"

text \<open>The current process is the only one marked as running.\<close>

definition current_ok :: "sched \<Rightarrow> bool" where
  "current_ok s \<longleftrightarrow> -1 \<le> g_current s \<and> g_current s < 8 \<and> (g_scheduler_started s \<longleftrightarrow> 0 \<le> g_current s)
    \<and> (\<forall>i<8. pstate (g_procs s i) = PROC_RUNNING \<longleftrightarrow> int i = g_current s)"

text \<open>The stacks are distinct buffers of the allocator, large enough.\<close>

definition stacks_ok :: "(u64 \<times> nat) set \<Rightarrow> sched \<Rightarrow> bool" where
  "stacks_ok owned s \<longleftrightarrow> (\<forall>i<8. used s i \<longrightarrow> (\<exists>m\<ge>16384. (stack (g_procs s i), m) \<in> owned))
    \<and> (\<forall>i<8. \<forall>j<8. used s i \<longrightarrow> stack (g_procs s i) = stack (g_procs s j) \<longrightarrow> i = j)"

definition sched_inv :: "nat \<Rightarrow> 'a ksched_scheme \<Rightarrow> bool" where
  "sched_inv a k \<longleftrightarrow> slots_ok (sch k) \<and> current_ok (sch k)
    \<and> (\<exists>st. heap_rel a k st \<and> stacks_ok (heap_owned a st) (sch k))"

lemma alloc_slot_cases:
  obtains "alloc_slot k = -1" "\<forall>i<8. used (sch k) i"
  | i where "alloc_slot k = int i" "i < 8" "\<not> used (sch k) i" "\<forall>j<i. used (sch k) j"
proof (cases "List.find (\<lambda>i. pstate (procs k i) = PROC_UNUSED) [0..<8]")
  case None
  then have "alloc_slot k = -1" by (simp add: alloc_slot_def del: upt_rec_numeral)
  with None show ?thesis using that(1) by (simp add: find_upt_None del: upt_rec_numeral)
next
  case (Some i)
  then have "alloc_slot k = int i" by (simp add: alloc_slot_def del: upt_rec_numeral)
  with Some show ?thesis using that(2) [of i] by (simp add: find_upt_Some del: upt_rec_numeral)
qed

definition fresh_process :: "code_addr \<Rightarrow> u64 \<Rightarrow> u64 \<Rightarrow> u64 \<Rightarrow> u64 \<Rightarrow> process" where
  "fresh_process ca entry arg stk n = \<lparr>pid = n, pstate = PROC_READY,
     p_context = \<lparr>rbx = entry, rbp = 0, r12 = arg, r13 = 0, r14 = 0, r15 = 0,
       rsp = (stk + 16384) AND NOT 0xF, rip = process_wrapper_addr ca\<rparr>,
     stack = stk, stack_size = 16384\<rparr>"

lemma process_create_new:
  fixes k :: "'a ksched_scheme"
  assumes "alloc_slot k = int i" and "malloc 16384 k = Some (stk, k1)" and "stk \<noteq> 0"
  shows "\<exists>k'. process_create ca entry arg k = Some (int i, k') \<and> mem k' = mem k1 \<and> cpu k' = cpu k1
    \<and> sch k' = (sch k1)\<lparr>g_procs := (procs k1)(i := fresh_process ca entry arg stk (g_next_pid (sch k1))),
                 g_next_pid := g_next_pid (sch k1) + 1\<rparr>"
proof -
  have m: "malloc (4096 * 4) k = Some (stk, k1)" using assms(2) by simp
  show ?thesis
    unfolding process_create_def Let_def assms(1) m
    using assms(3) by (auto simp: upd_proc_def fresh_process_def intro!: sched.equality ext process.equality)
qed

lemma create_step:
  fixes k :: "'a ksched_scheme"
  assumes "heap_rel a k st"
  shows "\<exists>idx k' st'. process_create ca entry arg k = Some (idx, k') \<and> heap_rel a k' st' \<and> cpu k' = cpu k
    \<and> (idx = -1 \<and> sch k' = sch k \<and> heap_owned a st' = heap_owned a st
       \<or> (\<exists>i<8. \<exists>stk m. idx = int i \<and> \<not> used (sch k) i \<and> (\<forall>j<i. used (sch k) j) \<and> stk \<noteq> 0 \<and> 16384 \<le> m
            \<and> (stk, m) \<notin> heap_owned a st \<and> heap_owned a st' = insert (stk, m) (heap_owned a st)
            \<and> sch k' = (sch k)\<lparr>g_procs := (procs k)(i := fresh_process ca entry arg stk (g_next_pid (sch k))),
                 g_next_pid := g_next_pid (sch k) + 1\<rparr>))"
proof (cases rule: alloc_slot_cases [of k])
  case 1
  then have "process_create ca entry arg k = Some (-1, printk (''[SCHED] ERROR: No free process slots'' @ NL) [] k)"
    by (simp add: process_create_def)
  moreover have "heap_rel a (printk (''[SCHED] ERROR: No free process slots'' @ NL) [] k) st"
    using assms heap_rel_mem [OF sched_frame(1)] by blast
  ultimately show ?thesis
    by (intro exI [of _ "-1 :: int"] exI [of _ "printk (''[SCHED] ERROR: No free process slots'' @ NL) [] k"] exI [of _ st]) simp
next
  case (2 i)
  have lt: "(16384 :: nat) < 2 ^ 64 \<longleftrightarrow> True" by simp
  obtain p k1 st1 where m: "malloc (of_nat 16384) k = Some (p, k1)" "heap_rel a k1 st1"
      "p = 0 \<and> heap_owned a st1 = heap_owned a st \<or> p \<noteq> 0 \<and> (\<exists>m\<ge>16384. (p, m) \<notin> heap_owned a st
         \<and> heap_owned a st1 = insert (p, m) (heap_owned a st))"
    using kheap.alloc_law [OF assms, of 16384, simplified lt] by blast
  note more = ksched_more [OF malloc_more [OF m(1)]]
  show ?thesis
  proof (cases "p = 0")
    case True
    then have "malloc (4096 * 4) k = Some (0, k1)" using m(1) by simp
    then have "process_create ca entry arg k = Some (-1, printk (''[SCHED] ERROR: Failed to allocate stack'' @ NL) [] k1)"
      unfolding process_create_def Let_def 2(1) by simp
    moreover have "heap_rel a (printk (''[SCHED] ERROR: Failed to allocate stack'' @ NL) [] k1) st1"
      using m(2) heap_rel_mem [OF sched_frame(1)] by blast
    ultimately show ?thesis using True m(3) more
      by (intro exI [of _ "-1 :: int"] exI [of _ "printk (''[SCHED] ERROR: Failed to allocate stack'' @ NL) [] k1"]
          exI [of _ st1]) simp
  next
    case False
    with m(3) obtain l where l: "16384 \<le> l" "(p, l) \<notin> heap_owned a st" "heap_owned a st1 = insert (p, l) (heap_owned a st)"
      by blast
    have "malloc 16384 k = Some (p, k1)" using m(1) by simp
    from process_create_new [OF 2(1) this False, of ca entry arg] obtain k' where
      k': "process_create ca entry arg k = Some (int i, k')" "mem k' = mem k1" "cpu k' = cpu k"
        "sch k' = (sch k)\<lparr>g_procs := (procs k)(i := fresh_process ca entry arg p (g_next_pid (sch k))),
                 g_next_pid := g_next_pid (sch k) + 1\<rparr>"
      using more by auto
    then have "heap_rel a k' st1" using m(2) heap_rel_mem by blast
    with k' 2 l False show ?thesis by blast
  qed
qed


lemma create_inv:
  fixes k :: "'a ksched_scheme"
  assumes h: "heap_rel a k st" and slots: "slots_ok (sch k)" and st: "stacks_ok (heap_owned a st) (sch k)"
    and n: "unat (g_next_pid (sch k)) < 2 ^ 64 - 1"
  shows "\<exists>idx k' st'. process_create ca entry arg k = Some (idx, k') \<and> heap_rel a k' st' \<and> cpu k' = cpu k
    \<and> slots_ok (sch k') \<and> stacks_ok (heap_owned a st') (sch k')
    \<and> g_current (sch k') = g_current (sch k) \<and> g_scheduler_started (sch k') = g_scheduler_started (sch k)
    \<and> unat (g_next_pid (sch k')) \<le> unat (g_next_pid (sch k)) + 1
    \<and> (idx = -1 \<and> procs k' = procs k
       \<or> (\<exists>i<8. idx = int i \<and> \<not> used (sch k) i \<and> pstate (procs k' i) = PROC_READY
             \<and> (\<forall>j. j \<noteq> i \<longrightarrow> procs k' j = procs k j)))"
proof -
  obtain idx k' st' where c: "process_create ca entry arg k = Some (idx, k')" "heap_rel a k' st'" "cpu k' = cpu k"
    and r: "idx = -1 \<and> sch k' = sch k \<and> heap_owned a st' = heap_owned a st
       \<or> (\<exists>i<8. \<exists>stk m. idx = int i \<and> \<not> used (sch k) i \<and> (\<forall>j<i. used (sch k) j) \<and> stk \<noteq> 0 \<and> 16384 \<le> m
            \<and> (stk, m) \<notin> heap_owned a st \<and> heap_owned a st' = insert (stk, m) (heap_owned a st)
            \<and> sch k' = (sch k)\<lparr>g_procs := (procs k)(i := fresh_process ca entry arg stk (g_next_pid (sch k))),
                 g_next_pid := g_next_pid (sch k) + 1\<rparr>)"
    using create_step [OF h, of ca entry arg] by blast
  from r show ?thesis
  proof
    assume "idx = -1 \<and> sch k' = sch k \<and> heap_owned a st' = heap_owned a st"
    with c slots st show ?thesis by fastforce
  next
    assume "\<exists>i<8. \<exists>stk m. idx = int i \<and> \<not> used (sch k) i \<and> (\<forall>j<i. used (sch k) j) \<and> stk \<noteq> 0 \<and> 16384 \<le> m
            \<and> (stk, m) \<notin> heap_owned a st \<and> heap_owned a st' = insert (stk, m) (heap_owned a st)
            \<and> sch k' = (sch k)\<lparr>g_procs := (procs k)(i := fresh_process ca entry arg stk (g_next_pid (sch k))),
                 g_next_pid := g_next_pid (sch k) + 1\<rparr>"
    then obtain i stk m where i: "i < 8" "idx = int i" "\<not> used (sch k) i" and stk: "stk \<noteq> 0" "16384 \<le> m"
            "(stk, m) \<notin> heap_owned a st" "heap_owned a st' = insert (stk, m) (heap_owned a st)"
      and s': "sch k' = (sch k)\<lparr>g_procs := (procs k)(i := fresh_process ca entry arg stk (g_next_pid (sch k))),
                 g_next_pid := g_next_pid (sch k) + 1\<rparr>" by blast
    have n': "unat (g_next_pid (sch k) + 1) = unat (g_next_pid (sch k)) + 1"
      using n by (simp add: unat_word_ariths)
    have lt: "x < g_next_pid (sch k) \<Longrightarrow> x < g_next_pid (sch k) + 1" "g_next_pid (sch k) < g_next_pid (sch k) + 1" for x
      using n' by (simp_all add: word_less_nat_alt)
    have "0 < g_next_pid (sch k) + 1" using n' by (simp add: word_less_nat_alt)
    moreover have "\<forall>j<8. pid (procs k j) \<noteq> g_next_pid (sch k)"
      using slots unfolding slots_ok_def by (metis less_irrefl)
    ultimately have "slots_ok (sch k')"
      using slots lt i(1,3) stk(1) unfolding slots_ok_def s' by (auto simp: fresh_process_def)
    moreover have "stk \<noteq> stack (procs k j)" if j: "j < 8" "used (sch k) j" for j
    proof
      assume eq: "stk = stack (procs k j)"
      obtain l where "16384 \<le> l" "(stk, l) \<in> heap_owned a st"
        using st j unfolding stacks_ok_def eq by blast
      with kheap.same_block [OF c(2), of stk l m] stk show False by auto
    qed
    then have "\<forall>j<8. stk \<noteq> stack (procs k j)"
      using slots stk(1) unfolding slots_ok_def by (metis (full_types))
    then have "stacks_ok (heap_owned a st') (sch k')"
      using st stk(2,4) unfolding stacks_ok_def s' by (auto simp: fresh_process_def)
    moreover have "pstate (procs k' i) = PROC_READY" "\<forall>j. j \<noteq> i \<longrightarrow> procs k' j = procs k j"
        "unat (g_next_pid (sch k')) \<le> unat (g_next_pid (sch k)) + 1"
        "g_current (sch k') = g_current (sch k)" "g_scheduler_started (sch k') = g_scheduler_started (sch k)"
      using n' by (simp_all add: s' fresh_process_def)
    ultimately show ?thesis using c i by blast
  qed
qed

subsection \<open>Yielding\<close>

lemma mod8: "x < 16 \<Longrightarrow> x mod 8 = (if x < 8 then x else x - 8 :: nat)"
  by presburger

lemma cyclic_self: "(c + 1 + 7) mod 8 = c" "(c + 1) mod 8 = (c + 1 :: nat) mod 8" if "c < (8 :: nat)"
  using that by (simp_all add: mod_if)

lemma cyclic_inj: "i < 7 \<Longrightarrow> c < 8 \<Longrightarrow> (c + 1 + i) mod 8 \<noteq> (c :: nat)"
  by presburger

lemma cyclic_reach:
  assumes "c < 8" and "j < 8" and "j \<noteq> (c :: nat)"
  shows "\<exists>d<7. (c + 1 + d) mod 8 = j"
proof (cases "c < j")
  case True
  then show ?thesis using assms by (intro exI [of _ "j - c - 1"]) simp
next
  case False
  then have "c + 1 + (7 + j - c) = j + 8" "7 + j - c < 7" using assms by simp_all
  then show ?thesis using assms(2) by (metis mod_add_self2 mod_less)
qed

lemma yield_step:
  fixes k :: "'a ksched_scheme"
  assumes cur: "current_ok (sch k)" and c: "g_current (sch k) = int c"
  obtains (same) "sch (process_yield ca k) = sch k" "cpu (process_yield ca k) = cpu k"
      "mem (process_yield ca k) = mem k" "con (process_yield ca k) = con k"
      "\<forall>j<8. pstate (procs k j) \<noteq> PROC_READY"
  | (switch) n i where "i < 7" "n = (c + 1 + i) mod 8" "n < 8" "n \<noteq> c" "pstate (procs k n) = PROC_READY"
      "\<forall>j<i. pstate (procs k ((c + 1 + j) mod 8)) \<noteq> PROC_READY"
      "process_yield ca k = context_switch_asm (yield_return ca) (Some c) n
         (upd_proc n (\<lambda>p. p\<lparr>pstate := PROC_RUNNING\<rparr>)
           (set_current (int n) (upd_proc c (\<lambda>p. p\<lparr>pstate := PROC_READY\<rparr>) k)))"
proof -
  let ?k = "upd_proc c (\<lambda>p. p\<lparr>pstate := PROC_READY\<rparr>) k"
  have c8: "c < 8" and run: "pstate (procs k c) = PROC_RUNNING" and st: "g_scheduler_started (sch k)"
    and only: "\<forall>j<8. j \<noteq> c \<longrightarrow> pstate (procs k j) \<noteq> PROC_RUNNING"
    using cur c by (auto simp: current_ok_def)
  have p: "process_yield ca k = (case next_ready ?k ((c + 1) mod 8) of
            None \<Rightarrow> upd_proc c (\<lambda>p. p\<lparr>pstate := PROC_RUNNING\<rparr>) ?k
          | Some next \<Rightarrow>
              if next = c then upd_proc c (\<lambda>p. p\<lparr>pstate := PROC_RUNNING\<rparr>) ?k
              else context_switch_asm (yield_return ca) (Some c) next
                (upd_proc next (\<lambda>p. p\<lparr>pstate := PROC_RUNNING\<rparr>) (set_current (int next) ?k)))"
    by (simp add: process_yield_def st c run Let_def split: option.split)
  have mod: "((c + 1) mod 8 + i) mod 8 = (c + 1 + i) mod 8" for i by presburger
  let ?P = "\<lambda>i. pstate (procs ?k ((c + 1 + i) mod 8)) = PROC_READY"
  have "?P 7" using cyclic_self [OF c8] by simp
  then obtain i where i: "List.find ?P [0..<8] = Some i" using find_upt_exists [of 7 8 ?P] by auto
  then have i8: "i < 8" and Pi: "?P i" and least: "\<forall>j<i. \<not> ?P j"
    unfolding find_upt_Some by blast+
  have nx: "next_ready ?k ((c + 1) mod 8) = Some ((c + 1 + i) mod 8)"
    unfolding next_ready_def mod i by simp
  show thesis
  proof (cases "(c + 1 + i) mod 8 = c")
    case True
    then have i7: "i = 7" using i8 c8 cyclic_inj [of i c] by (cases "i = 7") auto
    have "pstate (procs k j) \<noteq> PROC_READY" if j: "j < 8" for j
    proof (cases "j = c")
      case False
      obtain d where d: "(c + 1 + d) mod 8 = j" "d < 7" using cyclic_reach [OF c8 j] False by blast
      with least i7 have "\<not> ?P d" by blast
      then show ?thesis unfolding d(1) using False by simp
    qed (simp add: run)
    moreover have "process_yield ca k = upd_proc c (\<lambda>p. p\<lparr>pstate := PROC_RUNNING\<rparr>) ?k"
      unfolding p nx using True by simp
    moreover have "upd_proc c (\<lambda>p. p\<lparr>pstate := PROC_RUNNING\<rparr>) ?k = k"
      using run by (simp add: upd_proc_def fun_upd_idem)
    ultimately show thesis using same by simp
  next
    case False
    let ?n = "(c + 1 + i) mod 8"
    have "i < 7" using False i8 cyclic_self(1) [OF c8] by (cases "i = 7") auto
    moreover have "pstate (procs k ((c + 1 + j) mod 8)) \<noteq> PROC_READY" if "j < i" for j
      using least that cyclic_inj [of j c] c8 \<open>i < 7\<close> by force
    moreover have "pstate (procs k ?n) = PROC_READY" using Pi False by simp
    ultimately show thesis
      using switch [of i ?n] False unfolding p nx by simp
  qed
qed

lemma slots_ok_cong:
  assumes "slots_ok s" and "g_next_pid s' = g_next_pid s"
    and "\<And>i. i < 8 \<Longrightarrow> pid (g_procs s' i) = pid (g_procs s i) \<and> stack (g_procs s' i) = stack (g_procs s i)
           \<and> (used s' i \<longleftrightarrow> used s i) \<and> pstate (g_procs s' i) \<noteq> PROC_BLOCKED"
  shows "slots_ok s'"
  using assms(1) unfolding slots_ok_def assms(2) by (simp add: assms(3))

lemma stacks_ok_cong:
  assumes "stacks_ok owned s"
    and "\<And>i. i < 8 \<Longrightarrow> stack (g_procs s' i) = stack (g_procs s i) \<and> (used s' i \<longleftrightarrow> used s i)"
  shows "stacks_ok owned s'"
  using assms(1) unfolding stacks_ok_def by (simp add: assms(2))

lemma yield_sched_inv:
  fixes k :: "'a ksched_scheme"
  assumes inv: "sched_inv a k"
  shows "sched_inv a (process_yield ca k) \<and> g_next_pid (sch (process_yield ca k)) = g_next_pid (sch k)"
proof (cases "0 \<le> g_current (sch k)")
  case False
  then have "process_yield ca k = k" using inv by (simp add: process_yield_def sched_inv_def current_ok_def)
  with inv show ?thesis by simp
next
  case True
  then obtain c where c: "g_current (sch k) = int c" by (metis nonneg_int_cases)
  have cur: "current_ok (sch k)" using inv by (simp add: sched_inv_def)
  then have c8: "c < 8" and run: "pstate (procs k c) = PROC_RUNNING" using c by (auto simp: current_ok_def)
  show ?thesis
  proof (cases rule: yield_step [OF cur c, of ca])
    case 1
    with inv show ?thesis by (simp add: sched_inv_def heap_rel_mem [OF 1(3)])
  next
    case (2 n i)
    let ?k = "process_yield ca k"
    have f: "pid (procs ?k j) = pid (procs k j)" "stack (procs ?k j) = stack (procs k j)"
        "pstate (procs ?k j) = (if j = n then PROC_RUNNING else if j = c then PROC_READY else pstate (procs k j))"
        "used (sch ?k) j \<longleftrightarrow> used (sch k) j"
        "g_current (sch ?k) = int n" "g_next_pid (sch ?k) = g_next_pid (sch k)"
        "g_scheduler_started (sch ?k) = g_scheduler_started (sch k)" "mem ?k = mem k" for j
      using 2(4,5) run by (simp_all add: 2(7))
    have so: "slots_ok (sch k)" using inv by (simp add: sched_inv_def)
    have "slots_ok (sch ?k)"
    proof (rule slots_ok_cong [OF so f(6)])
      fix i :: nat assume "i < 8"
      then have "pstate (procs k i) \<noteq> PROC_BLOCKED" using so by (simp add: slots_ok_def)
      then show "pid (procs ?k i) = pid (procs k i) \<and> stack (procs ?k i) = stack (procs k i)
           \<and> (used (sch ?k) i \<longleftrightarrow> used (sch k) i) \<and> pstate (procs ?k i) \<noteq> PROC_BLOCKED"
        unfolding f(1,2,4) unfolding f(3) by simp
    qed
    moreover have "current_ok (sch ?k)"
      unfolding current_ok_def f using cur 2(3,4) c by (auto simp: current_ok_def)
    moreover obtain st where "heap_rel a k st" "stacks_ok (heap_owned a st) (sch k)"
      using inv unfolding sched_inv_def by blast
    moreover from this(2) have "stacks_ok (heap_owned a st) (sch ?k)"
      by (rule stacks_ok_cong) (use f(2,4) in blast)
    moreover from calculation(3) have "heap_rel a ?k st" using heap_rel_mem [OF f(8)] by blast
    ultimately show ?thesis using f(6) unfolding sched_inv_def by blast
  qed
qed

text \<open>How far slot \<open>j\<close> is behind slot \<open>c\<close> in the cycle.\<close>

definition cyc_dist :: "nat \<Rightarrow> nat \<Rightarrow> nat" where
  "cyc_dist c j = (j + 8 - c) mod 8"

lemma cyc_dist_next:
  assumes "c < 8" and "i < d" and "d < 7"
  shows "cyc_dist ((c + 1 + i) mod 8) ((c + 1 + d) mod 8) < cyc_dist c ((c + 1 + d) mod 8)"
  using assms by (simp add: cyc_dist_def mod8 split: if_split, arith)

lemma yield_progress:
  fixes k :: "'a ksched_scheme"
  assumes cur: "current_ok (sch k)" and c: "g_current (sch k) = int c"
    and j: "j < 8" "pstate (procs k j) = PROC_READY"
  shows "\<exists>n. g_current (sch (process_yield ca k)) = int n \<and> n < 8
    \<and> (n = j \<or> cyc_dist n j < cyc_dist c j \<and> pstate (procs (process_yield ca k) j) = PROC_READY)"
proof -
  have c8: "c < 8" and jc: "j \<noteq> c" using cur c j by (auto simp: current_ok_def)
  show ?thesis
  proof (cases rule: yield_step [OF cur c, of ca])
    case 1
    with j show ?thesis by blast
  next
    case (2 n i)
    obtain d where d: "(c + 1 + d) mod 8 = j" "d < 7" using cyclic_reach [OF c8 j(1) jc] by blast
    then have "i \<le> d" using 2(6) j(2) by (metis not_le)
    show ?thesis
    proof (cases "n = j")
      case True
      then show ?thesis using 2(3) by (intro exI [of _ n]) (simp add: 2(7))
    next
      case False
      then have "i \<noteq> d" using 2(2) d(1) by metis
      then have "cyc_dist n j < cyc_dist c j"
        using cyc_dist_next [of c i d] \<open>i \<le> d\<close> c8 d 2(2) by simp
      then show ?thesis using 2(3,4) False j(2) jc by (intro exI [of _ n]) (simp add: 2(7))
    qed
  qed
qed

subsection \<open>Starting and exiting\<close>

lemma run_slot:
  assumes slots: "slots_ok s" and c: "i < 8" "pstate (g_procs s i) = PROC_READY"
    and none: "\<forall>j<8. pstate (g_procs s j) \<noteq> PROC_RUNNING"
    and s': "\<And>j. pid (g_procs s' j) = pid (g_procs s j)" "\<And>j. stack (g_procs s' j) = stack (g_procs s j)"
      "\<And>j. pstate (g_procs s' j) = (if j = i then PROC_RUNNING else pstate (g_procs s j))"
      "g_next_pid s' = g_next_pid s" "g_current s' = int i" "g_scheduler_started s'"
  shows "slots_ok s' \<and> current_ok s' \<and> (stacks_ok owned s \<longrightarrow> stacks_ok owned s')"
proof -
  have u: "used s' j \<longleftrightarrow> used s j" for j using c(2) by (simp add: s'(3))
  have "slots_ok s'"
  proof (rule slots_ok_cong [OF slots s'(4)])
    fix j :: nat assume "j < 8"
    then have "pstate (g_procs s j) \<noteq> PROC_BLOCKED" using slots by (simp add: slots_ok_def)
    then show "pid (g_procs s' j) = pid (g_procs s j) \<and> stack (g_procs s' j) = stack (g_procs s j)
           \<and> (used s' j \<longleftrightarrow> used s j) \<and> pstate (g_procs s' j) \<noteq> PROC_BLOCKED"
      unfolding s'(1,2) u unfolding s'(3) by simp
  qed
  moreover have "current_ok s'"
    using c(1) none by (simp add: current_ok_def s')
  moreover have "stacks_ok owned s'" if "stacks_ok owned s"
    using that by (rule stacks_ok_cong) (use s'(2) u in blast)
  ultimately show ?thesis by blast
qed

lemma start_scan:
  fixes k :: "'a ksched_scheme"
  shows "\<exists>n k'. fold (\<lambda>i (n, k).
                if pstate (procs k i) = PROC_READY
                then (n + 1, printk (''[SCHED] Found process PID %d in slot %d'' @ NL)
                               [ArgW (pid (procs k i)), ArgW (of_nat i)] k)
                else (n, k)) xs (m :: nat, k) = (n, k')
      \<and> mem k' = mem k \<and> sch k' = sch k \<and> cpu k' = cpu k
      \<and> (n = m \<longleftrightarrow> (\<forall>i\<in>set xs. pstate (procs k i) \<noteq> PROC_READY)) \<and> m \<le> n"
proof (induction xs arbitrary: m k)
  case (Cons x xs)
  show ?case
  proof (cases "pstate (procs k x) = PROC_READY")
    case True
    with Cons [of "m + 1" "printk (''[SCHED] Found process PID %d in slot %d'' @ NL)
                               [ArgW (pid (procs k x)), ArgW (of_nat x)] k"]
    show ?thesis by fastforce
  next
    case False
    with Cons [of m k] show ?thesis by fastforce
  qed
qed simp

lemma start_sched_inv:
  fixes k :: "'a ksched_scheme"
  assumes inv: "sched_inv a k" and n: "unat (g_next_pid (sch k)) < 2 ^ 64 - 1"
  shows "\<exists>k'. scheduler_start ca k = Some k' \<and> sched_inv a k'
    \<and> unat (g_next_pid (sch k')) \<le> unat (g_next_pid (sch k)) + 1"
proof (cases "g_scheduler_started (sch k)")
  case True
  then show ?thesis using inv by (simp add: scheduler_start_def)
next
  case False
  have slots: "slots_ok (sch k)" and cur: "current_ok (sch k)" using inv by (simp_all add: sched_inv_def)
  then have c: "g_current (sch k) = -1" and none: "\<forall>j<8. pstate (procs k j) \<noteq> PROC_RUNNING"
    using False by (auto simp: current_ok_def)
  obtain st where st: "heap_rel a k st" "stacks_ok (heap_owned a st) (sch k)" using inv unfolding sched_inv_def by blast
  obtain m k1 where scan: "fold (\<lambda>i (n, k).
                if pstate (procs k i) = PROC_READY
                then (n + 1, printk (''[SCHED] Found process PID %d in slot %d'' @ NL)
                               [ArgW (pid (procs k i)), ArgW (of_nat i)] k)
                else (n, k)) [0..<8] (0 :: nat, printk (''[SCHED] Starting scheduler.. .'' @ NL) [] k) = (m, k1)"
      and k1: "mem k1 = mem (printk (''[SCHED] Starting scheduler.. .'' @ NL) [] k)"
        "sch k1 = sch (printk (''[SCHED] Starting scheduler.. .'' @ NL) [] k)"
    using start_scan [of "[0..<8]" "0 :: nat" "printk (''[SCHED] Starting scheduler.. .'' @ NL) [] k"] by blast
  note k1 = k1 [unfolded sched_frame]
  define idle where "idle = (if m = 0 then map_option snd (process_create ca (idle_process_addr ca) 0
                        (printk (''[SCHED] No processes ready, creating idle'' @ NL) [] k1))
                 else Some k1)"
  obtain k2 st2 where k2: "idle = Some k2" "heap_rel a k2 st2" "slots_ok (sch k2)"
      "stacks_ok (heap_owned a st2) (sch k2)" "g_current (sch k2) = -1" "\<not> g_scheduler_started (sch k2)"
      "unat (g_next_pid (sch k2)) \<le> unat (g_next_pid (sch k)) + 1" "\<forall>j<8. pstate (procs k2 j) \<noteq> PROC_RUNNING"
  proof (cases "m = 0")
    case True
    let ?k = "printk (''[SCHED] No processes ready, creating idle'' @ NL) [] k1"
    have "heap_rel a ?k st" using st(1) k1(1) heap_rel_mem [of ?k k] by simp
    moreover have "slots_ok (sch ?k)" "stacks_ok (heap_owned a st) (sch ?k)" "unat (g_next_pid (sch ?k)) < 2 ^ 64 - 1"
      using slots st(2) n k1(2) by simp_all
    ultimately obtain idx k2 st2 where
      "process_create ca (idle_process_addr ca) 0 ?k = Some (idx, k2)" "heap_rel a k2 st2" "slots_ok (sch k2)"
      "stacks_ok (heap_owned a st2) (sch k2)" "g_current (sch k2) = g_current (sch ?k)"
      "g_scheduler_started (sch k2) = g_scheduler_started (sch ?k)"
      "unat (g_next_pid (sch k2)) \<le> unat (g_next_pid (sch ?k)) + 1"
      "idx = -1 \<and> procs k2 = procs ?k \<or> (\<exists>i<8. pstate (procs k2 i) = PROC_READY
             \<and> (\<forall>j. j \<noteq> i \<longrightarrow> procs k2 j = procs ?k j))"
      using create_inv [of a ?k st ca "idle_process_addr ca" 0] by blast
    note k2 = this [unfolded sched_frame k1 c]
    from k2(8) none have run: "\<forall>j<8. pstate (procs k2 j) \<noteq> PROC_RUNNING"
      by (metis proc_state.distinct(7))
    show thesis using that [OF _ k2(2-5) _ k2(7) run] k2(1,6) True False by (simp add: idle_def)
  next
    case m: False
    have "heap_rel a k1 st" using st(1) k1(1) heap_rel_mem [of k1 k] by simp
    with m show thesis using that [of k1 st] slots st(2) k1(2) none c False by (simp add: idle_def)
  qed
  have s: "scheduler_start ca k = (case idle of None \<Rightarrow> None | Some k \<Rightarrow>
      (case List.find (\<lambda>i. pstate (procs k i) = PROC_READY) [0..<8] of
                 None \<Rightarrow> Some (printk (''[SCHED] ERROR: No processes to run!'' @ NL) [] k)
               | Some first \<Rightarrow>
                   let k = set_current (int first) k;
                       k = upd_proc first (\<lambda>p. p\<lparr>pstate := PROC_RUNNING\<rparr>) k;
                       k = k\<lparr>sch := (sch k)\<lparr>g_scheduler_started := True\<rparr>\<rparr>;
                       k = printk (''[SCHED] Starting with PID %d'' @ NL) [ArgW (pid (procs k first))] k;
                       k = printk (''[SCHED] Jumping to first process.. .'' @ NL @ NL) [] k
                   in Some (context_switch_asm 0 None first k)))"
    unfolding scheduler_start_def using False
    by (simp only: if_False Let_def scan prod.case idle_def)
  show ?thesis
  proof (cases "List.find (\<lambda>i. pstate (procs k2 i) = PROC_READY) [0..<8]")
    case None
    let ?k = "printk (''[SCHED] ERROR: No processes to run!'' @ NL) [] k2"
    have "scheduler_start ca k = Some ?k" unfolding s k2(1) option.case None by simp
    moreover have "current_ok (sch ?k)" using k2(5,6,8) by (auto simp: current_ok_def)
    moreover have "heap_rel a ?k st2" using k2(2) heap_rel_mem [of ?k k2] by simp
    ultimately show ?thesis using k2(3,4,7) unfolding sched_inv_def by (metis sched_frame(2))
  next
    case (Some i)
    then have i: "i < 8" "pstate (procs k2 i) = PROC_READY" by (simp_all only: find_upt_Some)
    obtain k' where k': "scheduler_start ca k = Some k'" "mem k' = mem k2"
        "g_current (sch k') = int i" "g_scheduler_started (sch k')" "g_next_pid (sch k') = g_next_pid (sch k2)"
        "\<And>j. pid (procs k' j) = pid (procs k2 j)" "\<And>j. stack (procs k' j) = stack (procs k2 j)"
        "\<And>j. pstate (procs k' j) = (if j = i then PROC_RUNNING else pstate (procs k2 j))"
      unfolding s k2(1) option.case Some Let_def by simp
    have "slots_ok (sch k') \<and> current_ok (sch k') \<and> stacks_ok (heap_owned a st2) (sch k')"
      using run_slot [OF k2(3) i k2(8) k'(6-8,5,3,4), of "heap_owned a st2"] k2(4) by blast
    moreover have "heap_rel a k' st2" using k2(2) heap_rel_mem [OF k'(2)] by blast
    ultimately have "sched_inv a k'" unfolding sched_inv_def by blast
    then show ?thesis using k'(1,5) k2(7) by simp
  qed
qed


text \<open>The slot of the exiting process after its stack is freed.\<close>

definition blank :: "process \<Rightarrow> process" where
  "blank p = p\<lparr>pstate := PROC_UNUSED, pid := 0, stack := 0, stack_size := 0\<rparr>"

lemma exit_release:
  fixes k :: "'a ksched_scheme"
  assumes inv: "sched_inv a k" and c: "g_current (sch k) = int c"
    and k1: "mem k1 = mem k" "sch k1 = sch k"
  shows "\<exists>k2 st2. free (stack (procs k c)) k1 = Some k2 \<and> heap_rel a k2 st2 \<and> sch k2 = sch k \<and> cpu k2 = cpu k1
    \<and> stacks_ok (heap_owned a st2) ((sch k)\<lparr>g_procs := (procs k)(c := blank (procs k c))\<rparr>)
    \<and> (\<exists>st m. heap_rel a k st \<and> (stack (procs k c), m) \<in> heap_owned a st
         \<and> heap_owned a st2 = heap_owned a st - {(stack (procs k c), m)})"
proof -
  have slots: "slots_ok (sch k)" and cur: "current_ok (sch k)" using inv by (simp_all add: sched_inv_def)
  then have c8: "c < 8" "used (sch k) c" using c by (auto simp: current_ok_def)
  obtain st where st: "heap_rel a k st" "stacks_ok (heap_owned a st) (sch k)" using inv unfolding sched_inv_def by blast
  then obtain m where m: "16384 \<le> m" "(stack (procs k c), m) \<in> heap_owned a st"
    using c8 unfolding stacks_ok_def by blast
  have "heap_rel a k1 st" using st(1) heap_rel_mem [OF k1(1)] by blast
  from kheap.dealloc_law [OF this m(2)] obtain k2 st2 where
    k2: "free (stack (procs k c)) k1 = Some k2" "heap_rel a k2 st2"
      "heap_owned a st2 = heap_owned a st - {(stack (procs k c), m)}"
    by blast
  have more: "sch k2 = sch k1" "cpu k2 = cpu k1" using ksched_more [OF free_more [OF k2(1)]] by simp_all
  let ?s = "(sch k)\<lparr>g_procs := (procs k)(c := blank (procs k c))\<rparr>"
  have "stacks_ok (heap_owned a st2) ?s"
    unfolding stacks_ok_def
  proof (intro conjI allI impI)
    fix i :: nat assume i: "i < 8" "used ?s i"
    then have ic: "i \<noteq> c" "used (sch k) i" by (auto simp: blank_def split: if_splits)
    then obtain l where "16384 \<le> l" "(stack (procs k i), l) \<in> heap_owned a st" "stack (procs k i) \<noteq> stack (procs k c)"
      using st(2) i(1) c8 unfolding stacks_ok_def by blast
    then show "\<exists>m\<ge>16384. (stack (g_procs ?s i), m) \<in> heap_owned a st2" using ic(1) k2(3) by auto
  next
    fix i j :: nat
    assume i: "i < 8" "used ?s i" and j: "j < 8" "stack (g_procs ?s i) = stack (g_procs ?s j)"
    then have ic: "i \<noteq> c" "used (sch k) i" by (auto simp: blank_def split: if_splits)
    then have "stack (procs k i) \<noteq> 0" using slots i(1) by (simp add: slots_ok_def)
    then have "j \<noteq> c" using j(2) ic(1) by (auto simp: blank_def)
    then show "i = j" using st(2) i(1) ic j unfolding stacks_ok_def by simp
  qed
  moreover have "sch k2 = sch k" using more(1) k1(2) by simp
  moreover have "\<exists>st m. heap_rel a k st \<and> (stack (procs k c), m) \<in> heap_owned a st
         \<and> heap_owned a st2 = heap_owned a st - {(stack (procs k c), m)}"
    using st(1) m(2) k2(3) by blast
  ultimately show ?thesis using k2(1,2) more(2) by blast
qed

lemma slots_ok_blank:
  assumes "slots_ok s"
  shows "slots_ok (s\<lparr>g_procs := (g_procs s)(c := blank (g_procs s c))\<rparr>)"
  using assms unfolding slots_ok_def by (auto simp: blank_def)


text \<open>What \<open>process_exit\<close> does once the stack is freed and the slot is blank.\<close>

definition exit_switch :: "code_addr \<Rightarrow> 'a ksched_scheme \<Rightarrow> 'a ksched_scheme option" where
  "exit_switch ca k =
     (case (case List.find (\<lambda>i. (pstate (procs k i) = PROC_READY \<or> pstate (procs k i) = PROC_RUNNING)
                            \<and> int i \<noteq> g_current (sch k)) [0..<8] of
              Some i \<Rightarrow> Some (int i, k)
            | None \<Rightarrow> process_create ca (idle_process_addr ca) 0
                        (printk (''[SCHED] No processes left, creating idle'' @ NL) [] k)) of
        None \<Rightarrow> None
      | Some (next, k) \<Rightarrow>
          if next < 0 then
            let k = printk (''[SCHED] FATAL: Cannot create idle process!'' @ NL) [] k;
                k = k\<lparr>sch := (sch k)\<lparr>g_scheduler_started := False\<rparr>\<rparr>
            in Some (set_current (-1) k)
          else
            let k = set_current next k;
                k = upd_proc (nat next) (\<lambda>p. p\<lparr>pstate := PROC_RUNNING\<rparr>) k;
                k = printk (''[SCHED] Switching to PID %d after exit'' @ NL) [ArgW (pid (procs k (nat next)))] k
            in Some (context_switch_asm 0 None (nat next) k))"

lemma exit_prefix:
  fixes k :: "'a ksched_scheme"
  assumes inv: "sched_inv a k" and c: "g_current (sch k) = int c"
  shows "\<exists>k3 st2. process_exit ca k = exit_switch ca k3 \<and> heap_rel a k3 st2
    \<and> sch k3 = (sch k)\<lparr>g_procs := (procs k)(c := blank (procs k c))\<rparr>
    \<and> stacks_ok (heap_owned a st2) (sch k3)
    \<and> (\<exists>st m. heap_rel a k st \<and> (stack (procs k c), m) \<in> heap_owned a st
         \<and> heap_owned a st2 = heap_owned a st - {(stack (procs k c), m)})"
proof -
  have slots: "slots_ok (sch k)" and cur: "current_ok (sch k)" using inv by (simp_all add: sched_inv_def)
  then have c8: "c < 8" "pstate (procs k c) = PROC_RUNNING" using c by (auto simp: current_ok_def)
  have stk: "stack (procs k c) \<noteq> 0" using slots c8 by (auto simp: slots_ok_def)
  let ?k1 = "printk (''[SCHED] Process %d exiting'' @ NL) [ArgW (pid (procs k c))] k"
  obtain k2 st2 where k2: "free (stack (procs k c)) ?k1 = Some k2" "heap_rel a k2 st2" "sch k2 = sch k"
      "stacks_ok (heap_owned a st2) ((sch k)\<lparr>g_procs := (procs k)(c := blank (procs k c))\<rparr>)"
      "\<exists>st m. heap_rel a k st \<and> (stack (procs k c), m) \<in> heap_owned a st
         \<and> heap_owned a st2 = heap_owned a st - {(stack (procs k c), m)}"
    using exit_release [OF inv c, of ?k1] by (simp only: sched_frame) blast
  let ?k3 = "upd_proc c (\<lambda>p. p\<lparr>stack_size := 0\<rparr>) (upd_proc c (\<lambda>p. p\<lparr>stack := 0\<rparr>)
      (upd_proc c (\<lambda>p. p\<lparr>pid := 0\<rparr>) (upd_proc c (\<lambda>p. p\<lparr>pstate := PROC_UNUSED\<rparr>) k2)))"
  have k3: "sch ?k3 = (sch k)\<lparr>g_procs := (procs k)(c := blank (procs k c))\<rparr>" "mem ?k3 = mem k2"
    by (simp_all add: upd_proc_def k2(3) blank_def)
  have "process_exit ca k = exit_switch ca ?k3"
    unfolding process_exit_def exit_switch_def Let_def c nat_int
    by (simp only: sched_frame stk if_True not_False_eq_True k2(1) option.case of_nat_less_0_iff if_False)
  moreover have "heap_rel a ?k3 st2" using k2(2) heap_rel_mem [OF k3(2)] by blast
  ultimately show ?thesis using k2(4,5) k3(1) by metis
qed

lemma exit_sched_inv:
  fixes k :: "'a ksched_scheme"
  assumes inv: "sched_inv a k" and n: "unat (g_next_pid (sch k)) < 2 ^ 64 - 1"
  shows "\<exists>k'. process_exit ca k = Some k' \<and> sched_inv a k'
    \<and> unat (g_next_pid (sch k')) \<le> unat (g_next_pid (sch k)) + 1"
proof (cases "0 \<le> g_current (sch k)")
  case False
  then show ?thesis using inv by (simp add: process_exit_def)
next
  case True
  then obtain c where c: "g_current (sch k) = int c" by (metis nonneg_int_cases)
  have slots: "slots_ok (sch k)" and cur: "current_ok (sch k)" using inv by (simp_all add: sched_inv_def)
  obtain k3 st2 where e: "process_exit ca k = exit_switch ca k3" and st2: "heap_rel a k3 st2"
      "stacks_ok (heap_owned a st2) (sch k3)"
    and k3: "sch k3 = (sch k)\<lparr>g_procs := (procs k)(c := blank (procs k c))\<rparr>"
    using exit_prefix [OF inv c, of ca] by blast
  have inv3: "heap_rel a k3 st2" "slots_ok (sch k3)" "stacks_ok (heap_owned a st2) (sch k3)"
      "g_scheduler_started (sch k3)" "g_current (sch k3) = int c" "g_next_pid (sch k3) = g_next_pid (sch k)"
      "\<forall>j<8. pstate (procs k3 j) \<noteq> PROC_RUNNING"
    using st2 slots_ok_blank [OF slots, of c] c cur by (auto simp: k3 current_ok_def blank_def)
  let ?P = "\<lambda>i. (pstate (procs k3 i) = PROC_READY \<or> pstate (procs k3 i) = PROC_RUNNING) \<and> int i \<noteq> g_current (sch k3)"
  define pick where "pick = (case List.find ?P [0..<8] of
                         Some i \<Rightarrow> Some (int i, k3)
                       | None \<Rightarrow> process_create ca (idle_process_addr ca) 0
                                   (printk (''[SCHED] No processes left, creating idle'' @ NL) [] k3))"
  obtain nx k4 st4 where k4: "pick = Some (nx, k4)" "heap_rel a k4 st4" "slots_ok (sch k4)"
      "stacks_ok (heap_owned a st4) (sch k4)" "unat (g_next_pid (sch k4)) \<le> unat (g_next_pid (sch k)) + 1"
      "\<forall>j<8. pstate (procs k4 j) \<noteq> PROC_RUNNING"
      "nx = -1 \<or> (\<exists>i<8. nx = int i \<and> pstate (procs k4 i) = PROC_READY)"
      "g_scheduler_started (sch k4)"
  proof (cases "List.find ?P [0..<8]")
    case (Some i)
    then have "i < 8" "pstate (procs k3 i) = PROC_READY" using inv3(7) by (auto simp: find_upt_Some)
    then show thesis using that [of "int i" k3 st2] inv3 Some by (simp add: pick_def)
  next
    case None
    let ?k = "printk (''[SCHED] No processes left, creating idle'' @ NL) [] k3"
    have "heap_rel a ?k st2" using inv3(1) heap_rel_mem [of ?k k3] by simp
    moreover have "slots_ok (sch ?k)" "stacks_ok (heap_owned a st2) (sch ?k)" "unat (g_next_pid (sch ?k)) < 2 ^ 64 - 1"
      using inv3 n by simp_all
    ultimately obtain idx k4 st4 where
      "process_create ca (idle_process_addr ca) 0 ?k = Some (idx, k4)" "heap_rel a k4 st4" "slots_ok (sch k4)"
      "stacks_ok (heap_owned a st4) (sch k4)" "unat (g_next_pid (sch k4)) \<le> unat (g_next_pid (sch ?k)) + 1"
      "idx = -1 \<and> procs k4 = procs ?k \<or> (\<exists>i<8. idx = int i \<and> pstate (procs k4 i) = PROC_READY
             \<and> (\<forall>j. j \<noteq> i \<longrightarrow> procs k4 j = procs ?k j))"
      "g_scheduler_started (sch k4) = g_scheduler_started (sch ?k)"
      using create_inv [of a ?k st2 ca "idle_process_addr ca" 0] by blast
    note k4 = this [unfolded sched_frame inv3(6)]
    from k4(6) inv3(7) have run: "\<forall>j<8. pstate (procs k4 j) \<noteq> PROC_RUNNING"
      by (metis proc_state.distinct(7))
    show thesis using that [of idx, OF _ k4(2-5) run] k4(1,6,7) inv3(4) None by (auto simp: pick_def)
  qed
  from k4(7) show ?thesis
  proof
    assume nx: "nx = -1"
    obtain k' where k': "process_exit ca k = Some k'" "mem k' = mem k4"
        "sch k' = (sch k4)\<lparr>g_scheduler_started := False, g_current := -1\<rparr>"
      unfolding e exit_switch_def pick_def [symmetric] k4(1) option.case prod.case Let_def nx by simp
    have "slots_ok (sch k')" using k4(3) by (simp add: k'(3) slots_ok_def)
    moreover have "current_ok (sch k')" using k4(6) by (simp add: k'(3) current_ok_def)
    moreover have "stacks_ok (heap_owned a st4) (sch k')" using k4(4) by (simp add: k'(3) stacks_ok_def)
    moreover have "heap_rel a k' st4" using k4(2) heap_rel_mem [OF k'(2)] by blast
    ultimately have "sched_inv a k'" unfolding sched_inv_def by blast
    then show ?thesis using k' k4(5) by simp
  next
    assume "\<exists>i<8. nx = int i \<and> pstate (procs k4 i) = PROC_READY"
    then obtain i where i: "i < 8" "pstate (procs k4 i) = PROC_READY" and nx: "nx = int i" by blast
    obtain k' where k': "process_exit ca k = Some k'" "mem k' = mem k4"
        "g_current (sch k') = int i" "g_scheduler_started (sch k') = g_scheduler_started (sch k4)"
        "g_next_pid (sch k') = g_next_pid (sch k4)"
        "\<And>j. pid (procs k' j) = pid (procs k4 j)" "\<And>j. stack (procs k' j) = stack (procs k4 j)"
        "\<And>j. pstate (procs k' j) = (if j = i then PROC_RUNNING else pstate (procs k4 j))"
      unfolding e exit_switch_def pick_def [symmetric] k4(1) option.case prod.case Let_def nx by simp
    have "slots_ok (sch k') \<and> current_ok (sch k') \<and> stacks_ok (heap_owned a st4) (sch k')"
      using run_slot [OF k4(3) i k4(6) k'(6-8,5,3), of "heap_owned a st4"] k4(4,8) k'(4) by blast
    moreover have "heap_rel a k' st4" using k4(2) heap_rel_mem [OF k'(2)] by blast
    ultimately have "sched_inv a k'" unfolding sched_inv_def by blast
    then show ?thesis using k'(1,5) k4(5) by simp
  qed
qed

lemma yield_current_ok:
  assumes cur: "current_ok (sch k)"
  shows "current_ok (sch (process_yield ca k))"
proof (cases "0 \<le> g_current (sch k)")
  case False
  then show ?thesis using cur by (simp add: process_yield_def current_ok_def)
next
  case True
  then obtain c where c: "g_current (sch k) = int c" by (metis nonneg_int_cases)
  show ?thesis
  proof (cases rule: yield_step [OF cur c, of ca])
    case 1
    with cur show ?thesis by simp
  next
    case (2 n i)
    then show ?thesis using cur c by (auto simp: current_ok_def)
  qed
qed

lemma cyc_dist_bound: "cyc_dist c j \<le> 7"
  by (simp add: cyc_dist_def)

lemma yields_reach:
  fixes k :: "'a ksched_scheme"
  assumes "current_ok (sch k)" and "g_current (sch k) = int c" and "j < 8" and "pstate (procs k j) = PROC_READY"
  shows "\<exists>n\<le>cyc_dist c j. 0 < n \<and> g_current (sch ((process_yield ca ^^ n) k)) = int j"
  using assms
proof (induction "cyc_dist c j" arbitrary: c k rule: less_induct)
  case less
  have c8: "c < 8" "j \<noteq> c" using less.prems by (auto simp: current_ok_def)
  then have pos: "0 < cyc_dist c j" using less.prems(3) by (simp add: cyc_dist_def mod8 split: if_split, arith)
  let ?k = "process_yield ca k"
  obtain n where n: "g_current (sch ?k) = int n" "n < 8"
      "n = j \<or> cyc_dist n j < cyc_dist c j \<and> pstate (procs ?k j) = PROC_READY"
    using yield_progress [OF less.prems, of ca] by blast
  from n(3) show ?case
  proof
    assume "n = j"
    then show ?thesis using n(1) pos by (intro exI [of _ 1]) simp
  next
    assume d: "cyc_dist n j < cyc_dist c j \<and> pstate (procs ?k j) = PROC_READY"
    from less.hyps [OF conjunct1 [OF d] yield_current_ok [OF less.prems(1)] n(1) less.prems(3) conjunct2 [OF d]]
    obtain m where "m \<le> cyc_dist n j" "g_current (sch ((process_yield ca ^^ m) ?k)) = int j" by blast
    then show ?thesis using d by (intro exI [of _ "Suc m"]) (simp add: funpow_swap1)
  qed
qed


subsection \<open>Sequences of scheduler calls\<close>

datatype sched_op = Create u64 u64 | Yield | Start | Exit

fun sched_step :: "code_addr \<Rightarrow> sched_op \<Rightarrow> 'a ksched_scheme \<Rightarrow> 'a ksched_scheme option" where
  "sched_step ca (Create entry arg) k = map_option snd (process_create ca entry arg k)"
| "sched_step ca Yield k = Some (process_yield ca k)"
| "sched_step ca Start k = scheduler_start ca k"
| "sched_step ca Exit k = process_exit ca k"

text \<open>Each call takes at most one process id; the second component counts the ids that are left.\<close>

interpretation sched_sim: simulation
  "\<lambda>k n. sched_inv a k \<and> unat (g_next_pid (sch k)) + n < 2 ^ 64" "sched_step ca" "\<lambda>_ n. n - 1" "\<lambda>_ n. 0 < n"
  for a ca
proof
  fix k :: "'a ksched_scheme" and n :: nat and e :: sched_op
  assume k: "sched_inv a k \<and> unat (g_next_pid (sch k)) + n < 2 ^ 64" and n: "0 < n"
  then have inv: "sched_inv a k" and p: "unat (g_next_pid (sch k)) < 2 ^ 64 - 1" by simp_all
  have "\<exists>k'. sched_step ca e k = Some k' \<and> sched_inv a k'
      \<and> unat (g_next_pid (sch k')) \<le> unat (g_next_pid (sch k)) + 1"
  proof (cases e)
    case (Create entry arg)
    obtain st where st: "heap_rel a k st" "stacks_ok (heap_owned a st) (sch k)"
      using inv unfolding sched_inv_def by blast
    have slots: "slots_ok (sch k)" and cur: "current_ok (sch k)" using inv by (simp_all add: sched_inv_def)
    obtain idx k' st' where c: "process_create ca entry arg k = Some (idx, k')" "heap_rel a k' st'"
        "slots_ok (sch k')" "stacks_ok (heap_owned a st') (sch k')" "g_current (sch k') = g_current (sch k)"
        "g_scheduler_started (sch k') = g_scheduler_started (sch k)"
        "unat (g_next_pid (sch k')) \<le> unat (g_next_pid (sch k)) + 1"
        "idx = -1 \<and> procs k' = procs k \<or> (\<exists>i<8. idx = int i \<and> \<not> used (sch k) i \<and> pstate (procs k' i) = PROC_READY
             \<and> (\<forall>j. j \<noteq> i \<longrightarrow> procs k' j = procs k j))"
      using create_inv [OF st(1) slots st(2) p, of ca entry arg] by blast
    have "pstate (procs k' j) = PROC_RUNNING \<longleftrightarrow> pstate (procs k j) = PROC_RUNNING" if "j < 8" for j
      using c(8) that by (metis proc_state.distinct(3,7))
    then have "current_ok (sch k')" using cur unfolding current_ok_def c(5,6) by simp
    then have "sched_inv a k'" using c(2-4) unfolding sched_inv_def by blast
    then show ?thesis using c(1,7) Create by simp
  next
    case Yield
    then show ?thesis using yield_sched_inv [OF inv, of ca] by simp
  next
    case Start
    then show ?thesis using start_sched_inv [OF inv p, of ca] by simp
  next
    case Exit
    then show ?thesis using exit_sched_inv [OF inv p, of ca] by simp
  qed
  then show "\<exists>k'. sched_step ca e k = Some k' \<and> sched_inv a k' \<and> unat (g_next_pid (sch k')) + (n - 1) < 2 ^ 64"
    using k n by fastforce
qed

lemma legal_count: "length es \<le> n \<Longrightarrow> legal (\<lambda>_ n. 0 < n) (\<lambda>_ n. n - 1) es (n :: nat)"
  by (induction es arbitrary: n) auto

lemma sched_boot_inv:
  assumes "heap_rel a k st" and "sch k = sched_boot"
  shows "sched_inv a k"
proof -
  have "slots_ok sched_boot" "current_ok sched_boot" "stacks_ok owned sched_boot" for owned
    by (simp_all add: sched_boot_def slots_ok_def current_ok_def stacks_ok_def)
  with assms show ?thesis unfolding sched_inv_def by metis
qed

text \<open>The demonstration heap with an empty process table.\<close>

definition demo_code :: code_addr where
  "demo_code = \<lparr>process_wrapper_addr = 1, idle_process_addr = 2, yield_return = 3\<rparr>"

definition demo_sched :: ksched where
  "demo_sched = \<lparr>con = con demo_heap, mem = mem demo_heap, sch = sched_boot, cpu = context0\<rparr>"

lemma demo_sched_heap: "heap_rel 0xffff800000200000 demo_sched ([], 7)" "sch demo_sched = sched_boot"
  using demo_heap_start by (auto simp: heap_rel_def demo_sched_def intro!: exI)


subsection \<open>Properties\<close>

text \<open>C5: from an empty process table over a well formed heap, every sequence of process creations,
  yields, starts and exits (with fewer than 2^64 calls, so that ids do not wrap) runs to its end
  and keeps the scheduler's invariant: the ids of the processes are distinct and not 0, the current
  process is the only running one, no process is lost in another state, and the stacks are
  distinct buffers of at least 16 KB that the allocator has handed out and not taken back.\<close>

theorem scheduler_runs_keep_inv:
  fixes k :: "'a ksched_scheme"
  assumes "heap_rel a k st" and "sch k = sched_boot" and "length es < 2 ^ 64 - 1"
  shows "\<exists>k'. run (sched_step ca) es k = Some k' \<and> sched_inv a k'"
proof -
  have "unat (g_next_pid (sch k)) + length es < 2 ^ 64" using assms(2,3) by (simp add: sched_boot_def)
  with sched_sim.run_refines [of a k "length es" es ca] legal_count [of es "length es"]
    sched_boot_inv [OF assms(1,2)] show ?thesis by auto
qed

theorem scheduler_runs_keep_inv_witness:
  "\<exists>k'. run (sched_step demo_code)
     [Create 10 0, Create 20 0, Start, Yield, Exit, Yield, Exit] demo_sched = Some k'
     \<and> sched_inv 0xffff800000200000 k'"
  using scheduler_runs_keep_inv [OF demo_sched_heap, of "[Create 10 0, Create 20 0, Start, Yield, Exit, Yield, Exit]"
      demo_code] by simp

text \<open>C13: the round robin is fair: while processes only yield, every ready process becomes the
  current one after at most seven yields.\<close>

theorem ready_process_gets_its_turn:
  fixes k :: "'a ksched_scheme"
  assumes "current_ok (sch k)" and "g_scheduler_started (sch k)" and "j < 8"
    and "get_process_state (int j) k = PROC_READY"
  shows "\<exists>n\<le>7. 0 < n \<and> g_current (sch ((process_yield ca ^^ n) k)) = int j"
proof -
  obtain c where c: "g_current (sch k) = int c" "c < 8"
    using assms(1,2) by (auto simp: current_ok_def) (metis nonneg_int_cases of_nat_less_iff of_nat_numeral)
  have "\<exists>n\<le>cyc_dist c j. 0 < n \<and> g_current (sch ((process_yield ca ^^ n) k)) = int j"
    using assms c by (intro yields_reach) (simp_all add: get_process_state_def)
  then show ?thesis using cyc_dist_bound by (meson le_trans)
qed

definition demo_process :: "u64 \<Rightarrow> proc_state \<Rightarrow> process" where
  "demo_process n s = \<lparr>pid = n, pstate = s, p_context = context0\<lparr>rip := 16 * n\<rparr>, stack = 0x100000 * n, stack_size = 16384\<rparr>"

text \<open>Process 1 running in slot 0, processes 2 and 3 ready in the slots 3 and 5.\<close>

definition demo_three :: ksched where
  "demo_three = demo_sched\<lparr>sch := \<lparr>g_procs = (g_procs sched_boot)(0 := demo_process 1 PROC_RUNNING,
       3 := demo_process 2 PROC_READY, 5 := demo_process 3 PROC_READY),
     g_current = 0, g_next_pid = 4, g_scheduler_started = True\<rparr>\<rparr>"

lemma demo_three_ok: "current_ok (sch demo_three)"
  by (simp add: demo_three_def current_ok_def sched_boot_def demo_process_def)

theorem ready_process_gets_its_turn_witness:
  "\<exists>n\<le>7. 0 < n \<and> g_current (sch ((process_yield demo_code ^^ n) demo_three)) = 5"
  using ready_process_gets_its_turn [OF demo_three_ok, of 5 demo_code]
  by (simp add: demo_three_def get_process_state_def demo_process_def)

text \<open>C15: a process that is switched out and later switched back in finds its callee-saved
  registers and continues at the return address of its call, but with the stack pointer 8 bytes
  lower than before the call: the saved pointer still counts the return address, and the switch
  back jumps instead of returning.\<close>

theorem context_switch_skews_stack:
  fixes k :: "'a ksched_scheme"
  assumes "i \<noteq> j"
  shows "cpu (context_switch_asm r' (Some j) i (context_switch_asm r (Some i) j k))
    = (cpu k)\<lparr>rip := r, rsp := rsp (cpu k) - 8\<rparr>"
  using assms by (simp add: context_switch_asm_def Let_def upd_proc_def)

theorem context_switch_skews_stack_witness:
  "rsp (cpu (context_switch_asm 7 (Some 3) 0 (context_switch_asm 7 (Some 0) 3 demo_three)))
    \<noteq> rsp (cpu demo_three)"
  using context_switch_skews_stack [of 0 3 7 7 demo_three] by simp



text \<open>C17: \<open>process_exit\<close> gives the stack of the current process back to the allocator, and nothing
  else, clears its slot, and hands over to the ready process in the lowest slot, wherever the
  exiting process was: unlike \<open>process_yield\<close> it does not go round.\<close>

theorem process_exit_hands_over:
  fixes k :: "'a ksched_scheme"
  assumes "sched_inv a k" and "g_current (sch k) = int c" and "i < 8"
    and "get_process_state (int i) k = PROC_READY" and "\<forall>j<i. get_process_state (int j) k \<noteq> PROC_READY"
  shows "\<exists>k' st st' m. process_exit ca k = Some k' \<and> g_current (sch k') = int i \<and> \<not> used (sch k') c
    \<and> cpu k' = p_context (procs k i) \<and> heap_rel a k st \<and> heap_rel a k' st'
    \<and> (stack (procs k c), m) \<in> heap_owned a st \<and> heap_owned a st' = heap_owned a st - {(stack (procs k c), m)}"
proof -
  have cur: "current_ok (sch k)" using assms(1) by (simp add: sched_inv_def)
  have i: "pstate (procs k i) = PROC_READY" "i \<noteq> c" and least: "\<forall>j<i. pstate (procs k j) \<noteq> PROC_READY"
    using assms(2-5) cur by (auto simp: get_process_state_def current_ok_def)
  obtain k3 st st2 m where e: "process_exit ca k = exit_switch ca k3" and st2: "heap_rel a k3 st2"
    and k3: "sch k3 = (sch k)\<lparr>g_procs := (procs k)(c := blank (procs k c))\<rparr>"
    and st: "heap_rel a k st" "(stack (procs k c), m) \<in> heap_owned a st"
        "heap_owned a st2 = heap_owned a st - {(stack (procs k c), m)}"
    using exit_prefix [OF assms(1,2), of ca] by blast
  have "List.find (\<lambda>i. (pstate (procs k3 i) = PROC_READY \<or> pstate (procs k3 i) = PROC_RUNNING)
                            \<and> int i \<noteq> g_current (sch k3)) [0..<8] = Some i"
    unfolding find_upt_Some using i least assms(2,3) cur by (auto simp: k3 blank_def current_ok_def)
  then obtain k' where k': "exit_switch ca k3 = Some k'" "mem k' = mem k3" "g_current (sch k') = int i"
      "cpu k' = p_context (procs k3 i)" "pstate (procs k' c) = pstate (procs k3 c)"
    using i(2) by (simp add: exit_switch_def Let_def del: upt_rec_numeral) (simp add: context_switch_asm_def)
  moreover have "heap_rel a k' st2" using st2 heap_rel_mem [OF k'(2)] by blast
  moreover have "\<not> used (sch k') c" "cpu k' = p_context (procs k i)" using k'(4,5) i(2) by (simp_all add: k3 blank_def)
  ultimately show ?thesis using st unfolding e by blast
qed

text \<open>A running and a ready process whose stacks are the first two blocks of the heap.\<close>

definition demo_pair :: "'a kmem_scheme \<Rightarrow> ksched" where
  "demo_pair k = \<lparr>con = con k, mem = mem k, sch = \<lparr>g_procs = (g_procs sched_boot)
       (0 := \<lparr>pid = 1, pstate = PROC_RUNNING, p_context = context0, stack = 0xffff800000200018, stack_size = 16384\<rparr>,
        1 := \<lparr>pid = 2, pstate = PROC_READY, p_context = context0\<lparr>rip := 77\<rparr>, stack = 0xffff800000204030, stack_size = 16384\<rparr>),
     g_current = 0, g_next_pid = 3, g_scheduler_started = True\<rparr>, cpu = context0\<rparr>"

lemma demo_pair_inv: "\<exists>k :: kmem. sched_inv 0xffff800000200000 (demo_pair k)"
proof -
  have m1: "abs_malloc 16384 ([], 7) = (Some 24, [(16384, False), (2080720, True)], 6)"
    by (simp add: abs_malloc_def abs_first_page_def round8_def fits_def carve_def)
  have m2: "abs_malloc 16384 ([(16384, False), (2080720, True)], 6)
      = (Some 16432, [(16384, False), (16384, False), (2064312, True)], 6)"
    by (simp add: abs_malloc_def abs_first_page_def round8_def fits_def carve_def)
  have "heap_rel 0xffff800000200000 demo_heap ([], 7)"
    using demo_heap_start by (auto simp: heap_rel_def intro!: exI)
  from heap_sim.run_refines [OF this, of "[Malloc 16384, Malloc 16384]"] obtain k :: kmem where
    "heap_rel 0xffff800000200000 k ([(16384, False), (16384, False), (2064312, True)], 6)"
    by (auto simp: m1 m2)
  then have "heap_rel 0xffff800000200000 (demo_pair k) ([(16384, False), (16384, False), (2064312, True)], 6)"
    by (simp add: heap_rel_def demo_pair_def)
  moreover have "slots_ok (sch (demo_pair k))" "current_ok (sch (demo_pair k))"
    by (auto simp: demo_pair_def slots_ok_def current_ok_def sched_boot_def)
  moreover have "stacks_ok (heap_owned 0xffff800000200000 ([(16384, False), (16384, False), (2064312, True)], 6))
      (sch (demo_pair k))"
    by (auto simp: demo_pair_def stacks_ok_def sched_boot_def heap_owned_def)
  ultimately show ?thesis unfolding sched_inv_def by blast
qed

theorem process_exit_hands_over_witness:
  "\<exists>(k :: kmem) k'. process_exit demo_code (demo_pair k) = Some k' \<and> cpu k' = context0\<lparr>rip := 77\<rparr>"
proof -
  obtain k :: kmem where "sched_inv 0xffff800000200000 (demo_pair k)" using demo_pair_inv by blast
  from process_exit_hands_over [OF this, of 0 1 demo_code] show ?thesis
    by (auto simp: demo_pair_def get_process_state_def simp del: split_paired_Ex)
qed

end
