(* ===== verification/Interrupts.thy ===== *)
theory Interrupts
  imports Scheduler
begin

text \<open>
  Interrupts: the descriptor table and the panic screen of \<open>kernel/interrupts.c\<close> (exceptions,
  vectors 0 to 31) and the second descriptor table and the interrupt controllers of
  \<open>kernel/interrupt.c\<close> (timer and keyboard, vectors 32 and 33). Each file has an array \<open>idt\<close> of
  its own; \<open>idtr\<close> is the processor's descriptor-table register, which \<open>lidt\<close> loads. The addresses
  of the two arrays and of the assembly stubs are chosen by the linker: \<open>irq_addr\<close>.
\<close>

abbreviation (input) IDT_ENTRIES :: nat where "IDT_ENTRIES \<equiv> 256"
abbreviation (input) KERNEL_CS :: u16 where "KERNEL_CS \<equiv> 0x18"

record idt_entry =
  offset_low :: u16
  selector :: u16
  ist :: u8
  type_attr :: u8
  offset_mid :: u16
  offset_high :: u32
  zero :: u32

text \<open>The same 16 bytes as \<open>interrupt.c\<close> names them.\<close>

record idt_entry_t =
  t_offset_low :: u16
  t_segment :: u16
  t_ist :: u8
  t_flags :: u8
  t_offset_mid :: u16
  t_offset_high :: u32
  t_reserved :: u32

record idt_ptr =
  limit :: u16
  base :: u64

record irq =
  idt :: "nat \<Rightarrow> idt_entry"
  irq_idt :: "nat \<Rightarrow> idt_entry_t"
  idtr :: idt_ptr

record kirq = ksched +
  irqs :: irq

record irq_addr =
  isr_stub :: "nat \<Rightarrow> u64"
  timer_handler_addr :: u64
  keyboard_handler_addr :: u64
  idt_addr :: u64
  irq_idt_addr :: u64

text \<open>\<open>struct regs_t\<close>, as the stubs push it.\<close>

record regs_t =
  reg_rax :: u64
  reg_rbx :: u64
  reg_rcx :: u64
  reg_rdx :: u64
  reg_rsi :: u64
  reg_rdi :: u64
  reg_rbp :: u64
  reg_r8 :: u64
  reg_r9 :: u64
  reg_r10 :: u64
  reg_r11 :: u64
  reg_r12 :: u64
  reg_r13 :: u64
  reg_r14 :: u64
  reg_r15 :: u64
  reg_int_no :: u64
  reg_err_code :: u64
  reg_rip :: u64
  reg_cs :: u64
  reg_rflags :: u64
  reg_rsp :: u64
  reg_ss :: u64

definition zero_entry :: idt_entry where
  "zero_entry = \<lparr>offset_low = 0, selector = 0, ist = 0, type_attr = 0, offset_mid = 0, offset_high = 0, zero = 0\<rparr>"

definition zero_entry_t :: idt_entry_t where
  "zero_entry_t = \<lparr>t_offset_low = 0, t_segment = 0, t_ist = 0, t_flags = 0, t_offset_mid = 0,
     t_offset_high = 0, t_reserved = 0\<rparr>"

definition irq_boot :: "idt_ptr \<Rightarrow> irq" where
  "irq_boot r = \<lparr>idt = (\<lambda>_. zero_entry), irq_idt = (\<lambda>_. zero_entry_t), idtr = r\<rparr>"

definition lidt :: "u16 \<Rightarrow> u64 \<Rightarrow> 'a kirq_scheme \<Rightarrow> 'a kirq_scheme" where
  "lidt l b k = k\<lparr>irqs := (irqs k)\<lparr>idtr := \<lparr>limit = l, base = b\<rparr>\<rparr>\<rparr>"


subsection \<open>The table of exceptions\<close>

definition idt_set_gate :: "nat \<Rightarrow> u64 \<Rightarrow> u8 \<Rightarrow> 'a kirq_scheme \<Rightarrow> 'a kirq_scheme" where
  "idt_set_gate n handler attr k =
     (let addr = handler
      in k\<lparr>irqs := (irqs k)\<lparr>idt := (idt (irqs k))(n :=
           \<lparr>offset_low = ucast (addr AND 0xFFFF), selector = KERNEL_CS, ist = 0, type_attr = attr,
            offset_mid = ucast (drop_bit 16 addr AND 0xFFFF),
            offset_high = ucast (drop_bit 32 addr AND 0xFFFFFFFF), zero = 0\<rparr>)\<rparr>\<rparr>)"

definition idt_init :: "irq_addr \<Rightarrow> 'a kirq_scheme \<Rightarrow> 'a kirq_scheme" where
  "idt_init ia k =
     (let k = fold (\<lambda>i k. k\<lparr>irqs := (irqs k)\<lparr>idt := (idt (irqs k))(i := zero_entry)\<rparr>\<rparr>) [0..<IDT_ENTRIES] k;
          flags = 0x8E;
          k = fold (\<lambda>n. idt_set_gate n (isr_stub ia n) flags) [0..<32] k
      in lidt (of_nat (16 * IDT_ENTRIES) - 1) (idt_addr ia) k)"


subsection \<open>The table of device interrupts\<close>

definition irq_set_gate :: "nat \<Rightarrow> u64 \<Rightarrow> 'a kirq_scheme \<Rightarrow> 'a kirq_scheme" where
  "irq_set_gate vector handler k =
     (let addr = handler
      in k\<lparr>irqs := (irqs k)\<lparr>irq_idt := (irq_idt (irqs k))(vector :=
           \<lparr>t_offset_low = ucast (addr AND 0xFFFF), t_segment = 0x18, t_ist = 0, t_flags = 0x8E,
            t_offset_mid = ucast (drop_bit 16 addr AND 0xFFFF),
            t_offset_high = ucast (drop_bit 32 addr AND 0xFFFFFFFF), t_reserved = 0\<rparr>)\<rparr>\<rparr>)"

definition irq_idt_init :: "irq_addr \<Rightarrow> 'a kirq_scheme \<Rightarrow> 'a kirq_scheme" where
  "irq_idt_init ia k =
     (let k = irq_set_gate 32 (timer_handler_addr ia) k;
          k = irq_set_gate 33 (keyboard_handler_addr ia) k
      in lidt (of_nat (16 * 256) - 1) (irq_idt_addr ia) k)"

abbreviation (input) PIC_MASTER_CMD :: u16 where "PIC_MASTER_CMD \<equiv> 0x20"
abbreviation (input) PIC_MASTER_DATA :: u16 where "PIC_MASTER_DATA \<equiv> 0x21"
abbreviation (input) PIC_SLAVE_CMD :: u16 where "PIC_SLAVE_CMD \<equiv> 0xA0"
abbreviation (input) PIC_SLAVE_DATA :: u16 where "PIC_SLAVE_DATA \<equiv> 0xA1"

definition pic_init :: "console \<Rightarrow> console" where
  "pic_init s =
     (let s = outb PIC_MASTER_DATA 0xFF s;
          s = outb PIC_SLAVE_DATA 0xFF s;
          s = outb PIC_MASTER_CMD 0x11 s;
          s = outb PIC_SLAVE_CMD 0x11 s;
          s = outb PIC_MASTER_DATA 0x20 s;
          s = outb PIC_SLAVE_DATA 0x28 s;
          s = outb PIC_MASTER_DATA 0x04 s;
          s = outb PIC_SLAVE_DATA 0x02 s;
          s = outb PIC_MASTER_DATA 0x01 s;
          s = outb PIC_SLAVE_DATA 0x01 s;
          s = outb PIC_MASTER_DATA 0xFC s
      in outb PIC_SLAVE_DATA 0xFF s)"

definition idt_register_handler :: "int \<Rightarrow> u64 \<Rightarrow> 'a kirq_scheme \<Rightarrow> 'a kirq_scheme" where
  "idt_register_handler vector handler k =
     (if 0 \<le> vector \<and> vector < 256 then irq_set_gate (nat vector) handler k else k)"

definition interrupt_init :: "irq_addr \<Rightarrow> 'a kirq_scheme \<Rightarrow> 'a kirq_scheme" where
  "interrupt_init ia k = (let k = irq_idt_init ia k in k\<lparr>con := pic_init (con k)\<rparr>)"


subsection \<open>The panic screen\<close>

definition exception_messages :: "string list" where
  "exception_messages =
     [''0: Divide-by-zero'', ''1: Debug'', ''2: NMI'', ''3: Breakpoint'', ''4: Overflow'', ''5: Bound-Range'',
      ''6: Invalid Opcode'', ''7: Device Not Available'', ''8: Double Fault'',
      ''9: Coprocessor Segment Overrun'', ''10: Invalid TSS'', ''11: Segment Not Present'',
      ''12: Stack-Segment Fault'', ''13: General Protection Fault'', ''14: Page Fault'', ''15: Reserved'',
      ''16: x87 Floating-Point'', ''17: Alignment Check'', ''18: Machine Check'', ''19: SIMD Floating-Point'',
      ''20: Virtualization'', ''21: Control Protection'', ''22: Reserved'', ''23: Reserved'', ''24: Reserved'',
      ''25: Reserved'', ''26: Reserved'', ''27: Reserved'', ''28: Hypervisor Injection'',
      ''29: VMM Communication'', ''30: Security Exception'', ''31: Reserved'']"

text \<open>The cell \<open>((uint16_t)attr << 8) | ch\<close> with \<open>attr = (0x4 << 4) | 0xF\<close>.\<close>

definition panic_cell :: "u8 \<Rightarrow> u16" where
  "panic_cell ch = (let attr = push_bit 4 0x4 OR 0xF :: u16 in push_bit 8 attr OR ucast ch)"

definition vga_clear_panic :: "console \<Rightarrow> console" where
  "vga_clear_panic = fold (\<lambda>i. vga_set i (panic_cell 0x20)) [0..<80 * 25]"

fun puts_at :: "nat \<Rightarrow> nat \<Rightarrow> string \<Rightarrow> console \<Rightarrow> console" where
  "puts_at row col [] s = s"
| "puts_at row col (c # cs) s =
     (if \<not> row < 25 then s
      else if c = CHR 0x0A then puts_at (row + 1) 0 cs s
      else if col < 80 then puts_at row (col + 1) cs (vga_set (row * 80 + col) (panic_cell (of_char c)) s)
      else puts_at row col cs s)"

definition vga_puts_at :: "nat \<Rightarrow> string \<Rightarrow> console \<Rightarrow> console" where
  "vga_puts_at row str = puts_at row 0 (cstr str)"

definition vga_print_hex64 :: "nat \<Rightarrow> nat \<Rightarrow> u64 \<Rightarrow> console \<Rightarrow> console" where
  "vga_print_hex64 row col val = fold (\<lambda>i.
     let shift = (15 - i) * 4;
         c = ''0123456789ABCDEF'' ! unat (drop_bit shift val AND 0xF)
     in vga_set (row * 80 + (col + i)) (panic_cell (of_char c))) [0..<16]"

text \<open>The screen at which \<open>isr_handler\<close> halts the machine.\<close>

definition isr_handler :: "regs_t \<Rightarrow> console \<Rightarrow> console" where
  "isr_handler r s =
     (let s = vga_clear_panic s;
          s = vga_puts_at 0 ''KERNEL PANIC'' s;
          s = vga_puts_at 1 ''CPU exception occurred.'' s;
          s = vga_puts_at 3 ''Exception:'' s;
          s = (if reg_int_no r < 32 then vga_puts_at 4 (exception_messages ! unat (reg_int_no r)) s
               else vga_puts_at 4 ''Unknown'' s);
          s = vga_puts_at 6 ''RIP:'' s;
          s = vga_print_hex64 6 5 (reg_rip r) s;
          s = vga_puts_at 7 ''RSP:'' s;
          s = vga_print_hex64 7 5 (reg_rsp r) s;
          s = vga_puts_at 8 ''RFLAGS:'' s;
          s = vga_print_hex64 8 9 (reg_rflags r) s;
          s = vga_puts_at 9 ''ERR:'' s;
          s = vga_print_hex64 9 5 (reg_err_code r) s
      in vga_puts_at 11 ''System halted.'' s)"


subsection \<open>Gates\<close>

text \<open>The handler a gate names, as the processor assembles it.\<close>

definition gate_offset :: "idt_entry \<Rightarrow> u64" where
  "gate_offset e = push_bit 32 (ucast (offset_high e)) OR push_bit 16 (ucast (offset_mid e)) OR ucast (offset_low e)"

definition gate_offset_t :: "idt_entry_t \<Rightarrow> u64" where
  "gate_offset_t e = push_bit 32 (ucast (t_offset_high e)) OR push_bit 16 (ucast (t_offset_mid e)) OR ucast (t_offset_low e)"

lemma split_offset:
  "push_bit 32 (ucast (ucast (drop_bit 32 a AND 0xFFFFFFFF) :: u32))
     OR push_bit 16 (ucast (ucast (drop_bit 16 a AND 0xFFFF) :: u16)) OR ucast (ucast (a AND 0xFFFF) :: u16) = (a :: u64)"
proof (rule bit_word_eqI)
  have m: "(0xFFFF :: u64) = mask 16" "(0xFFFFFFFF :: u64) = mask 32"
    by (simp_all add: mask_eq_exp_minus_1)
  show "bit (push_bit 32 (ucast (ucast (drop_bit 32 a AND 0xFFFFFFFF) :: u32))
     OR push_bit 16 (ucast (ucast (drop_bit 16 a AND 0xFFFF) :: u16)) OR ucast (ucast (a AND 0xFFFF) :: u16) :: u64) n
     \<longleftrightarrow> bit a n" if "n < LENGTH(64)" for n
    using that unfolding m by (cases "32 \<le> n") (auto simp: bit_simps)
qed

definition gate :: "u64 \<Rightarrow> u8 \<Rightarrow> idt_entry" where
  "gate h t = \<lparr>offset_low = ucast (h AND 0xFFFF), selector = KERNEL_CS, ist = 0, type_attr = t,
     offset_mid = ucast (drop_bit 16 h AND 0xFFFF), offset_high = ucast (drop_bit 32 h AND 0xFFFFFFFF), zero = 0\<rparr>"

definition gate_t :: "u64 \<Rightarrow> idt_entry_t" where
  "gate_t h = \<lparr>t_offset_low = ucast (h AND 0xFFFF), t_segment = 0x18, t_ist = 0, t_flags = 0x8E,
     t_offset_mid = ucast (drop_bit 16 h AND 0xFFFF), t_offset_high = ucast (drop_bit 32 h AND 0xFFFFFFFF),
     t_reserved = 0\<rparr>"

lemma gate_offset [simp]: "gate_offset (gate h t) = h" "gate_offset_t (gate_t h) = h"
  using split_offset [of h] by (simp_all add: gate_offset_def gate_offset_t_def gate_def gate_t_def)

lemma present [simp]: "bit (type_attr (gate h 0x8E)) 7" "bit (t_flags (gate_t h)) 7"
    "\<not> bit (type_attr zero_entry) 7" "\<not> bit (t_flags zero_entry_t) 7"
  by (simp_all add: gate_def gate_t_def zero_entry_def zero_entry_t_def bit_numeral_rec)

lemma set_gate_frame [simp, frame_simps]:
  "idt (irqs (idt_set_gate n h t k)) = (idt (irqs k))(n := gate h t)"
  "irq_idt (irqs (idt_set_gate n h t k)) = irq_idt (irqs k)"
  "irq_idt (irqs (irq_set_gate n h k)) = (irq_idt (irqs k))(n := gate_t h)"
  "idt (irqs (irq_set_gate n h k)) = idt (irqs k)"
  "idt (irqs (lidt l b k)) = idt (irqs k)" "irq_idt (irqs (lidt l b k)) = irq_idt (irqs k)"
  "base (idtr (irqs (lidt l b k))) = b"
  by (simp_all add: idt_set_gate_def irq_set_gate_def gate_def gate_t_def lidt_def Let_def)

lemma fold_gates:
  "idt (irqs (fold (\<lambda>n. idt_set_gate n (g n) t) [0..<m] k)) i
    = (if i < m then gate (g i) t else idt (irqs k) i)"
  "irq_idt (irqs (fold (\<lambda>n. idt_set_gate n (g n) t) [0..<m] k)) = irq_idt (irqs k)"
  by (induction m) auto

lemma fold_clear:
  "idt (irqs (fold (\<lambda>i k. k\<lparr>irqs := (irqs k)\<lparr>idt := (idt (irqs k))(i := zero_entry)\<rparr>\<rparr>) [0..<m] k)) i
    = (if i < m then zero_entry else idt (irqs k) i)"
  "irq_idt (irqs (fold (\<lambda>i k. k\<lparr>irqs := (irqs k)\<lparr>idt := (idt (irqs k))(i := zero_entry)\<rparr>\<rparr>) [0..<m] k))
    = irq_idt (irqs k)"
  by (induction m) auto

text \<open>The gate the processor finds for a vector, as present bit and handler address; \<open>idtr\<close> says in
  which of the two tables.\<close>

definition cpu_gate :: "irq_addr \<Rightarrow> irq \<Rightarrow> nat \<Rightarrow> u64 option" where
  "cpu_gate ia r v =
     (if base (idtr r) = idt_addr ia then
        (if bit (type_attr (idt r v)) 7 then Some (gate_offset (idt r v)) else None)
      else if base (idtr r) = irq_idt_addr ia then
        (if bit (t_flags (irq_idt r v)) 7 then Some (gate_offset_t (irq_idt r v)) else None)
      else None)"

lemma idt_init_gates:
  assumes "v < 256"
  shows "cpu_gate ia (irqs (idt_init ia k)) v = (if v < 32 then Some (isr_stub ia v) else None)"
  using assms by (simp add: cpu_gate_def idt_init_def Let_def fold_gates fold_clear del: upt_rec_numeral)

lemma interrupt_init_gates:
  assumes "irq_idt (irqs k) = (\<lambda>_. zero_entry_t)" and "idt_addr ia \<noteq> irq_idt_addr ia"
  shows "cpu_gate ia (irqs (interrupt_init ia k)) v
    = (if v = 32 then Some (timer_handler_addr ia) else if v = 33 then Some (keyboard_handler_addr ia) else None)"
  using assms by (simp add: cpu_gate_def interrupt_init_def irq_idt_init_def Let_def)

subsection \<open>What the panic screen shows\<close>

definition shows_text :: "console \<Rightarrow> nat \<Rightarrow> nat \<Rightarrow> string \<Rightarrow> bool" where
  "shows_text s row col str \<longleftrightarrow> (\<forall>i<length str. vga s (row * 80 + col + i) = panic_cell (of_char (str ! i)))"

text \<open>A number written in 16 hexadecimal digits.\<close>

definition shows_hex :: "console \<Rightarrow> nat \<Rightarrow> nat \<Rightarrow> u64 \<Rightarrow> bool" where
  "shows_hex s row col v \<longleftrightarrow> (\<exists>str. length str = 16 \<and> shows_text s row col str
     \<and> read_digits digits_large 16 str = unat v)"

text \<open>Text that fits into a row and holds no line break.\<close>

definition one_line :: "string \<Rightarrow> bool" where
  "one_line str \<longleftrightarrow> length str \<le> 80 \<and> NUL \<notin> set str \<and> CHR 0x0A \<notin> set str"

lemma puts_at_vga:
  assumes "row < 25" and "CHR 0x0A \<notin> set str" and "col + length str \<le> 80"
  shows "vga (puts_at row col str s) j
    = (if row * 80 + col \<le> j \<and> j < row * 80 + col + length str
       then panic_cell (of_char (str ! (j - (row * 80 + col)))) else vga s j)"
  using assms
proof (induction str arbitrary: col s)
  case (Cons c cs)
  then show ?case
    by (auto simp: vga_set_def nth_Cons')
qed auto

lemma vga_puts_at_vga [simp]:
  assumes "row < 25" and "one_line str"
  shows "vga (vga_puts_at row str s) j
    = (if row * 80 \<le> j \<and> j < row * 80 + length str
       then panic_cell (of_char (str ! (j - row * 80))) else vga s j)"
  using assms puts_at_vga [of row str 0 s j] by (simp add: vga_puts_at_def one_line_def cstr_id)

definition hex16 :: "u64 \<Rightarrow> string" where
  "hex16 v = map (\<lambda>i. ''0123456789ABCDEF'' ! unat (drop_bit ((15 - i) * 4) v AND 0xF)) [0..<16]"

lemma hex16_nth: "i < 16 \<Longrightarrow> hex16 v ! i = ''0123456789ABCDEF'' ! unat (drop_bit ((15 - i) * 4) v AND 0xF)"
  by (simp add: hex16_def del: upt_rec_numeral)

lemma vga_print_hex64_vga [simp]:
  "vga (vga_print_hex64 row col v s) j
    = (if row * 80 + col \<le> j \<and> j < row * 80 + col + 16
       then panic_cell (of_char (hex16 v ! (j - (row * 80 + col)))) else vga s j)"
proof -
  have "vga (fold (\<lambda>i. vga_set (row * 80 + (col + i)) (panic_cell (of_char (f i)))) [0..<n] s) j
    = (if row * 80 + col \<le> j \<and> j < row * 80 + col + n then panic_cell (of_char (f (j - (row * 80 + col)))) else vga s j)"
    for f and n by (induction n) (auto simp: vga_set_def)
  from this [of "\<lambda>i. ''0123456789ABCDEF'' ! unat (drop_bit ((15 - i) * 4) v AND 0xF)" 16]
  have "vga (vga_print_hex64 row col v s) j
    = (if row * 80 + col \<le> j \<and> j < row * 80 + col + 16
       then panic_cell (of_char (''0123456789ABCDEF'' ! unat (drop_bit ((15 - (j - (row * 80 + col))) * 4) v AND 0xF)))
       else vga s j)"
    unfolding vga_print_hex64_def Let_def .
  moreover have "j - (row * 80 + col) < 16" if "row * 80 + col \<le> j \<and> j < row * 80 + col + 16"
    using that by linarith
  ultimately show ?thesis using hex16_nth [of "j - (row * 80 + col)" v] by metis
qed

lemma nibble: "unat (drop_bit m v AND 0xF) = unat (v :: u64) div 2 ^ m mod 16"
proof -
  have "drop_bit m v AND 0xF = take_bit 4 (drop_bit m v)" by (simp add: take_bit_eq_mask mask_eq_exp_minus_1)
  then have "unat (drop_bit m v AND 0xF) = take_bit 4 (unat (drop_bit m v))"
    by (simp only: unsigned_take_bit_eq)
  then show ?thesis by (simp add: unat_drop_bit take_bit_eq_mod)
qed

lemma hex16_reads: "read_digits digits_large 16 (hex16 v) = unat v"
proof -
  have idx: "digit_index digits_large (''0123456789ABCDEF'' ! n) = n" if "n < 16" for n
  proof -
    have "''0123456789ABCDEF'' ! n = digits_large ! n"
      using that by (simp add: digits_large_def nth_append [of "''0123456789ABCDEF''" "''GHIJKLMNOPQRSTUVWXYZ''", simplified])
    then show ?thesis using digit_index_nth [of digits_large n] digits_distinct that by simp
  qed
  have "foldl (\<lambda>acc i. acc * 16 + unat (drop_bit ((15 - i) * 4) v AND 0xF)) 0 [0..<n] = unat v div 2 ^ (64 - 4 * n)"
    if "n \<le> 16" for n
    using that
  proof (induction n)
    case 0
    then show ?case using unat_u64_less [of v] by simp
  next
    case (Suc n)
    have e: "64 - 4 * n = (15 - n) * 4 + 4" "64 - 4 * Suc n = (15 - n) * 4" using Suc.prems by simp_all
    have "unat v div 2 ^ ((15 - n) * 4 + 4) = unat v div 2 ^ ((15 - n) * 4) div 16"
      by (simp add: power_add div_mult2_eq)
    with Suc show ?case unfolding e(2) by (simp add: e(1) nibble)
  qed
  from this [of 16] have "foldl (\<lambda>acc i. acc * 16 + unat (drop_bit ((15 - i) * 4) v AND 0xF)) 0 [0..<16] = unat v"
    by simp
  moreover have "digit_index digits_large (''0123456789ABCDEF'' ! unat (drop_bit m v AND 0xF)) = unat (drop_bit m v AND 0xF)" for m
    by (rule idx) (simp add: nibble)
  ultimately show ?thesis
    by (simp add: read_digits_def hex16_def foldl_map del: upt_rec_numeral)
qed

lemma shows_hexI: "shows_text s row col (hex16 v) \<Longrightarrow> shows_hex s row col v"
  unfolding shows_hex_def by (intro exI [of _ "hex16 v"]) (simp add: hex16_reads, simp add: hex16_def)

lemma one_line_messages: "m \<in> set exception_messages \<Longrightarrow> one_line m"
  by (auto simp: exception_messages_def one_line_def)

text \<open>The line that names the exception.\<close>

definition exception_line :: "u64 \<Rightarrow> string" where
  "exception_line n = (if n < 32 then exception_messages ! unat n else ''Unknown'')"

lemma one_line_exception: "one_line (exception_line n)"
proof (cases "n < 32")
  case True
  then have "unat n < length exception_messages" by (simp add: exception_messages_def word_less_nat_alt)
  then show ?thesis using True one_line_messages nth_mem by (simp add: exception_line_def)
qed (simp add: exception_line_def one_line_def)

lemma one_line_texts [simp]:
  "one_line ''KERNEL PANIC''" "one_line ''CPU exception occurred.''" "one_line ''Exception:''" "one_line ''RIP:''"
  "one_line ''RSP:''" "one_line ''RFLAGS:''" "one_line ''ERR:''" "one_line ''System halted.''"
  by (simp_all add: one_line_def)

lemma isr_handler_exception:
  "isr_handler r s = (let s = vga_puts_at 4 (exception_line (reg_int_no r))
       (vga_puts_at 3 ''Exception:'' (vga_puts_at 1 ''CPU exception occurred.'' (vga_puts_at 0 ''KERNEL PANIC''
          (vga_clear_panic s))))
     in vga_puts_at 11 ''System halted.'' (vga_print_hex64 9 5 (reg_err_code r) (vga_puts_at 9 ''ERR:''
        (vga_print_hex64 8 9 (reg_rflags r) (vga_puts_at 8 ''RFLAGS:'' (vga_print_hex64 7 5 (reg_rsp r)
        (vga_puts_at 7 ''RSP:'' (vga_print_hex64 6 5 (reg_rip r) (vga_puts_at 6 ''RIP:'' s)))))))))"
  by (simp add: isr_handler_def exception_line_def Let_def)

lemma vga_clear_panic_vga: "vga (vga_clear_panic s) j = (if j < 2000 then panic_cell 0x20 else vga s j)"
proof -
  have "vga (fold (\<lambda>i. vga_set i (panic_cell 0x20)) [0..<n] s) j = (if j < n then panic_cell 0x20 else vga s j)" for n
    by (induction n) (auto simp: vga_set_def)
  then show ?thesis by (simp add: vga_clear_panic_def del: upt_rec_numeral)
qed


subsection \<open>Properties\<close>

text \<open>C18: \<open>idt_init\<close> gives each of the 32 exception vectors a present gate whose three offset
  fields the processor reassembles to the address of its stub. But \<open>interrupt_init\<close>, called
  after it, loads the descriptor table of the other file, in which only the vectors 32 and 33
  are present: from then on no exception has a gate, and the panic screen cannot be reached.\<close>

theorem exceptions_lose_their_gates:
  assumes "irq_idt (irqs k) = (\<lambda>_. zero_entry_t)" and "idt_addr ia \<noteq> irq_idt_addr ia" and "v < 256"
  shows "cpu_gate ia (irqs (idt_init ia k)) v = (if v < 32 then Some (isr_stub ia v) else None)
    \<and> cpu_gate ia (irqs (interrupt_init ia (idt_init ia k))) v
      = (if v = 32 then Some (timer_handler_addr ia) else if v = 33 then Some (keyboard_handler_addr ia) else None)"
proof (rule conjI [OF idt_init_gates [OF assms(3)]])
  have "irq_idt (irqs (idt_init ia k)) = (\<lambda>_. zero_entry_t)"
    using assms(1) by (simp add: idt_init_def Let_def fold_gates fold_clear del: upt_rec_numeral)
  then show "cpu_gate ia (irqs (interrupt_init ia (idt_init ia k))) v
      = (if v = 32 then Some (timer_handler_addr ia) else if v = 33 then Some (keyboard_handler_addr ia) else None)"
    using assms(2) by (rule interrupt_init_gates)
qed

definition demo_irq_addr :: irq_addr where
  "demo_irq_addr = \<lparr>isr_stub = (\<lambda>n. 0x100000 + 16 * of_nat n), timer_handler_addr = 0x101000,
     keyboard_handler_addr = 0x101100, idt_addr = 0x200000, irq_idt_addr = 0x201000\<rparr>"

definition demo_irq :: kirq where
  "demo_irq = \<lparr>con = con demo_sched, mem = mem demo_sched, sch = sch demo_sched, cpu = cpu demo_sched,
     irqs = irq_boot \<lparr>limit = 0, base = 0\<rparr>\<rparr>"

theorem exceptions_lose_their_gates_witness:
  "cpu_gate demo_irq_addr (irqs (idt_init demo_irq_addr demo_irq)) 14 = Some 0x1000e0
   \<and> cpu_gate demo_irq_addr (irqs (interrupt_init demo_irq_addr (idt_init demo_irq_addr demo_irq))) 14 = None"
  using exceptions_lose_their_gates [of demo_irq demo_irq_addr 14]
  by (simp add: demo_irq_def demo_irq_addr_def irq_boot_def)

text \<open>C19: the panic screen names the exception of the vector that was raised (\<open>Unknown\<close> from vector
  32 on) and shows the saved instruction pointer, stack pointer, flags and error code in
  hexadecimal digits that read back to their values; nothing outside the 2000 cells of the text
  screen is written.\<close>

theorem panic_screen_reports:
  "shows_text (isr_handler r s) 4 0 (exception_line (reg_int_no r))
   \<and> shows_hex (isr_handler r s) 6 5 (reg_rip r) \<and> shows_hex (isr_handler r s) 7 5 (reg_rsp r)
   \<and> shows_hex (isr_handler r s) 8 9 (reg_rflags r) \<and> shows_hex (isr_handler r s) 9 5 (reg_err_code r)
   \<and> (\<lambda>i. vga (isr_handler r s) (2000 + i)) = (\<lambda>i. vga s (2000 + i))"
proof -
  have len: "length (exception_line n) \<le> 80" for n using one_line_exception [of n] by (simp add: one_line_def)
  have hex: "length (hex16 v) = 16" for v by (simp add: hex16_def)
  have "shows_text (isr_handler r s) 4 0 (exception_line (reg_int_no r))"
    using len [of "reg_int_no r"] by (simp add: shows_text_def isr_handler_exception Let_def one_line_exception)
  moreover have "shows_hex (isr_handler r s) 6 5 (reg_rip r)" "shows_hex (isr_handler r s) 7 5 (reg_rsp r)"
      "shows_hex (isr_handler r s) 8 9 (reg_rflags r)" "shows_hex (isr_handler r s) 9 5 (reg_err_code r)"
    by (rule shows_hexI, simp add: hex shows_text_def isr_handler_exception Let_def)+
  moreover have "vga (isr_handler r s) (2000 + i) = vga s (2000 + i)" for i
    using len [of "reg_int_no r"]
    by (simp add: isr_handler_exception Let_def one_line_exception vga_clear_panic_vga)
  ultimately show ?thesis by blast
qed

end
