(* ===== verification/Timer.thy ===== *)
theory Timer
  imports Interrupts
begin

text \<open>
  The interval timer (\<open>kernel/timer.c\<close>): programming of channel 0 and the interrupt handler, which
  counts ticks, calls the scheduler's (empty) tick function and acknowledges the interrupt.
\<close>

abbreviation (input) PIT_CHANNEL0 :: u16 where "PIT_CHANNEL0 \<equiv> 0x40"
abbreviation (input) PIT_COMMAND :: u16 where "PIT_COMMAND \<equiv> 0x43"
abbreviation (input) PIT_FREQUENCY :: u32 where "PIT_FREQUENCY \<equiv> 1193182"

record ktimer = kirq +
  g_ticks :: u64

definition timer_init :: "u32 \<Rightarrow> 'a ktimer_scheme \<Rightarrow> 'a ktimer_scheme" where
  "timer_init frequency k =
     (let frequency = (if frequency = 0 then 100 else frequency);
          divisor = PIT_FREQUENCY div frequency;
          k = k\<lparr>con := outb PIT_COMMAND 0x36 (con k)\<rparr>;
          k = k\<lparr>con := outb PIT_CHANNEL0 (ucast (divisor AND 0xFF)) (con k)\<rparr>;
          k = k\<lparr>con := outb PIT_CHANNEL0 (ucast (drop_bit 8 divisor AND 0xFF)) (con k)\<rparr>
      in k\<lparr>g_ticks := 0\<rparr>)"

definition timer_ticks :: "'a ktimer_scheme \<Rightarrow> u64" where
  "timer_ticks k = g_ticks k"

definition timer_handler_c :: "'a ktimer_scheme \<Rightarrow> 'a ktimer_scheme" where
  "timer_handler_c k =
     (let k = k\<lparr>g_ticks := g_ticks k + 1\<rparr>;
          k = scheduler_tick k
      in k\<lparr>con := outb 0x20 0x20 (con k)\<rparr>)"

lemma unat_ucast_32_8: "unat (ucast (x :: u32) :: u8) = unat x mod 256"
  by (simp add: unsigned_ucast_eq take_bit_eq_mod)

lemma unat_low_byte: "unat (ucast (x AND 0xFF :: u32) :: u8) = unat x mod 256"
proof -
  have "x AND 0xFF = take_bit 8 x" by (simp add: take_bit_eq_mask mask_eq_exp_minus_1)
  then show ?thesis by (simp only: unat_ucast_32_8 unsigned_take_bit_eq) (simp add: take_bit_eq_mod)
qed


subsection \<open>Properties\<close>

text \<open>\<open>timer_init\<close> sends the command byte and then, low byte first, the divisor
  \<open>1193182 div frequency\<close> (of 100 when the frequency is 0) modulo 2^16, and restarts the count.
  The divisor fits into the 16 bits of the channel exactly from 19 Hz on; below, a wrong rate is
  programmed.\<close>

theorem timer_init_programs_divisor:
  "\<exists>lo hi d. io_out (con (timer_init f k)) = io_out (con k) @ [(0x43, 0x36), (0x40, lo), (0x40, hi)]
     \<and> unat lo + 256 * unat hi = d mod 2 ^ 16 \<and> d = 1193182 div (if f = 0 then 100 else unat f)
     \<and> (d < 2 ^ 16 \<longleftrightarrow> f = 0 \<or> 19 \<le> f) \<and> timer_ticks (timer_init f k) = 0"
proof -
  define g where "g = (if f = 0 then 100 else f)"
  define d where "d = (1193182 :: nat) div unat g"
  have g: "unat g = (if f = 0 then 100 else unat f)" by (simp add: g_def)
  have d: "unat (1193182 div g :: u32) = d" by (simp add: d_def unat_div)
  have io: "io_out (con (timer_init f k)) = io_out (con k) @ [(0x43, 0x36), (0x40, ucast (1193182 div g AND 0xFF)),
      (0x40, ucast (drop_bit 8 (1193182 div g) AND 0xFF))]"
    by (simp add: timer_init_def Let_def outb_def g_def)
  have "d < 2 ^ 16 \<longleftrightarrow> f = 0 \<or> 19 \<le> f"
  proof (cases "f = 0")
    case False
    then have pos: "0 < unat f" by (simp add: unat_gt_0)
    have "d < 65536 \<longleftrightarrow> 1193182 < 65536 * unat f"
      unfolding d_def g using False pos by (simp add: div_less_iff_less_mult mult.commute)
    also have "\<dots> \<longleftrightarrow> 19 \<le> unat f" by linarith
    finally show ?thesis using False by (simp add: word_le_nat_alt)
  qed (simp add: d_def g)
  moreover have "d mod 256 + 256 * (d div 256 mod 256) = d mod 2 ^ 16"
    using mod_mult2_eq [of d 256 256] by simp
  moreover have "timer_ticks (timer_init f k) = 0" by (simp add: timer_ticks_def timer_init_def Let_def)
  moreover have "unat (ucast (1193182 div g AND 0xFF) :: u8) = d mod 256"
      "unat (ucast (drop_bit 8 (1193182 div g) AND 0xFF) :: u8) = d div 256 mod 256"
    by (simp_all add: unat_low_byte unat_drop_bit d)
  moreover have "d = 1193182 div (if f = 0 then 100 else unat f)" by (simp add: d_def g)
  ultimately show ?thesis using io by metis
qed


end
