(* ===== verification/Shell.thy ===== *)
theory Shell
  imports Timer
begin

text \<open>
  The command shell (\<open>kernel/shell.c\<close>): a line editor with a cursor, a history of 50 commands, the
  splitting of the line into arguments and three commands. The character arrays are lists of their
  full length; an access outside an array, or a string routine that finds no terminator, makes the
  operation \<open>None\<close>. \<open>argv\<close> is the list of the offsets into \<open>cmd_buffer\<close> that the C array holds as
  pointers, so that an argument is read from the buffer as it is when the command prints it.
\<close>

abbreviation (input) MAX_CMD_LEN :: nat where "MAX_CMD_LEN \<equiv> 128"
abbreviation (input) MAX_ARGS :: nat where "MAX_ARGS \<equiv> 16"
abbreviation (input) MAX_CMD_HISTORY :: nat where "MAX_CMD_HISTORY \<equiv> 50"
abbreviation (input) PROMPT :: string where "PROMPT \<equiv> ''> ''"

abbreviation (input) KEY_UP :: char where "KEY_UP \<equiv> CHR 0x01"
abbreviation (input) KEY_DOWN :: char where "KEY_DOWN \<equiv> CHR 0x02"
abbreviation (input) KEY_LEFT :: char where "KEY_LEFT \<equiv> CHR 0x03"
abbreviation (input) KEY_RIGHT :: char where "KEY_RIGHT \<equiv> CHR 0x04"
abbreviation (input) KEY_HOME :: char where "KEY_HOME \<equiv> CHR 0x05"
abbreviation (input) KEY_END :: char where "KEY_END \<equiv> CHR 0x06"
abbreviation (input) KEY_DEL :: char where "KEY_DEL \<equiv> CHR 0x07"
abbreviation (input) KEY_ENTER :: char where "KEY_ENTER \<equiv> CHR 0x0A"
abbreviation (input) KEY_BACKSPACE :: char where "KEY_BACKSPACE \<equiv> CHR 0x08"

record shell =
  cmd_history :: "string list"
  sh_history_count :: int
  sh_history_current :: int
  sh_history_saved_current :: int
  cmd_buffer :: string
  cmd_pos :: int
  cursor_pos :: int
  shell_active :: bool
  saved_cmd :: string
  saved_cmd_pos :: int

record kshell = ktimer +
  sh :: shell

text \<open>The static initialisers: zeroed arrays.\<close>

definition shell_boot :: shell where
  "shell_boot = \<lparr>cmd_history = replicate MAX_CMD_HISTORY (replicate MAX_CMD_LEN NUL),
     sh_history_count = 0, sh_history_current = -1, sh_history_saved_current = -1,
     cmd_buffer = replicate MAX_CMD_LEN NUL, cmd_pos = 0, cursor_pos = 0, shell_active = False,
     saved_cmd = replicate MAX_CMD_LEN NUL, saved_cmd_pos = 0\<rparr>"

text \<open>Array accesses with a C \<open>int\<close> index.\<close>

definition buf_get :: "'b list \<Rightarrow> int \<Rightarrow> 'b option" where
  "buf_get xs i = (if i < 0 then None else arr_get xs (nat i))"

definition buf_set :: "'b list \<Rightarrow> int \<Rightarrow> 'b \<Rightarrow> 'b list option" where
  "buf_set xs i v = (if i < 0 then None else arr_set xs (nat i) v)"

text \<open>A counted loop whose body may fail.\<close>

fun ofold :: "('i \<Rightarrow> 's \<Rightarrow> 's option) \<Rightarrow> 'i list \<Rightarrow> 's \<Rightarrow> 's option" where
  "ofold f [] s = Some s"
| "ofold f (i # is) s = (case f i s of None \<Rightarrow> None | Some s \<Rightarrow> ofold f is s)"

definition on_con :: "(console \<Rightarrow> console) \<Rightarrow> 'a kcon_scheme \<Rightarrow> 'a kcon_scheme" where
  "on_con f k = k\<lparr>con := f (con k)\<rparr>"

definition on_sh :: "(shell \<Rightarrow> shell) \<Rightarrow> 'a kshell_scheme \<Rightarrow> 'a kshell_scheme" where
  "on_sh f k = k\<lparr>sh := f (sh k)\<rparr>"


subsection \<open>Commands\<close>

text \<open>\<open>argv\<close> as the commands see it: the character arrays its pointers point to.\<close>

definition cmd_echo :: "string list \<Rightarrow> 'a kcon_scheme \<Rightarrow> 'a kcon_scheme" where
  "cmd_echo argv k =
     (let argc = length argv;
          k = fold (\<lambda>i k.
                let k = printk ''%s'' [ArgS (Some (argv ! i))] k
                in if i < argc - 1 then printk '' '' [] k else k) [1..<argc] k
      in printk NL [] k)"

definition command_names :: "(string \<times> string) list" where
  "command_names = [(''echo'', ''Print arguments''), (''help'', ''Show help''), (''clear'', ''Clear screen'')]"

definition cmd_help :: "string list \<Rightarrow> 'a kcon_scheme \<Rightarrow> 'a kcon_scheme" where
  "cmd_help argv k =
     fold (\<lambda>(name, description). printk (''  %-10s - %s'' @ NL) [ArgS (Some name), ArgS (Some description)])
       command_names (printk (''Available commands:'' @ NL) [] k)"

definition cmd_clear :: "string list \<Rightarrow> 'a kcon_scheme \<Rightarrow> 'a kcon_scheme" where
  "cmd_clear argv k = on_con clear_screen k"

definition commands :: "(string \<times> (string list \<Rightarrow> 'a kcon_scheme \<Rightarrow> 'a kcon_scheme)) list" where
  "commands = zip (map fst command_names) [cmd_echo, cmd_help, cmd_clear]"

text \<open>The search for the command whose name is the first argument.\<close>

fun find_command :: "string \<Rightarrow> (string \<times> 'f) list \<Rightarrow> 'f option option" where
  "find_command name [] = Some None"
| "find_command name ((n, f) # cs) =
     (case strcmp name (n @ [NUL]) of
        None \<Rightarrow> None
      | Some r \<Rightarrow> if r = 0 then Some (Some f) else find_command name cs)"


subsection \<open>History\<close>

definition history_add :: "string \<Rightarrow> 'a kshell_scheme \<Rightarrow> 'a kshell_scheme option" where
  "history_add cmd k = do {
     c \<leftarrow> buf_get cmd 0;
     if c = NUL then Some k
     else do {
       same \<leftarrow> (if 0 < sh_history_count (sh k)
                 then do { l \<leftarrow> buf_get (cmd_history (sh k)) (sh_history_count (sh k) - 1);
                           r \<leftarrow> strcmp l cmd; Some (r = 0) }
                 else Some False);
       if same then Some k
       else do {
         k \<leftarrow> (if int MAX_CMD_HISTORY \<le> sh_history_count (sh k)
                then do {
                  h \<leftarrow> ofold (\<lambda>i h. do { d \<leftarrow> arr_get h i; s \<leftarrow> arr_get h (i + 1);
                                         d \<leftarrow> str_copy d s; arr_set h i d })
                         [0..<MAX_CMD_HISTORY - 1] (cmd_history (sh k));
                  Some (on_sh (\<lambda>s. s\<lparr>cmd_history := h, sh_history_count := int MAX_CMD_HISTORY - 1\<rparr>) k) }
                else Some k);
         d \<leftarrow> buf_get (cmd_history (sh k)) (sh_history_count (sh k));
         d \<leftarrow> str_copy d cmd;
         h \<leftarrow> buf_set (cmd_history (sh k)) (sh_history_count (sh k)) d;
         Some (on_sh (\<lambda>s. s\<lparr>cmd_history := h, sh_history_count := sh_history_count s + 1\<rparr>) k)
       }
     }
   }"

text \<open>The line is replaced by the entry \<open>show_cmd\<close>, on the screen and in the buffer.\<close>

definition history_display :: "string \<Rightarrow> 'a kshell_scheme \<Rightarrow> 'a kshell_scheme option" where
  "history_display show_cmd k = do {
     new_len \<leftarrow> strlen show_cmd;
     let old_len = nat (cmd_pos (sh k));
     let k = on_con (move_cursor_left ^^ old_len) k;
     b \<leftarrow> str_copy (cmd_buffer (sh k)) show_cmd;
     let k = on_sh (\<lambda>t. t\<lparr>cmd_buffer := b, cmd_pos := int new_len, cursor_pos := int new_len\<rparr>) k;
     let k = printk ''%s'' [ArgS (Some (cmd_buffer (sh k)))] k;
     Some (if new_len < old_len
           then let diff = old_len - new_len
                in on_con (move_cursor_left ^^ diff) (on_con (print_char (CHR '' '') ^^ diff) k)
           else k)
   }"

definition history_show :: "int \<Rightarrow> 'a kshell_scheme \<Rightarrow> 'a kshell_scheme option" where
  "history_show direction k =
     (if sh_history_count (sh k) = 0 then Some k
      else do {
        k \<leftarrow> (if sh_history_current (sh k) = -1 \<and> direction = 1
               then do { s \<leftarrow> str_copy (saved_cmd (sh k)) (cmd_buffer (sh k));
                         Some (on_sh (\<lambda>t. t\<lparr>saved_cmd := s, saved_cmd_pos := cmd_pos t\<rparr>) k) }
               else Some k);
        let current = sh_history_current (sh k);
        let count = sh_history_count (sh k);
        let new_index = (if direction = 1 then (if current < count - 1 then current + 1 else current)
                         else (if -1 < current then current - 1 else current));
        let new_index = (if new_index < -1 then -1 else new_index);
        let new_index = (if count \<le> new_index then count - 1 else new_index);
        let k = on_sh (\<lambda>s. s\<lparr>sh_history_current := new_index\<rparr>) k;
        let current = sh_history_current (sh k);
        show_cmd \<leftarrow> (if 0 \<le> current \<and> current < count then map_option Some (buf_get (cmd_history (sh k)) current)
                     else if current = -1 then Some (Some (saved_cmd (sh k)))
                     else Some None);
        case show_cmd of
          None \<Rightarrow> Some k
        | Some s \<Rightarrow> history_display s k
      })"


subsection \<open>The line\<close>

definition move_cursor_to :: "int \<Rightarrow> 'a kshell_scheme \<Rightarrow> 'a kshell_scheme" where
  "move_cursor_to new_pos k =
     (let new_pos = (if new_pos < 0 then 0 else new_pos);
          new_pos = (if cmd_pos (sh k) < new_pos then cmd_pos (sh k) else new_pos);
          steps = new_pos - cursor_pos (sh k);
          k = (if 0 < steps then on_con (move_cursor_right ^^ nat steps) k
               else if steps < 0 then on_con (move_cursor_left ^^ nat (- steps)) k else k)
      in on_sh (\<lambda>s. s\<lparr>cursor_pos := new_pos\<rparr>) k)"

definition redraw_from_cursor :: "'a kshell_scheme \<Rightarrow> 'a kshell_scheme" where
  "redraw_from_cursor k =
     (let chars_to_redraw = cmd_pos (sh k) - cursor_pos (sh k);
          k = (if cursor_pos (sh k) < cmd_pos (sh k)
               then printk ''%s'' [ArgS (Some (drop (nat (cursor_pos (sh k))) (cmd_buffer (sh k))))] k else k);
          old_length = cmd_pos (sh k) + 1 - cursor_pos (sh k);
          k = (if chars_to_redraw < old_length
               then on_con (print_char (CHR '' '') ^^ nat (old_length - chars_to_redraw)) k else k);
          total_printed = chars_to_redraw + (old_length - chars_to_redraw)
      in on_con (move_cursor_left ^^ nat total_printed) k)"

text \<open>
  The loop of \<open>parse_arguments\<close> at position \<open>p\<close>: the buffer, in which the blank after an argument
  becomes a NUL, and the offsets found.
\<close>

function parse_loop :: "nat \<Rightarrow> string \<Rightarrow> nat list \<Rightarrow> bool \<Rightarrow> (string \<times> nat list) option" where
  "parse_loop p buf argv in_arg =
     (if length buf \<le> p then None
      else if buf ! p = NUL \<or> \<not> length argv < MAX_ARGS - 1 then Some (buf, argv)
      else if buf ! p = CHR '' '' \<or> buf ! p = CHR 0x09 then
        if in_arg then parse_loop (p + 1) (buf[p := NUL]) argv False
        else parse_loop (p + 1) buf argv in_arg
      else if \<not> in_arg then parse_loop (p + 1) buf (argv @ [p]) True
      else parse_loop (p + 1) buf argv in_arg)"
  by pat_completeness auto

termination
  by (relation "measure (\<lambda>(p, buf, argv, in_arg). length buf - p)") auto

declare parse_loop.simps [simp del]

definition parse_arguments :: "string \<Rightarrow> (string \<times> nat list) option" where
  "parse_arguments cmdline = parse_loop 0 cmdline [] False"

definition execute_command :: "'a kshell_scheme \<Rightarrow> 'a kshell_scheme option" where
  "execute_command k =
     (if cmd_pos (sh k) = 0 then Some k
      else do {
        b \<leftarrow> buf_set (cmd_buffer (sh k)) (cmd_pos (sh k)) NUL;
        let k = on_sh (\<lambda>s. s\<lparr>cmd_buffer := b\<rparr>) k;
        k \<leftarrow> history_add (cmd_buffer (sh k)) k;
        (b, argv) \<leftarrow> parse_arguments (cmd_buffer (sh k));
        let k = on_sh (\<lambda>s. s\<lparr>cmd_buffer := b\<rparr>) k;
        if argv = [] then Some k
        else do {
          let args = map (\<lambda>p. drop p (cmd_buffer (sh k))) argv;
          found \<leftarrow> find_command (args ! 0) commands;
          let k = (case found of
                     Some func \<Rightarrow> func args k
                   | None \<Rightarrow>
                       let k = printk (''Unknown command: '' @ [CHR 0x27] @ ''%s'' @ [CHR 0x27] @ NL)
                                 [ArgS (Some (args ! 0))] k
                       in printk (''Type '' @ [CHR 0x27] @ ''help'' @ [CHR 0x27] @ '' for available commands'' @ NL) [] k);
          Some (printk PROMPT [] k)
        }
      })"


subsection \<open>Keys\<close>

text \<open>\<open>buf[i] = buf[j]\<close>.\<close>

definition buf_move :: "nat \<Rightarrow> nat \<Rightarrow> string \<Rightarrow> string option" where
  "buf_move i j buf = do { x \<leftarrow> arr_get buf j; arr_set buf i x }"

text \<open>The keys from \<open>KEY_UP\<close> to \<open>KEY_DEL\<close>.\<close>

definition shell_key :: "char \<Rightarrow> 'a kshell_scheme \<Rightarrow> 'a kshell_scheme option" where
  "shell_key c k =
     (if c = KEY_LEFT then
        Some (if 0 < cursor_pos (sh k)
              then on_con move_cursor_left (on_sh (\<lambda>s. s\<lparr>cursor_pos := cursor_pos s - 1\<rparr>) k) else k)
      else if c = KEY_RIGHT then
        Some (if cursor_pos (sh k) < cmd_pos (sh k)
              then on_con move_cursor_right (on_sh (\<lambda>s. s\<lparr>cursor_pos := cursor_pos s + 1\<rparr>) k) else k)
      else if c = KEY_UP then (if 0 < sh_history_count (sh k) then history_show 1 k else Some k)
      else if c = KEY_DOWN then (if 0 < sh_history_count (sh k) then history_show (-1) k else Some k)
      else if c = KEY_HOME then Some (move_cursor_to 0 k)
      else if c = KEY_END then Some (move_cursor_to (cmd_pos (sh k)) k)
      else if cursor_pos (sh k) < cmd_pos (sh k) then do {
        b \<leftarrow> ofold (\<lambda>i. buf_move i (i + 1)) [nat (cursor_pos (sh k))..<nat (cmd_pos (sh k) - 1)] (cmd_buffer (sh k));
        let k = on_sh (\<lambda>s. s\<lparr>cmd_buffer := b, cmd_pos := cmd_pos s - 1\<rparr>) k;
        b \<leftarrow> buf_set (cmd_buffer (sh k)) (cmd_pos (sh k)) NUL;
        Some (redraw_from_cursor (on_sh (\<lambda>s. s\<lparr>cmd_buffer := b\<rparr>) k))
      }
      else Some k)"

definition shell_enter :: "'a kshell_scheme \<Rightarrow> 'a kshell_scheme option" where
  "shell_enter k =
     (if 0 < cmd_pos (sh k) then do {
        b \<leftarrow> buf_set (cmd_buffer (sh k)) (cmd_pos (sh k)) NUL;
        let k = on_sh (\<lambda>s. s\<lparr>cmd_buffer := b\<rparr>) k;
        let k = printk NL [] k;
        k \<leftarrow> execute_command k;
        Some (on_sh (\<lambda>s. s\<lparr>cmd_pos := 0, cursor_pos := 0\<rparr>) k)
      }
      else Some (printk PROMPT [] (printk NL [] k)))"

definition shell_backspace :: "'a kshell_scheme \<Rightarrow> 'a kshell_scheme option" where
  "shell_backspace k =
     (if 0 < cursor_pos (sh k) then do {
        let k = on_sh (\<lambda>s. s\<lparr>cursor_pos := cursor_pos s - 1, cmd_pos := cmd_pos s - 1\<rparr>) k;
        b \<leftarrow> ofold (\<lambda>i. buf_move i (i + 1)) [nat (cursor_pos (sh k))..<nat (cmd_pos (sh k))] (cmd_buffer (sh k));
        b \<leftarrow> buf_set b (cmd_pos (sh k)) NUL;
        let k = on_sh (\<lambda>s. s\<lparr>cmd_buffer := b\<rparr>) k;
        Some (redraw_from_cursor (on_con move_cursor_left k))
      }
      else Some k)"

definition shell_insert :: "char \<Rightarrow> 'a kshell_scheme \<Rightarrow> 'a kshell_scheme option" where
  "shell_insert c k =
     (if cmd_pos (sh k) < int MAX_CMD_LEN - 1 \<and> (32::nat) \<le> of_char c \<and> (of_char c :: nat) \<le> 126 then do {
        b \<leftarrow> (if cursor_pos (sh k) < cmd_pos (sh k)
               then ofold (\<lambda>i. buf_move i (i - 1)) (rev [nat (cursor_pos (sh k)) + 1..<nat (cmd_pos (sh k)) + 1])
                      (cmd_buffer (sh k))
               else Some (cmd_buffer (sh k)));
        b \<leftarrow> buf_set b (cursor_pos (sh k)) c;
        let k = on_sh (\<lambda>s. s\<lparr>cmd_pos := cmd_pos s + 1\<rparr>) k;
        b \<leftarrow> buf_set b (cmd_pos (sh k)) NUL;
        let k = on_sh (\<lambda>s. s\<lparr>cmd_buffer := b, cursor_pos := cursor_pos s + 1\<rparr>) k;
        let k = on_con (print_char c) k;
        Some (if cursor_pos (sh k) < cmd_pos (sh k) then redraw_from_cursor k else k)
      }
      else Some k)"

definition shell_process_input :: "char \<Rightarrow> 'a kshell_scheme \<Rightarrow> 'a kshell_scheme option" where
  "shell_process_input c k =
     (if \<not> shell_active (sh k) then Some k
      else if (1::nat) \<le> of_char c \<and> (of_char c :: nat) \<le> 7 then shell_key c k
      else if c = KEY_ENTER then shell_enter k
      else if c = KEY_BACKSPACE then shell_backspace k
      else shell_insert c k)"

definition shell_init :: "'a kshell_scheme \<Rightarrow> 'a kshell_scheme option" where
  "shell_init k = do {
     let k = on_con clear_screen k;
     let k = printk (''=== LightNightOS Shell (with cursor movement) ==='' @ NL) [] k;
     let k = printk (''Type '' @ [CHR 0x27] @ ''help'' @ [CHR 0x27] @ '' for available commands'' @ NL) [] k;
     let k = printk (''================================================='' @ NL @ NL) [] k;
     let k = on_sh (\<lambda>s. s\<lparr>shell_active := True, cmd_pos := 0, cursor_pos := 0\<rparr>) k;
     b \<leftarrow> buf_set (cmd_buffer (sh k)) 0 NUL;
     s \<leftarrow> buf_set (saved_cmd (sh k)) 0 NUL;
     let k = on_sh (\<lambda>t. t\<lparr>cmd_buffer := b, saved_cmd := s, saved_cmd_pos := 0, sh_history_count := 0,
                 sh_history_current := -1, sh_history_saved_current := -1\<rparr>) k;
     let k = printk PROMPT [] k;
     Some (on_con (\<lambda>s. update_cursor (get_cursor_row s) (get_cursor_col s) s) k)
   }"

definition shell_stop :: "'a kshell_scheme \<Rightarrow> 'a kshell_scheme" where
  "shell_stop k = on_sh (\<lambda>s. s\<lparr>shell_active := False\<rparr>) k"

definition shell_is_active :: "'a kshell_scheme \<Rightarrow> bool" where
  "shell_is_active k = shell_active (sh k)"

subsection \<open>Character arrays\<close>

lemma cstr_eqI:
  assumes "length s < length buf" and "\<And>i. i < length s \<Longrightarrow> buf ! i = s ! i" and "NUL \<notin> set s"
    and "buf ! length s = NUL"
  shows "cstr buf = s \<and> NUL \<in> set buf"
proof -
  have "take (length s) buf = s" using assms(1,2) by (intro nth_equalityI) simp_all
  then have "buf = s @ NUL # drop (Suc (length s)) buf"
    using assms(1,4) by (metis append_take_drop_id Cons_nth_drop_Suc)
  then show ?thesis using cstr_append_NUL [OF assms(3), of "drop (Suc (length s)) buf"]
    by (metis in_set_conv_decomp)
qed

lemma cstr_nth:
  assumes "NUL \<in> set buf"
  shows "i < length (cstr buf) \<Longrightarrow> buf ! i = cstr buf ! i" and "buf ! length (cstr buf) = NUL"
    and "length (cstr buf) < length buf"
proof -
  show l: "length (cstr buf) < length buf" using assms by (rule length_cstr_less)
  show "buf ! length (cstr buf) = NUL"
    using nth_length_takeWhile [of "\<lambda>c. c \<noteq> NUL" buf] l by (simp add: cstr_def)
  show "buf ! i = cstr buf ! i" if "i < length (cstr buf)"
    using that takeWhile_nth [of i "\<lambda>c. c \<noteq> NUL" buf] by (simp add: cstr_def)
qed

lemma NUL_in_drop:
  assumes "NUL \<in> set buf" and "p \<le> length (cstr buf)"
  shows "NUL \<in> set (drop p buf)"
proof -
  have "drop p buf ! (length (cstr buf) - p) = NUL" "length (cstr buf) - p < length (drop p buf)"
    using cstr_nth(2,3) [OF assms(1)] assms(2) by simp_all
  then show ?thesis by (metis nth_mem)
qed

lemma buf_get_nat [simp]: "buf_get xs (int i) = arr_get xs i"
  by (simp add: buf_get_def)

lemma buf_set_nat [simp]: "buf_set xs (int i) v = arr_set xs i v"
  by (simp add: buf_set_def)

lemma ofold_append: "ofold f (xs @ ys) s = Option.bind (ofold f xs s) (ofold f ys)"
  by (induction xs arbitrary: s) (auto split: option.split)

lemma shift_left:
  assumes "b < length buf" and "a \<le> b"
  shows "\<exists>b'. ofold (\<lambda>i. buf_move i (i + 1)) [a..<b] buf = Some b' \<and> length b' = length buf
    \<and> (\<forall>j<length buf. b' ! j = (if a \<le> j \<and> j < b then buf ! (j + 1) else buf ! j))"
  using assms
proof (induction b)
  case (Suc b)
  show ?case
  proof (cases "a = Suc b")
    case False
    then obtain b' where "ofold (\<lambda>i. buf_move i (i + 1)) [a..<b] buf = Some b'" "length b' = length buf"
        "\<forall>j<length buf. b' ! j = (if a \<le> j \<and> j < b then buf ! (j + 1) else buf ! j)"
      using Suc by force
    moreover have "[a..<Suc b] = [a..<b] @ [b]" using False Suc.prems by simp
    moreover from calculation have "buf_move b (b + 1) b' = Some (b'[b := buf ! (b + 1)])"
      using Suc.prems by (simp add: buf_move_def)
    ultimately show ?thesis
      using Suc.prems False
      by (intro exI [of _ "b'[b := buf ! (b + 1)]"]) (auto simp: ofold_append nth_list_update less_Suc_eq)
  qed auto
qed auto

lemma shift_right:
  assumes "b < length buf" and "a \<le> b"
  shows "\<exists>b'. ofold (\<lambda>i. buf_move i (i - 1)) (rev [a + 1..<b + 1]) buf = Some b' \<and> length b' = length buf
    \<and> (\<forall>j<length buf. b' ! j = (if a < j \<and> j \<le> b then buf ! (j - 1) else buf ! j))"
  using assms
proof (induction b arbitrary: buf)
  case (Suc b)
  show ?case
  proof (cases "a = Suc b")
    case False
    let ?buf = "buf[Suc b := buf ! b]"
    have m: "buf_move (Suc b) (Suc b - 1) buf = Some ?buf" using Suc.prems by (simp add: buf_move_def)
    obtain b' where b': "ofold (\<lambda>i. buf_move i (i - 1)) (rev [a + 1..<b + 1]) ?buf = Some b'" "length b' = length buf"
        "\<forall>j<length buf. b' ! j = (if a < j \<and> j \<le> b then ?buf ! (j - 1) else ?buf ! j)"
      using Suc.IH [of ?buf] Suc.prems False by auto
    have "rev [a + 1..<Suc b + 1] = Suc b # rev [a + 1..<b + 1]" using False Suc.prems by simp
    then have "ofold (\<lambda>i. buf_move i (i - 1)) (rev [a + 1..<Suc b + 1]) buf = Some b'"
      using m b'(1) by simp
    moreover have "\<forall>j<length buf. b' ! j = (if a < j \<and> j \<le> Suc b then buf ! (j - 1) else buf ! j)"
    proof (intro allI impI)
      fix j assume "j < length buf"
      then show "b' ! j = (if a < j \<and> j \<le> Suc b then buf ! (j - 1) else buf ! j)"
        using b'(3) Suc.prems False by (cases "j = Suc b") (auto simp: nth_list_update)
    qed
    ultimately show ?thesis using b'(2) by blast
  qed auto
qed auto

text \<open>The three edits of the line, on arrays that hold it.\<close>

lemma delete_edit:
  assumes "NUL \<in> set buf" and t: "cstr buf = t" and c: "c < length t"
  shows "\<exists>b b'. ofold (\<lambda>i. buf_move i (i + 1)) [c..<length t - 1] buf = Some b
    \<and> arr_set b (length t - 1) NUL = Some b' \<and> length b' = length buf
    \<and> cstr b' = take c t @ drop (c + 1) t \<and> NUL \<in> set b'"
proof -
  note n = cstr_nth [OF assms(1), unfolded t]
  obtain b where b: "ofold (\<lambda>i. buf_move i (i + 1)) [c..<length t - 1] buf = Some b" "length b = length buf"
      "\<forall>j<length buf. b ! j = (if c \<le> j \<and> j < length t - 1 then buf ! (j + 1) else buf ! j)"
  proof -
    have "length t - 1 < length buf" "c \<le> length t - 1" using n(3) c by simp_all
    from shift_left [OF this] show ?thesis using that by blast
  qed
  let ?b = "b[length t - 1 := NUL]" and ?s = "take c t @ drop (c + 1) t"
  have "NUL \<notin> set ?s" using NUL_notin_cstr [of buf] t by (auto dest: in_set_takeD in_set_dropD)
  then have "cstr ?b = ?s \<and> NUL \<in> set ?b"
    using c n b(2,3) by (intro cstr_eqI) (auto simp: nth_append nth_list_update)
  then show ?thesis using b c n(3) by (intro exI [of _ b] exI [of _ ?b]) simp
qed

lemma insert_edit:
  assumes "NUL \<in> set buf \<or> t = []" and t: "t \<noteq> [] \<longrightarrow> cstr buf = t" and c: "c \<le> length t" and x: "x \<noteq> NUL"
    and len: "length t + 1 < length buf"
  shows "\<exists>b b'. (if c < length t then ofold (\<lambda>i. buf_move i (i - 1)) (rev [c + 1..<length t + 1]) buf else Some buf) = Some b
    \<and> arr_set b c x = Some (b[c := x]) \<and> arr_set (b[c := x]) (length t + 1) NUL = Some b' \<and> length b' = length buf
    \<and> cstr b' = take c t @ x # drop c t \<and> NUL \<in> set b'"
proof -
  have n: "buf ! i = t ! i" if "i < length t" for i
    using assms(1) t cstr_nth(1) [of buf i] that by (cases "t = []") auto
  obtain b where b: "(if c < length t then ofold (\<lambda>i. buf_move i (i - 1)) (rev [c + 1..<length t + 1]) buf else Some buf) = Some b"
      "length b = length buf" "\<forall>j<length buf. b ! j = (if c < j \<and> j \<le> length t then buf ! (j - 1) else buf ! j)"
  proof (cases "c < length t")
    case True
    have "length t < length buf" using len by simp
    from shift_right [OF this c] True show ?thesis using that by auto
  next
    case False
    have "\<forall>j<length buf. buf ! j = (if c < j \<and> j \<le> length t then buf ! (j - 1) else buf ! j)"
      using False by auto
    then show ?thesis using that [of buf] False by simp
  qed
  let ?b = "b[c := x, length t + 1 := NUL]" and ?s = "take c t @ x # drop c t"
  have nt: "NUL \<notin> set t" using t NUL_notin_cstr [of buf] by (cases "t = []") auto
  then have "NUL \<notin> set ?s" using x by (auto dest: in_set_takeD in_set_dropD)
  moreover have "?b ! i = ?s ! i" if "i < length ?s" for i
    using that c len b(2,3) n by (auto simp: nth_append nth_list_update nth_Cons')
  ultimately have "cstr ?b = ?s \<and> NUL \<in> set ?b"
    using c len b(2) by (intro cstr_eqI) auto
  then show ?thesis using b(1,2) c len by (intro exI [of _ b] exI [of _ ?b]) simp
qed

subsection \<open>Splitting the line\<close>

definition blank_char :: "char \<Rightarrow> bool" where
  "blank_char c \<longleftrightarrow> c = CHR '' '' \<or> c = CHR 0x09"

abbreviation word_of_line :: "string \<Rightarrow> string" where
  "word_of_line \<equiv> takeWhile (\<lambda>c. \<not> blank_char c)"

abbreviation after_word :: "string \<Rightarrow> string" where
  "after_word \<equiv> dropWhile (\<lambda>c. \<not> blank_char c)"

text \<open>The first \<open>n\<close> words of a line, where the \<open>n\<close>-th is everything that is left.\<close>

fun args_of :: "nat \<Rightarrow> string \<Rightarrow> string list" where
  "args_of 0 s = []"
| "args_of (Suc n) s =
     (case dropWhile blank_char s of
        [] \<Rightarrow> []
      | c # s' \<Rightarrow> if n = 0 then [c # s'] else word_of_line (c # s') # args_of n (after_word (c # s')))"

text \<open>What is left of the line before the first NUL that the splitting writes.\<close>

definition lead :: "nat \<Rightarrow> string \<Rightarrow> string" where
  "lead n s = (if n \<le> 1 then s else takeWhile blank_char s @ word_of_line (dropWhile blank_char s))"

lemma args_of_blank: "blank_char c \<Longrightarrow> args_of n (c # s) = args_of n s"
  by (cases n) auto

lemma args_of_word:
  "\<not> blank_char c \<Longrightarrow> 0 < n \<Longrightarrow>
     args_of n (c # s) = (if n = 1 then [c # s] else (c # word_of_line s) # args_of (n - 1) (after_word s))"
  by (cases n) auto

lemma lead_blank: "blank_char c \<Longrightarrow> lead n (c # s) = c # lead n s"
  by (simp add: lead_def)

lemma lead_word: "\<not> blank_char c \<Longrightarrow> lead n (c # s) = c # (if n \<le> 1 then s else word_of_line s)"
  by (simp add: lead_def)

lemma drop_array: "p < length buf \<Longrightarrow> drop p buf = buf ! p # drop (p + 1) buf"
  by (simp add: Cons_nth_drop_Suc)

lemma parse_loop_spec:
  assumes "NUL \<in> set (drop p buf)" and "length argv \<le> 15" and "s = cstr (drop p buf)"
  shows "\<exists>buf' new. parse_loop p buf argv in_arg = Some (buf', argv @ new)
    \<and> length buf' = length buf \<and> buf' ! (p + length s) = NUL \<and> p + length s < length buf \<and> (\<forall>j<p. buf' ! j = buf ! j)
    \<and> (\<forall>q\<in>set new. p \<le> q \<and> q < p + length s)
    \<and> map (\<lambda>q. cstr (drop q buf')) new = args_of (15 - length argv) (if in_arg then after_word s else s)
    \<and> cstr (drop p buf') = (if length argv = 15 then s else if in_arg then word_of_line s else lead (15 - length argv) s)"
  using assms
proof (induction s arbitrary: p buf argv in_arg)
  case Nil
  have p: "p < length buf" using Nil.prems(1) by (cases "p < length buf") auto
  moreover have "buf ! p = NUL" using Nil.prems(3) drop_array [OF p] by (cases "buf ! p = NUL") auto
  ultimately have p: "p < length buf" "buf ! p = NUL" by blast+
  have "args_of n [] = []" "lead n [] = []" for n by (cases n) (simp_all add: lead_def)
  then show ?case using p Nil
    by (intro exI [of _ buf] exI [of _ "[]"]) (auto simp: parse_loop.simps)
next
  case (Cons c s)
  have p: "p < length buf" using Cons.prems(1) by (cases "p < length buf") auto
  then have c: "buf ! p = c" "c \<noteq> NUL" "cstr (drop (p + 1) buf) = s" and N: "NUL \<in> set (drop (p + 1) buf)"
    using Cons.prems(1,3) drop_array [OF p] by (cases "buf ! p = NUL"; auto)+
  have keep: "drop p buf' = buf' ! p # drop (p + 1) buf'" if "length buf' = length buf" for buf' :: string
    using drop_array [of p buf'] p that by simp
  show ?case
  proof (cases "length argv = 15")
    case True
    then have "parse_loop p buf argv in_arg = Some (buf, argv)" using p by (simp add: parse_loop.simps)
    moreover have "buf ! (p + length (c # s)) = NUL" "p + length (c # s) < length buf"
      using cstr_nth(2,3) [OF Cons.prems(1)] p unfolding Cons.prems(3) by simp_all
    ultimately show ?thesis using Cons.prems(3) True by (intro exI [of _ buf] exI [of _ "[]"]) simp
  next
    case False
    then have n: "0 < 15 - length argv" using Cons.prems(2) by simp
    show ?thesis
    proof (cases "blank_char c")
      case True
      let ?buf = "if in_arg then buf[p := NUL] else buf"
      have step: "parse_loop p buf argv in_arg = parse_loop (p + 1) ?buf argv False"
        using p c True False Cons.prems(2) by (subst parse_loop.simps) (auto simp: blank_char_def)
      have IH: "NUL \<in> set (drop (p + 1) ?buf)" "s = cstr (drop (p + 1) ?buf)" "length ?buf = length buf"
        using N c(3) by simp_all
      obtain buf' new where b: "parse_loop (p + 1) ?buf argv False = Some (buf', argv @ new)"
          "length buf' = length buf" "buf' ! (p + 1 + length s) = NUL" "p + 1 + length s < length buf" "\<forall>j<p + 1. buf' ! j = ?buf ! j"
          "\<forall>q\<in>set new. p + 1 \<le> q \<and> q < p + 1 + length s"
          "map (\<lambda>q. cstr (drop q buf')) new = args_of (15 - length argv) s"
          "cstr (drop (p + 1) buf') = lead (15 - length argv) s"
        using Cons.IH [OF IH(1) Cons.prems(2) IH(2), of False] unfolding IH(3) by (simp only: if_False False) blast
      have "buf' ! p = (if in_arg then NUL else c)" using b(5) c(1) p by auto
      then have "cstr (drop p buf') = (if in_arg then word_of_line (c # s) else lead (15 - length argv) (c # s))"
        using keep [OF b(2)] b(8) c(2) True by (simp add: lead_blank)
      moreover have "\<forall>j<p. buf' ! j = buf ! j" using b(5) by (auto split: if_splits)
      ultimately show ?thesis
        using b step True False keep [OF b(2)]
        by (intro exI [of _ buf'] exI [of _ new]) (auto simp: args_of_blank)
    next
      case nb: False
      let ?argv = "if in_arg then argv else argv @ [p]"
      have step: "parse_loop p buf argv in_arg = parse_loop (p + 1) buf ?argv True"
        using p c nb False Cons.prems(2) by (subst parse_loop.simps) (auto simp: blank_char_def)
      have len: "length ?argv \<le> 15" using n by auto
      obtain buf' new where b: "parse_loop (p + 1) buf ?argv True = Some (buf', ?argv @ new)"
          "length buf' = length buf" "buf' ! (p + 1 + length s) = NUL" "p + 1 + length s < length buf" "\<forall>j<p + 1. buf' ! j = buf ! j"
          "\<forall>q\<in>set new. p + 1 \<le> q \<and> q < p + 1 + length s"
          "map (\<lambda>q. cstr (drop q buf')) new = args_of (15 - length ?argv) (after_word s)"
          "cstr (drop (p + 1) buf') = (if length ?argv = 15 then s else word_of_line s)"
        using Cons.IH [OF N len c(3) [symmetric], of True] by (simp only: if_True) blast
      have d: "cstr (drop p buf') = c # cstr (drop (p + 1) buf')"
        using keep [OF b(2)] b(5) c(1,2) by simp
      show ?thesis
      proof (cases in_arg)
        case True
        then show ?thesis using b step nb False d keep [OF b(2)]
          by (intro exI [of _ buf'] exI [of _ new]) auto
      next
        case na: False
        then show ?thesis using b step nb False d keep [OF b(2)] n
          by (intro exI [of _ buf'] exI [of _ "p # new"]) (auto simp: args_of_word lead_word)
      qed
    qed
  qed
qed

lemma parse_arguments_spec:
  assumes "NUL \<in> set buf"
  shows "\<exists>buf' argv. parse_arguments buf = Some (buf', argv) \<and> length buf' = length buf \<and> NUL \<in> set buf'
    \<and> (\<forall>q\<in>set argv. NUL \<in> set (drop q buf')) \<and> map (\<lambda>q. cstr (drop q buf')) argv = args_of 15 (cstr buf)
    \<and> cstr buf' = lead 15 (cstr buf)"
proof -
  have N: "NUL \<in> set (drop 0 buf)" using assms by simp
  obtain buf' argv where b: "parse_loop 0 buf [] False = Some (buf', argv)" "length buf' = length buf"
      "buf' ! length (cstr buf) = NUL" "length (cstr buf) < length buf" "\<forall>q\<in>set argv. q < length (cstr buf)"
      "map (\<lambda>q. cstr (drop q buf')) argv = args_of 15 (cstr buf)" "cstr buf' = lead 15 (cstr buf)"
    using parse_loop_spec [OF N, of "[]" _ False] by auto
  have "NUL \<in> set (drop q buf')" if "q \<in> set argv" for q
  proof -
    have "q < length (cstr buf)" using b(5) that by blast
    then have "drop q buf' ! (length (cstr buf) - q) = NUL" "length (cstr buf) - q < length (drop q buf')"
      using b(2-4) by simp_all
    then show ?thesis by (metis nth_mem)
  qed
  moreover have "NUL \<in> set buf'" using b(2-4) by (metis nth_mem)
  ultimately show ?thesis using b unfolding parse_arguments_def by blast
qed

end
