(* ===== verification/Editor.thy ===== *)
theory Editor
  imports Shell
begin

text \<open>
  The shell of \<open>kernel/shell.c\<close> as an abstract line editor with a bounded log of commands: every key
  refines an operation of the editor, what Enter runs and what Up and Down recall.
\<close>

subsection \<open>The log of commands\<close>

text \<open>The abstract history: a log of at most 50 commands that refuses an immediate repetition.\<close>

definition repeats :: "string \<Rightarrow> string list \<Rightarrow> bool" where
  "repeats t h \<longleftrightarrow> h \<noteq> [] \<and> last h = t"

definition log_add :: "string \<Rightarrow> string list \<Rightarrow> string list" where
  "log_add t h = (if repeats t h then h else last_n 50 (h @ [t]))"

interpretation cmd_log: bounded_log 50 "\<lambda>h. length h \<le> 50" "\<lambda>h. h" repeats "\<lambda>t h. t" log_add
  by unfold_locales (auto simp: log_add_def)

definition hist_rel :: "shell \<Rightarrow> string list \<Rightarrow> bool" where
  "hist_rel s h \<longleftrightarrow> length (cmd_history s) = 50 \<and> (\<forall>i<50. length (cmd_history s ! i) = 128)
    \<and> sh_history_count s = int (length h) \<and> length h \<le> 50
    \<and> (\<forall>i<length h. NUL \<in> set (cmd_history s ! i) \<and> cstr (cmd_history s ! i) = h ! i \<and> h ! i \<noteq> [])"

lemma str_copy_row:
  assumes "NUL \<in> set src" and "length (cstr src) < length d"
  shows "\<exists>d'. str_copy d src = Some d' \<and> length d' = length d \<and> NUL \<in> set d' \<and> cstr d' = cstr src"
  using assms str_copy_eq [OF assms] cstr_append_NUL [OF NUL_notin_cstr]
  by (intro exI [of _ "cstr src @ NUL # drop (Suc (length (cstr src))) d"]) simp

lemma shift_rows:
  assumes "n < length h" and "\<forall>i<length h. length (h ! i) = 128" and "\<forall>i\<le>n. NUL \<in> set (h ! i)"
  shows "\<exists>h'. ofold (\<lambda>i h. do { d \<leftarrow> arr_get h i; s \<leftarrow> arr_get h (i + 1); d \<leftarrow> str_copy d s; arr_set h i d }) [0..<n] h = Some h'
    \<and> length h' = length h \<and> (\<forall>i<length h. length (h' ! i) = 128)
    \<and> (\<forall>i<n. NUL \<in> set (h' ! i) \<and> cstr (h' ! i) = cstr (h ! (i + 1))) \<and> (\<forall>i\<ge>n. h' ! i = h ! i)"
  using assms
proof (induction n)
  case (Suc n)
  obtain h' where h': "ofold (\<lambda>i h. do { d \<leftarrow> arr_get h i; s \<leftarrow> arr_get h (i + 1); d \<leftarrow> str_copy d s; arr_set h i d }) [0..<n] h = Some h'"
      "length h' = length h" "\<forall>i<length h. length (h' ! i) = 128"
      "\<forall>i<n. NUL \<in> set (h' ! i) \<and> cstr (h' ! i) = cstr (h ! (i + 1))" "\<forall>i\<ge>n. h' ! i = h ! i"
    using Suc by force
  have src: "NUL \<in> set (h' ! (n + 1))" "h' ! (n + 1) = h ! (n + 1)" "length (h' ! n) = 128" "length (h' ! (n + 1)) = 128"
    using h' Suc.prems by auto
  have "length (cstr (h' ! (n + 1))) < length (h' ! n)" using length_cstr_less [OF src(1)] src(3,4) by simp
  from str_copy_row [OF src(1) this] obtain d where
    d: "str_copy (h' ! n) (h' ! (n + 1)) = Some d" "length d = 128" "NUL \<in> set d" "cstr d = cstr (h ! (n + 1))"
    using src(2,3) by auto
  have "ofold (\<lambda>i h. do { d \<leftarrow> arr_get h i; s \<leftarrow> arr_get h (i + 1); d \<leftarrow> str_copy d s; arr_set h i d }) [0..<Suc n] h = Some (h'[n := d])"
    using h'(1,2) d(1) Suc.prems(1) by (simp add: ofold_append)
  moreover have "\<forall>i<Suc n. NUL \<in> set (h'[n := d] ! i) \<and> cstr (h'[n := d] ! i) = cstr (h ! (i + 1))"
    using h'(2,4) d Suc.prems(1) by (auto simp: nth_list_update less_Suc_eq)
  moreover have "\<forall>i<length h. length (h'[n := d] ! i) = 128" "\<forall>i\<ge>Suc n. h'[n := d] ! i = h ! i"
    using h'(2,3,5) d(2) Suc.prems(1) by (auto simp: nth_list_update)
  ultimately show ?case using h'(2) by (intro exI [of _ "h'[n := d]"]) simp
qed auto

lemma on_sh_frame [simp, frame_simps]:
  "sh (on_sh f k) = f (sh k)" "con (on_sh f k) = con k" "sh (on_con g k) = sh k" "con (on_con g k) = g (con k)"
  "sh (printk s as k) = sh k" for k :: "'a kshell_scheme"
  by (simp_all add: on_sh_def on_con_def printk_def split: option.split)

lemma history_write:
  fixes k :: "'a kshell_scheme"
  assumes h: "length (cmd_history (sh k)) = 50" "\<forall>i<50. length (cmd_history (sh k) ! i) = 128"
    "sh_history_count (sh k) = int (length h)" "length h < 50"
    "\<forall>i<length h. NUL \<in> set (cmd_history (sh k) ! i) \<and> cstr (cmd_history (sh k) ! i) = h ! i \<and> h ! i \<noteq> []"
    and cmd: "NUL \<in> set cmd" "length (cstr cmd) < 128" "cstr cmd \<noteq> []"
  shows "\<exists>H. do { d \<leftarrow> buf_get (cmd_history (sh k)) (sh_history_count (sh k));
         d \<leftarrow> str_copy d cmd;
         h \<leftarrow> buf_set (cmd_history (sh k)) (sh_history_count (sh k)) d;
         Some (on_sh (\<lambda>s. s\<lparr>cmd_history := h, sh_history_count := sh_history_count s + 1\<rparr>) k) }
       = Some (on_sh (\<lambda>s. s\<lparr>cmd_history := H, sh_history_count := int (length h) + 1\<rparr>) k)
     \<and> hist_rel ((sh k)\<lparr>cmd_history := H, sh_history_count := int (length h) + 1\<rparr>) (h @ [cstr cmd])"
proof -
  obtain d where d: "str_copy (cmd_history (sh k) ! length h) cmd = Some d" "length d = 128" "NUL \<in> set d"
      "cstr d = cstr cmd"
    using str_copy_row [OF cmd(1), of "cmd_history (sh k) ! length h"] h cmd(2) by auto
  have "hist_rel ((sh k)\<lparr>cmd_history := (cmd_history (sh k))[length h := d], sh_history_count := int (length h) + 1\<rparr>)
          (h @ [cstr cmd])"
    using h d cmd(3) by (auto simp: hist_rel_def nth_append nth_list_update less_Suc_eq)
  then show ?thesis
    using h d by (intro exI [of _ "(cmd_history (sh k))[length h := d]"]) (simp add: on_sh_def)
qed

lemma history_add_spec:
  fixes k :: "'a kshell_scheme"
  assumes h: "hist_rel (sh k) h" and cmd: "NUL \<in> set cmd" "length (cstr cmd) < 128" "cstr cmd \<noteq> []"
  shows "\<exists>H n. history_add cmd k = Some (on_sh (\<lambda>s. s\<lparr>cmd_history := H, sh_history_count := n\<rparr>) k)
    \<and> hist_rel ((sh k)\<lparr>cmd_history := H, sh_history_count := n\<rparr>) (log_add (cstr cmd) h)"
proof -
  let ?H = "cmd_history (sh k)"
  have H: "length ?H = 50" "\<forall>i<50. length (?H ! i) = 128" "sh_history_count (sh k) = int (length h)" "length h \<le> 50"
      "\<forall>i<length h. NUL \<in> set (?H ! i) \<and> cstr (?H ! i) = h ! i \<and> h ! i \<noteq> []"
    using h by (simp_all add: hist_rel_def)
  have c0: "buf_get cmd 0 = Some (cmd ! 0)" "cmd ! 0 \<noteq> NUL"
    using cmd by (cases cmd; auto simp: buf_get_def)+
  have same: "(if 0 < sh_history_count (sh k)
                 then do { l \<leftarrow> buf_get ?H (sh_history_count (sh k) - 1); r \<leftarrow> strcmp l cmd; Some (r = 0) }
                 else Some False) = Some (repeats (cstr cmd) h)"
  proof (cases "h = []")
    case False
    then have i: "length h - 1 < length h" "int (length h) - 1 = int (length h - 1)" by (simp_all add: Suc_leI)
    obtain r where r: "strcmp (?H ! (length h - 1)) cmd = Some r" "r = 0 \<longleftrightarrow> last h = cstr cmd"
      using strcmp_eq_0 [of "?H ! (length h - 1)" cmd] H(5) i(1) cmd(1) False by (auto simp: last_conv_nth)
    have "buf_get ?H (sh_history_count (sh k) - 1) = Some (?H ! (length h - 1))"
      unfolding H(3) i(2) buf_get_nat using H(1,4) i(1) by simp
    then show ?thesis using r False H(3) by (simp add: repeats_def)
  qed (simp add: H(3) repeats_def)
  show ?thesis
  proof (cases "repeats (cstr cmd) h")
    case True
    then have "history_add cmd k = Some k" unfolding history_add_def same using c0 by simp
    moreover have "k = on_sh (\<lambda>s. s\<lparr>cmd_history := ?H, sh_history_count := sh_history_count (sh k)\<rparr>) k"
      by (simp add: on_sh_def)
    ultimately show ?thesis using True h
      by (intro exI [of _ ?H] exI [of _ "sh_history_count (sh k)"]) (simp add: log_add_def)
  next
    case False
    show ?thesis
    proof (cases "length h = 50")
      case True
      have nul: "\<forall>i\<le>49. NUL \<in> set (?H ! i)" using H(5) True by simp
      obtain H' where H': "ofold (\<lambda>i h. do { d \<leftarrow> arr_get h i; s \<leftarrow> arr_get h (i + 1); d \<leftarrow> str_copy d s; arr_set h i d })
            [0..<49] ?H = Some H'"
          "length H' = 50" "\<forall>i<50. length (H' ! i) = 128" "\<forall>i<49. NUL \<in> set (H' ! i) \<and> cstr (H' ! i) = cstr (?H ! (i + 1))"
        using shift_rows [of 49 ?H] H(1,2) nul by (auto simp del: upt_rec_numeral)
      let ?k = "on_sh (\<lambda>s. s\<lparr>cmd_history := H', sh_history_count := 49\<rparr>) k"
      have tl: "length (tl h) = 49" "\<forall>i<49. tl h ! i = h ! (i + 1)" using True by (simp_all add: nth_tl)
      obtain H2 where H2: "do { d \<leftarrow> buf_get (cmd_history (sh ?k)) (sh_history_count (sh ?k));
             d \<leftarrow> str_copy d cmd;
             h \<leftarrow> buf_set (cmd_history (sh ?k)) (sh_history_count (sh ?k)) d;
             Some (on_sh (\<lambda>s. s\<lparr>cmd_history := h, sh_history_count := sh_history_count s + 1\<rparr>) ?k) }
           = Some (on_sh (\<lambda>s. s\<lparr>cmd_history := H2, sh_history_count := int (length (tl h)) + 1\<rparr>) ?k)"
          "hist_rel ((sh ?k)\<lparr>cmd_history := H2, sh_history_count := int (length (tl h)) + 1\<rparr>) (tl h @ [cstr cmd])"
        using history_write [of ?k "tl h" cmd] H' H(5) tl cmd True by (auto simp: nth_tl)
      have "history_add cmd k = Some (on_sh (\<lambda>s. s\<lparr>cmd_history := H2, sh_history_count := int (length (tl h)) + 1\<rparr>) ?k)"
        unfolding history_add_def same using c0 False True H(3) H'(1) H2(1) by (simp del: upt_rec_numeral)
      moreover have "tl h @ [cstr cmd] = log_add (cstr cmd) h"
        using True False by (simp add: log_add_def last_n_def drop_Suc)
      ultimately show ?thesis
        using H2(2) by (intro exI [of _ H2] exI [of _ "int (length (tl h)) + 1"]) (simp add: on_sh_def)
    next
      case False': False
      then have lt: "length h < 50" using H(4) by simp
      from history_write [OF H(1-3) lt H(5) cmd] obtain H2 where H2: "do { d \<leftarrow> buf_get ?H (sh_history_count (sh k));
             d \<leftarrow> str_copy d cmd;
             h \<leftarrow> buf_set ?H (sh_history_count (sh k)) d;
             Some (on_sh (\<lambda>s. s\<lparr>cmd_history := h, sh_history_count := sh_history_count s + 1\<rparr>) k) }
           = Some (on_sh (\<lambda>s. s\<lparr>cmd_history := H2, sh_history_count := int (length h) + 1\<rparr>) k)"
          "hist_rel ((sh k)\<lparr>cmd_history := H2, sh_history_count := int (length h) + 1\<rparr>) (h @ [cstr cmd])"
        by blast
      have "history_add cmd k = Some (on_sh (\<lambda>s. s\<lparr>cmd_history := H2, sh_history_count := int (length h) + 1\<rparr>) k)"
        unfolding history_add_def same using c0 False lt H(3) H2(1) by simp
      moreover have "h @ [cstr cmd] = log_add (cstr cmd) h"
        using lt False by (simp add: log_add_def)
      ultimately show ?thesis using H2(2) by (intro exI [of _ H2] exI) simp
    qed
  qed
qed

subsection \<open>The abstract editor\<close>

text \<open>
  What the keys mean. \<open>e_line\<close> is the string in the buffer; after Enter the line on display is
  empty although the buffer is not (\<open>e_fresh\<close>).
\<close>

record editor =
  e_line :: string
  e_fresh :: bool
  e_cur :: nat
  e_hist :: "string list"
  e_idx :: int
  e_saved :: string

definition e_text :: "editor \<Rightarrow> string" where
  "e_text e = (if e_fresh e then [] else e_line e)"

definition editor0 :: editor where
  "editor0 = \<lparr>e_line = [], e_fresh = False, e_cur = 0, e_hist = [], e_idx = -1, e_saved = []\<rparr>"

definition e_show :: "string \<Rightarrow> editor \<Rightarrow> editor" where
  "e_show s e = e\<lparr>e_line := s, e_fresh := False, e_cur := length s\<rparr>"

definition e_up :: "editor \<Rightarrow> editor" where
  "e_up e = (if e_hist e = [] then e
     else let i = min (e_idx e + 1) (int (length (e_hist e)) - 1)
          in e_show (e_hist e ! nat i)
               (e\<lparr>e_idx := i, e_saved := if e_idx e = -1 then e_line e else e_saved e\<rparr>))"

definition e_down :: "editor \<Rightarrow> editor" where
  "e_down e = (if e_hist e = [] then e
     else let i = max (-1) (e_idx e - 1)
          in e_show (if i = -1 then e_saved e else e_hist e ! nat i) (e\<lparr>e_idx := i\<rparr>))"

definition e_enter :: "editor \<Rightarrow> editor" where
  "e_enter e = (if e_text e = [] then e
     else e\<lparr>e_line := lead 15 (e_text e), e_fresh := True, e_cur := 0, e_hist := log_add (e_text e) (e_hist e)\<rparr>)"

definition editor_key :: "char \<Rightarrow> editor \<Rightarrow> editor" where
  "editor_key c e =
     (let t = e_text e; p = e_cur e in
      if c = KEY_LEFT then e\<lparr>e_cur := p - 1\<rparr>
      else if c = KEY_RIGHT then e\<lparr>e_cur := min (p + 1) (length t)\<rparr>
      else if c = KEY_UP then e_up e
      else if c = KEY_DOWN then e_down e
      else if c = KEY_HOME then e\<lparr>e_cur := 0\<rparr>
      else if c = KEY_END then e\<lparr>e_cur := length t\<rparr>
      else if c = KEY_DEL then (if p < length t then e\<lparr>e_line := take p t @ drop (p + 1) t\<rparr> else e)
      else if c = KEY_ENTER then e_enter e
      else if c = KEY_BACKSPACE then
        (if 0 < p then e\<lparr>e_line := take (p - 1) t @ drop p t, e_cur := p - 1\<rparr> else e)
      else if (32::nat) \<le> of_char c \<and> (of_char c :: nat) \<le> 126 \<and> length t < 127
        then e\<lparr>e_line := take p t @ c # drop p t, e_fresh := False, e_cur := p + 1\<rparr>
      else e)"

definition shell_rel :: "shell \<Rightarrow> editor \<Rightarrow> bool" where
  "shell_rel s e \<longleftrightarrow> shell_active s
     \<and> length (cmd_buffer s) = 128 \<and> NUL \<in> set (cmd_buffer s) \<and> cstr (cmd_buffer s) = e_line e
     \<and> cmd_pos s = int (length (e_text e)) \<and> cursor_pos s = int (e_cur e) \<and> e_cur e \<le> length (e_text e)
     \<and> length (saved_cmd s) = 128 \<and> NUL \<in> set (saved_cmd s) \<and> cstr (saved_cmd s) = e_saved e
     \<and> hist_rel s (e_hist e) \<and> sh_history_current s = e_idx e
     \<and> -1 \<le> e_idx e \<and> (e_idx e < int (length (e_hist e)))"

lemma shell_rel_text:
  assumes "shell_rel s e"
  shows "length (e_line e) < 128" "length (e_text e) < 128" "e_text e \<noteq> [] \<Longrightarrow> cstr (cmd_buffer s) = e_text e"
    "NUL \<notin> set (e_text e)"
  using assms length_cstr_less [of "cmd_buffer s"] NUL_notin_cstr [of "cmd_buffer s"]
  by (auto simp: shell_rel_def e_text_def split: if_splits)

lemma hist_rel_update [simp]:
  "hist_rel (s\<lparr>cmd_buffer := b\<rparr>) h \<longleftrightarrow> hist_rel s h" "hist_rel (s\<lparr>cmd_pos := p\<rparr>) h \<longleftrightarrow> hist_rel s h"
  "hist_rel (s\<lparr>cursor_pos := p\<rparr>) h \<longleftrightarrow> hist_rel s h" "hist_rel (s\<lparr>saved_cmd := b\<rparr>) h \<longleftrightarrow> hist_rel s h"
  "hist_rel (s\<lparr>saved_cmd_pos := p\<rparr>) h \<longleftrightarrow> hist_rel s h"
  "hist_rel (s\<lparr>sh_history_current := i\<rparr>) h \<longleftrightarrow> hist_rel s h"
  by (simp_all add: hist_rel_def)

lemma move_cursor_to_sh:
  "sh (move_cursor_to p k) = (sh k)\<lparr>cursor_pos := max 0 (min p (cmd_pos (sh k)))\<rparr>" if "0 \<le> cmd_pos (sh k)"
  using that by (simp add: move_cursor_to_def Let_def max_def min_def)

lemma redraw_sh [simp, frame_simps]: "sh (redraw_from_cursor k) = sh k"
  by (simp add: redraw_from_cursor_def Let_def)

lemma editor_key_simps [simp]:
  "editor_key KEY_LEFT e = e\<lparr>e_cur := e_cur e - 1\<rparr>"
  "editor_key KEY_RIGHT e = e\<lparr>e_cur := min (e_cur e + 1) (length (e_text e))\<rparr>"
  "editor_key KEY_UP e = e_up e"
  "editor_key KEY_DOWN e = e_down e"
  "editor_key KEY_HOME e = e\<lparr>e_cur := 0\<rparr>"
  "editor_key KEY_END e = e\<lparr>e_cur := length (e_text e)\<rparr>"
  "editor_key KEY_DEL e = (if e_cur e < length (e_text e)
     then e\<lparr>e_line := take (e_cur e) (e_text e) @ drop (e_cur e + 1) (e_text e)\<rparr> else e)"
  "editor_key KEY_ENTER e = e_enter e"
  "editor_key KEY_BACKSPACE e = (if 0 < e_cur e
     then e\<lparr>e_line := take (e_cur e - 1) (e_text e) @ drop (e_cur e) (e_text e), e_cur := e_cur e - 1\<rparr> else e)"
  by (simp_all add: editor_key_def Let_def)

lemma editor_key_char:
  assumes "(32::nat) \<le> of_char x" and "(of_char x :: nat) \<le> 126"
  shows "editor_key x e = (if length (e_text e) < 127
    then e\<lparr>e_line := take (e_cur e) (e_text e) @ x # drop (e_cur e) (e_text e), e_fresh := False, e_cur := e_cur e + 1\<rparr>
    else e)"
proof -
  have "x \<noteq> CHR 0x01" "x \<noteq> CHR 0x02" "x \<noteq> CHR 0x03" "x \<noteq> CHR 0x04" "x \<noteq> CHR 0x05"
      "x \<noteq> CHR 0x06" "x \<noteq> CHR 0x07" "x \<noteq> CHR 0x08" "x \<noteq> CHR 0x0A"
    using assms(1) by auto
  with assms show ?thesis by (simp add: editor_key_def Let_def)
qed

lemma input_keys:
  assumes "shell_active (sh k)"
  shows "shell_process_input KEY_LEFT k = shell_key KEY_LEFT k"
    "shell_process_input KEY_RIGHT k = shell_key KEY_RIGHT k"
    "shell_process_input KEY_UP k = shell_key KEY_UP k"
    "shell_process_input KEY_DOWN k = shell_key KEY_DOWN k"
    "shell_process_input KEY_HOME k = shell_key KEY_HOME k"
    "shell_process_input KEY_END k = shell_key KEY_END k"
    "shell_process_input KEY_DEL k = shell_key KEY_DEL k"
    "shell_process_input KEY_ENTER k = shell_enter k"
    "shell_process_input KEY_BACKSPACE k = shell_backspace k"
  using assms by (simp_all add: shell_process_input_def)

lemma rel_active: "shell_rel s e \<Longrightarrow> shell_active s"
  by (simp add: shell_rel_def)

lemma rel_cursor: "shell_rel s e \<Longrightarrow> p \<le> length (e_text e) \<Longrightarrow> shell_rel (s\<lparr>cursor_pos := int p\<rparr>) (e\<lparr>e_cur := p\<rparr>)"
  by (cases "e_fresh e") (simp_all add: shell_rel_def e_text_def)

lemma rel_pos: "shell_rel s e \<Longrightarrow> cursor_pos s = int (e_cur e) \<and> cmd_pos s = int (length (e_text e)) \<and> e_cur e \<le> length (e_text e)"
  by (simp add: shell_rel_def)

lemma buf_set_offset [simp]:
  "0 < n \<Longrightarrow> buf_set xs (int n - 1) v = arr_set xs (n - 1) v"
  "buf_set xs (int n + 1) v = arr_set xs (Suc n) v" "buf_set xs (1 + int n) v = arr_set xs (Suc n) v"
  "nat (int n - 1) = n - 1"
  by (simp_all add: buf_set_def nat_diff_distrib nat_add_distrib)

lemma key_left:
  assumes rel: "shell_rel (sh k) e"
  shows "\<exists>k'. shell_process_input KEY_LEFT k = Some k' \<and> shell_rel (sh k') (editor_key KEY_LEFT e)"
proof -
  note p = rel_pos [OF rel]
  show ?thesis
  proof (cases "e_cur e = 0")
    case True
    then have "editor_key KEY_LEFT e = e" by simp
    with rel p True show ?thesis by (simp add: input_keys [OF rel_active [OF rel]] shell_key_def del: editor_key_simps)
  next
    case False
    have "e_cur e - 1 \<le> length (e_text e)" using p by linarith
    from rel_cursor [OF rel this] False p show ?thesis
      by (simp add: input_keys [OF rel_active [OF rel]] shell_key_def of_nat_diff)
  qed
qed

lemma key_right:
  assumes rel: "shell_rel (sh k) e"
  shows "\<exists>k'. shell_process_input KEY_RIGHT k = Some k' \<and> shell_rel (sh k') (editor_key KEY_RIGHT e)"
proof -
  note p = rel_pos [OF rel]
  show ?thesis
  proof (cases "e_cur e = length (e_text e)")
    case True
    then have "editor_key KEY_RIGHT e = e" by simp
    with rel p True show ?thesis by (simp add: input_keys [OF rel_active [OF rel]] shell_key_def del: editor_key_simps)
  next
    case False
    with p rel_cursor [OF rel, of "e_cur e + 1"] show ?thesis
      by (simp add: input_keys [OF rel_active [OF rel]] shell_key_def add.commute)
  qed
qed

lemma key_home_end:
  assumes rel: "shell_rel (sh k) e"
  shows "\<exists>k'. shell_process_input KEY_HOME k = Some k' \<and> shell_rel (sh k') (editor_key KEY_HOME e)"
    "\<exists>k'. shell_process_input KEY_END k = Some k' \<and> shell_rel (sh k') (editor_key KEY_END e)"
  using rel_pos [OF rel] rel_cursor [OF rel, of 0] rel_cursor [OF rel, of "length (e_text e)"]
  by (simp_all add: input_keys [OF rel_active [OF rel]] shell_key_def move_cursor_to_sh)

lemma rel_line:
  assumes "shell_rel s e" and "length b = 128" and "NUL \<in> set b" and "cstr b = t" and "p \<le> length t"
    and "s' = s\<lparr>cmd_buffer := b, cmd_pos := int (length t), cursor_pos := int p\<rparr>"
  shows "shell_rel s' (e\<lparr>e_line := t, e_fresh := False, e_cur := p\<rparr>)"
  using assms by (simp add: shell_rel_def e_text_def)

lemma key_delete:
  assumes rel: "shell_rel (sh k) e"
  shows "\<exists>k'. shell_process_input KEY_DEL k = Some k' \<and> shell_rel (sh k') (editor_key KEY_DEL e)"
proof (cases "e_cur e < length (e_text e)")
  case False
  with rel rel_pos [OF rel] show ?thesis
    by (simp add: input_keys [OF rel_active [OF rel]] shell_key_def)
next
  case True
  let ?t = "e_text e" and ?c = "e_cur e" and ?s = "sh k"
  have r: "shell_active ?s" "length (cmd_buffer ?s) = 128" "NUL \<in> set (cmd_buffer ?s)"
      "cmd_pos ?s = int (length ?t)" "cursor_pos ?s = int ?c"
    using rel by (simp_all add: shell_rel_def)
  have ne: "?t \<noteq> []" using True by force
  have t: "cstr (cmd_buffer ?s) = ?t" "\<not> e_fresh e"
    using shell_rel_text(3) [OF rel ne] ne by (auto simp: e_text_def)
  from delete_edit [OF r(3) t(1) True] obtain b b' where
    b: "ofold (\<lambda>i. buf_move i (i + 1)) [?c..<length ?t - 1] (cmd_buffer ?s) = Some b"
      "arr_set b (length ?t - 1) NUL = Some b'" "length b' = length (cmd_buffer ?s)" "cstr b' = take ?c ?t @ drop (?c + 1) ?t" "NUL \<in> set b'"
    by blast
  have "shell_process_input KEY_DEL k = Some (redraw_from_cursor (on_sh (\<lambda>s. s\<lparr>cmd_buffer := b'\<rparr>)
      (on_sh (\<lambda>s. s\<lparr>cmd_buffer := b, cmd_pos := cmd_pos s - 1\<rparr>) k)))"
    using r True b(1,2) ne by (simp add: input_keys [OF rel_active [OF rel]] shell_key_def)
  moreover have "sh (redraw_from_cursor (on_sh (\<lambda>s. s\<lparr>cmd_buffer := b'\<rparr>)
      (on_sh (\<lambda>s. s\<lparr>cmd_buffer := b, cmd_pos := cmd_pos s - 1\<rparr>) k)))
    = ?s\<lparr>cmd_buffer := b', cmd_pos := int (length (take ?c ?t @ drop (?c + 1) ?t)), cursor_pos := int ?c\<rparr>"
    using r True by (simp add: of_nat_diff)
  moreover have "editor_key KEY_DEL e = e\<lparr>e_line := take ?c ?t @ drop (?c + 1) ?t, e_fresh := False, e_cur := ?c\<rparr>"
    using True t(2) by simp
  ultimately show ?thesis using rel_line [OF rel b(3) [unfolded r(2)] b(5,4), of ?c] True by simp
qed

lemma key_backspace:
  assumes rel: "shell_rel (sh k) e"
  shows "\<exists>k'. shell_process_input KEY_BACKSPACE k = Some k' \<and> shell_rel (sh k') (editor_key KEY_BACKSPACE e)"
proof (cases "0 < e_cur e")
  case False
  with rel rel_pos [OF rel] show ?thesis
    by (simp add: input_keys [OF rel_active [OF rel]] shell_backspace_def)
next
  case True
  let ?t = "e_text e" and ?c = "e_cur e - 1" and ?s = "sh k"
  have r: "shell_active ?s" "length (cmd_buffer ?s) = 128" "NUL \<in> set (cmd_buffer ?s)"
      "cmd_pos ?s = int (length ?t)" "cursor_pos ?s = int (e_cur e)" and c: "?c < length ?t"
    using rel True by (auto simp: shell_rel_def)
  have ne: "?t \<noteq> []" using c by force
  have t: "cstr (cmd_buffer ?s) = ?t" "\<not> e_fresh e"
    using shell_rel_text(3) [OF rel ne] ne by (auto simp: e_text_def)
  from delete_edit [OF r(3) t(1) c] obtain b b' where
    b: "ofold (\<lambda>i. buf_move i (i + 1)) [?c..<length ?t - 1] (cmd_buffer ?s) = Some b"
      "arr_set b (length ?t - 1) NUL = Some b'" "length b' = length (cmd_buffer ?s)" "cstr b' = take ?c ?t @ drop (?c + 1) ?t" "NUL \<in> set b'"
    by blast
  let ?k = "redraw_from_cursor (on_con move_cursor_left (on_sh (\<lambda>s. s\<lparr>cmd_buffer := b'\<rparr>)
      (on_sh (\<lambda>s. s\<lparr>cursor_pos := cursor_pos s - 1, cmd_pos := cmd_pos s - 1\<rparr>) k)))"
  have "shell_process_input KEY_BACKSPACE k = Some ?k"
    using r True b(1,2) ne by (simp add: input_keys [OF rel_active [OF rel]] shell_backspace_def)
  moreover have "sh ?k = ?s\<lparr>cmd_buffer := b', cmd_pos := int (length (take ?c ?t @ drop (?c + 1) ?t)), cursor_pos := int ?c\<rparr>"
    using r c True by (simp add: of_nat_diff)
  from rel_line [OF rel b(3) [unfolded r(2)] b(5,4) _ this] have
    "shell_rel (sh ?k) (e\<lparr>e_line := take ?c ?t @ drop (?c + 1) ?t, e_fresh := False, e_cur := ?c\<rparr>)"
    using c by simp
  moreover have "editor_key KEY_BACKSPACE e = e\<lparr>e_line := take ?c ?t @ drop (?c + 1) ?t, e_fresh := False, e_cur := ?c\<rparr>"
    using True t(2) by simp
  ultimately show ?thesis by (simp only:) blast
qed

lemma key_print:
  assumes rel: "shell_rel (sh k) e" and c: "(32::nat) \<le> of_char x" "(of_char x :: nat) \<le> 126"
  shows "\<exists>k'. shell_process_input x k = Some k' \<and> shell_rel (sh k') (editor_key x e)"
proof -
  have x: "x \<noteq> CHR 0x00" "x \<noteq> CHR 0x01" "x \<noteq> CHR 0x02" "x \<noteq> CHR 0x03" "x \<noteq> CHR 0x04" "x \<noteq> CHR 0x05"
      "x \<noteq> CHR 0x06" "x \<noteq> CHR 0x07" "x \<noteq> CHR 0x08" "x \<noteq> CHR 0x0A"
    using c(1) by auto
  let ?t = "e_text e" and ?c = "e_cur e" and ?s = "sh k"
  have r: "shell_active ?s" "length (cmd_buffer ?s) = 128" "NUL \<in> set (cmd_buffer ?s)"
      "cmd_pos ?s = int (length ?t)" "cursor_pos ?s = int ?c" "?c \<le> length ?t"
    using rel by (auto simp: shell_rel_def)
  have p: "shell_process_input x k = shell_insert x k"
    using r(1) c x by (simp add: shell_process_input_def)
  show ?thesis
  proof (cases "length ?t < 127")
    case False
    then show ?thesis using rel r c x unfolding p by (simp add: shell_insert_def editor_key_char [OF c])
  next
    case True
    have t: "?t \<noteq> [] \<longrightarrow> cstr (cmd_buffer ?s) = ?t" using shell_rel_text(3) [OF rel] by blast
    have len: "length ?t + 1 < length (cmd_buffer ?s)" using True r(2) by simp
    from insert_edit [OF disjI1 [OF r(3)] t r(6) x(1) len] obtain b b' where
      b: "(if ?c < length ?t then ofold (\<lambda>i. buf_move i (i - 1)) (rev [?c + 1..<length ?t + 1]) (cmd_buffer ?s)
           else Some (cmd_buffer ?s)) = Some b"
        "arr_set b ?c x = Some (b[?c := x])" "arr_set (b[?c := x]) (length ?t + 1) NUL = Some b'" "length b' = length (cmd_buffer ?s)"
        "cstr b' = take ?c ?t @ x # drop ?c ?t" "NUL \<in> set b'"
      by blast
    let ?k = "on_con (print_char x) (on_sh (\<lambda>s. s\<lparr>cmd_buffer := b', cursor_pos := cursor_pos s + 1\<rparr>)
        (on_sh (\<lambda>s. s\<lparr>cmd_pos := cmd_pos s + 1\<rparr>) k))"
    have "shell_insert x k = Some (if cursor_pos (sh ?k) < cmd_pos (sh ?k) then redraw_from_cursor ?k else ?k)"
    proof (cases "?c < length ?t")
      case lt: True
      then have "ofold (\<lambda>i. buf_move i (i - 1)) (rev [?c + 1..<length ?t + 1]) (cmd_buffer ?s) = Some b"
        using b(1) by simp
      then show ?thesis
        unfolding shell_insert_def using r True b(2,3) c lt by (simp del: upt_Suc)
    next
      case ge: False
      then have "b = cmd_buffer ?s" using b(1) by simp
      then show ?thesis
        unfolding shell_insert_def using r True b(2,3) c ge by simp
    qed
    moreover have "sh ?k = ?s\<lparr>cmd_buffer := b', cmd_pos := int (length (take ?c ?t @ x # drop ?c ?t)),
        cursor_pos := int (?c + 1)\<rparr>"
      using r by simp
    from rel_line [OF rel b(4) [unfolded r(2)] b(6,5) _ this] have "shell_rel (sh ?k) (editor_key x e)"
      using r(6) True by (simp add: editor_key_char [OF c])
    ultimately show ?thesis unfolding p by (auto split: if_splits)
  qed
qed

lemma display_spec:
  fixes k :: "'a kshell_scheme"
  assumes "NUL \<in> set s" and "length s = 128" and "length (cmd_buffer (sh k)) = 128"
  shows "\<exists>k' b. history_display s k = Some k' \<and> length b = 128 \<and> NUL \<in> set b \<and> cstr b = cstr s
    \<and> sh k' = (sh k)\<lparr>cmd_buffer := b, cmd_pos := int (length (cstr s)), cursor_pos := int (length (cstr s))\<rparr>"
proof -
  have "length (cstr s) < length (cmd_buffer (sh k))" using length_cstr_less [OF assms(1)] assms(2,3) by simp
  from str_copy_row [OF assms(1) this] obtain b where
    b: "str_copy (cmd_buffer (sh k)) s = Some b" "length b = 128" "NUL \<in> set b" "cstr b = cstr s"
    using assms(3) by auto
  have l: "strlen s = Some (length (cstr s))" using assms(1) by (simp add: strlen_eq)
  show ?thesis
    unfolding history_display_def l using b by (auto simp: Let_def intro!: exI [of _ b])
qed

lemma rel_show:
  assumes "shell_rel s e" and "length b = 128" and "NUL \<in> set b" and "cstr b = t"
    and "s' = s\<lparr>cmd_buffer := b, cmd_pos := int (length t), cursor_pos := int (length t)\<rparr>"
  shows "shell_rel s' (e_show t e)"
  using rel_line [OF assms(1-4) order_refl assms(5)] by (simp add: e_show_def)

lemma rel_index:
  assumes "shell_rel s e" and "-1 \<le> i" and "i < int (length (e_hist e))"
  shows "shell_rel (s\<lparr>sh_history_current := i\<rparr>) (e\<lparr>e_idx := i\<rparr>)"
  using assms by (cases "e_fresh e") (simp_all add: shell_rel_def e_text_def)

lemma rel_saved:
  assumes "shell_rel s e" and "length v = 128" and "NUL \<in> set v" and "cstr v = t"
  shows "shell_rel (s\<lparr>saved_cmd := v, saved_cmd_pos := p\<rparr>) (e\<lparr>e_saved := t\<rparr>)"
  using assms by (cases "e_fresh e") (simp_all add: shell_rel_def e_text_def)

lemma rel_row:
  assumes "shell_rel s e" and "i < length (e_hist e)"
  shows "i < length (cmd_history s)" "NUL \<in> set (cmd_history s ! i)" "length (cmd_history s ! i) = 128"
    "cstr (cmd_history s ! i) = e_hist e ! i"
  using assms by (auto simp: shell_rel_def hist_rel_def)

lemma rel_count: "shell_rel s e \<Longrightarrow> sh_history_count s = int (length (e_hist e)) \<and> sh_history_current s = e_idx e
    \<and> -1 \<le> e_idx e \<and> e_idx e < int (length (e_hist e))"
  by (simp add: shell_rel_def hist_rel_def)

text \<open>The end of \<open>history_show\<close>, from a chosen entry on.\<close>

lemma display_rel:
  fixes k :: "'a kshell_scheme"
  assumes "shell_rel (sh k) e" and "NUL \<in> set s" and "length s = 128" and "cstr s = t"
  shows "\<exists>k'. history_display s k = Some k' \<and> shell_rel (sh k') (e_show t e)"
proof -
  have "length (cmd_buffer (sh k)) = 128" using assms(1) by (simp add: shell_rel_def)
  from display_spec [OF assms(2,3) this] assms(4) rel_show [OF assms(1)] show ?thesis by blast
qed

lemma key_up:
  fixes k :: "'a kshell_scheme"
  assumes rel: "shell_rel (sh k) e"
  shows "\<exists>k'. shell_process_input KEY_UP k = Some k' \<and> shell_rel (sh k') (editor_key KEY_UP e)"
proof (cases "e_hist e = []")
  case True
  with rel rel_count [OF rel] show ?thesis
    by (simp add: input_keys [OF rel_active [OF rel]] shell_key_def e_up_def)
next
  case False
  note c = rel_count [OF rel]
  have n: "0 < length (e_hist e)" using False by simp
  define i where "i = min (e_idx e + 1) (int (length (e_hist e)) - 1)"
  have i: "0 \<le> i" "i < int (length (e_hist e))" using c n by (auto simp: i_def)
  then have i: "0 \<le> i" "i < int (length (e_hist e))" "nat i < length (e_hist e)" by (simp_all add: nat_less_iff)
  define v where "v = (if e_idx e = -1 then e_line e else e_saved e)"
  have idx: "(if e_idx e < int (length (e_hist e)) - 1 then e_idx e + 1 else e_idx e) = i" using c by (auto simp: i_def)
  obtain k1 where k1: "(if sh_history_current (sh k) = -1 \<and> (1::int) = 1
               then do { s \<leftarrow> str_copy (saved_cmd (sh k)) (cmd_buffer (sh k));
                         Some (on_sh (\<lambda>t. t\<lparr>saved_cmd := s, saved_cmd_pos := cmd_pos t\<rparr>) k) }
               else Some k) = Some k1" and r1: "shell_rel (sh k1) (e\<lparr>e_saved := v\<rparr>)"
  proof (cases "e_idx e = -1")
    case True
    have b: "NUL \<in> set (cmd_buffer (sh k))" "length (cstr (cmd_buffer (sh k))) < length (saved_cmd (sh k))"
        "cstr (cmd_buffer (sh k)) = e_line e" "length (saved_cmd (sh k)) = 128"
      using rel length_cstr_less [of "cmd_buffer (sh k)"] by (auto simp: shell_rel_def)
    from str_copy_row [OF b(1,2)] obtain d where "str_copy (saved_cmd (sh k)) (cmd_buffer (sh k)) = Some d"
        "length d = 128" "NUL \<in> set d" "cstr d = e_line e" using b(3,4) by auto
    then show thesis using that rel_saved [OF rel] True c by (simp add: v_def)
  next
    case False
    have "e\<lparr>e_saved := v\<rparr> = e" using False by (simp add: v_def)
    then show thesis using that [of k] rel False c by simp
  qed
  let ?k2 = "on_sh (\<lambda>s. s\<lparr>sh_history_current := i\<rparr>) k1"
  have c1: "sh_history_count (sh k1) = int (length (e_hist e))" "sh_history_current (sh k1) = e_idx e"
    using rel_count [OF r1] by simp_all
  have r2: "shell_rel (sh ?k2) (e\<lparr>e_saved := v, e_idx := i\<rparr>)"
    using rel_index [OF r1, of i] i by simp
  have row: "buf_get (cmd_history (sh k1)) i = Some (cmd_history (sh k1) ! nat i)"
    using rel_row(1) [OF r1, of "nat i"] i by (simp add: buf_get_def)
  from display_rel [OF r2, of "cmd_history (sh k1) ! nat i" "e_hist e ! nat i"] rel_row [OF r1, of "nat i"] i(3)
  obtain k' where k': "history_display (cmd_history (sh k1) ! nat i) ?k2 = Some k'"
      "shell_rel (sh k') (e_show (e_hist e ! nat i) (e\<lparr>e_saved := v, e_idx := i\<rparr>))" by auto
  have "history_show 1 k = Some k'"
  proof (cases "e_idx e < int (length (e_hist e)) - 1")
    case True
    then have "i = e_idx e + 1" using idx by simp
    with True c n i row k'(1) show ?thesis unfolding history_show_def k1 by (simp add: c1 Let_def)
  next
    case False
    then have "i = e_idx e" using idx by simp
    with False c n i row k'(1) show ?thesis unfolding history_show_def k1 by (simp add: c1 Let_def)
  qed
  moreover have "editor_key KEY_UP e = e_show (e_hist e ! nat i) (e\<lparr>e_saved := v, e_idx := i\<rparr>)"
    using False by (simp add: e_up_def i_def [symmetric] v_def [symmetric] Let_def e_show_def)
  ultimately show ?thesis
    using k'(2) c n by (simp add: input_keys [OF rel_active [OF rel]] shell_key_def)
qed

lemma key_down:
  fixes k :: "'a kshell_scheme"
  assumes rel: "shell_rel (sh k) e"
  shows "\<exists>k'. shell_process_input KEY_DOWN k = Some k' \<and> shell_rel (sh k') (editor_key KEY_DOWN e)"
proof (cases "e_hist e = []")
  case True
  with rel rel_count [OF rel] show ?thesis
    by (simp add: input_keys [OF rel_active [OF rel]] shell_key_def e_down_def)
next
  case False
  note c = rel_count [OF rel]
  have n: "0 < length (e_hist e)" using False by simp
  define i where "i = max (-1) (e_idx e - 1)"
  have i: "-1 \<le> i" "i < int (length (e_hist e))" using c n by (auto simp: i_def)
  have idx: "(if -1 < e_idx e then e_idx e - 1 else e_idx e) = i" using c by (auto simp: i_def)
  let ?k2 = "on_sh (\<lambda>s. s\<lparr>sh_history_current := i\<rparr>) k"
  have r2: "shell_rel (sh ?k2) (e\<lparr>e_idx := i\<rparr>)" using rel_index [OF rel i] by simp
  define s where "s = (if i = -1 then saved_cmd (sh k) else cmd_history (sh k) ! nat i)"
  define t where "t = (if i = -1 then e_saved e else e_hist e ! nat i)"
  have s: "NUL \<in> set s" "length s = 128" "cstr s = t"
    using rel rel_row [OF rel, of "nat i"] i by (auto simp: s_def t_def shell_rel_def)
  obtain k' where k': "history_display s ?k2 = Some k'" "shell_rel (sh k') (e_show t (e\<lparr>e_idx := i\<rparr>))"
    using display_rel [OF r2 s] by blast
  have get: "0 \<le> i \<Longrightarrow> buf_get (cmd_history (sh k)) i = Some s"
    using rel_row(1) [OF rel, of "nat i"] i by (simp add: buf_get_def s_def)
  have "history_show (-1) k = Some k'"
  proof (cases "i = -1")
    case True
    then have "e_idx e = -1 \<or> e_idx e = 0" using c by (auto simp: i_def)
    moreover have "history_display (saved_cmd (sh k)) (on_sh (\<lambda>s. s\<lparr>sh_history_current := -1\<rparr>) k) = Some k'"
      using k'(1) True by (simp add: s_def)
    ultimately show ?thesis
      unfolding history_show_def using c n by (auto simp: Let_def)
  next
    case False
    then have "0 < e_idx e" "i = e_idx e - 1" using c by (auto simp: i_def)
    with c n i k'(1) get show ?thesis
      unfolding history_show_def by (simp add: Let_def)
  qed
  moreover have "editor_key KEY_DOWN e = e_show t (e\<lparr>e_idx := i\<rparr>)"
    using False by (simp add: e_down_def i_def [symmetric] t_def [symmetric] Let_def)
  ultimately show ?thesis
    using k'(2) c n by (simp add: input_keys [OF rel_active [OF rel]] shell_key_def)
qed

subsection \<open>Running a line\<close>

lemma find_command_total:
  assumes "NUL \<in> set name" and "\<forall>c\<in>set cs. NUL \<notin> set (fst c)"
  shows "find_command name cs = Some (map_of cs (cstr name))"
  using assms(2)
proof (induction cs)
  case (Cons c cs)
  obtain n f where c: "c = (n, f)" by fastforce
  obtain r where "strcmp name (n @ [NUL]) = Some r" "r = 0 \<longleftrightarrow> cstr name = n"
    using strcmp_eq_0 [OF assms(1), of "n @ [NUL]"] Cons.prems cstr_append_NUL [of n "[]"] by (auto simp: c)
  then show ?case using Cons by (auto simp: c)
qed simp

lemma command_frame:
  fixes k :: "'a kshell_scheme"
  assumes "map_of commands n = Some f"
  shows "sh (f args k) = sh k"
proof -
  have "sh (cmd_echo args k) = sh k"
    unfolding cmd_echo_def Let_def
    by (simp, rule fold_inv [where P = "\<lambda>k'. sh k' = sh k"]) auto
  moreover have "sh (cmd_help args k) = sh k"
    unfolding cmd_help_def by (rule fold_inv [where P = "\<lambda>k'. sh k' = sh k"]) auto
  moreover have "sh (cmd_clear args k) = sh k" by (simp add: cmd_clear_def)
  ultimately show ?thesis
    using assms by (auto simp: commands_def command_names_def split: if_splits)
qed

lemma command_names_clean: "\<forall>c\<in>set commands. NUL \<notin> set (fst c)"
  by (simp add: commands_def command_names_def)

text \<open>What a line with the words \<open>args\<close> runs, between the new history and the new prompt.\<close>

definition run_words :: "string list \<Rightarrow> 'a kcon_scheme \<Rightarrow> 'a kcon_scheme" where
  "run_words args k =
     (case map_of commands (cstr (args ! 0)) of
        Some f \<Rightarrow> f args k
      | None \<Rightarrow>
          printk (''Type '' @ [CHR 0x27] @ ''help'' @ [CHR 0x27] @ '' for available commands'' @ NL) []
            (printk (''Unknown command: '' @ [CHR 0x27] @ ''%s'' @ [CHR 0x27] @ NL) [ArgS (Some (args ! 0))] k))"

lemma run_words_sh:
  fixes k :: "'a kshell_scheme"
  shows "sh (run_words args k) = sh k"
proof (cases "map_of commands (cstr (args ! 0)) :: (string list \<Rightarrow> 'a kshell_scheme \<Rightarrow> 'a kshell_scheme) option")
  case (Some f)
  then show ?thesis using command_frame [OF Some] by (simp add: run_words_def)
qed (simp add: run_words_def)

lemma execute_form:
  fixes k :: "'a kshell_scheme"
  assumes buf: "NUL \<in> set (cmd_buffer (sh k))" "length (cmd_buffer (sh k)) = 128" "cstr (cmd_buffer (sh k)) = t" "t \<noteq> []"
    and pos: "cmd_pos (sh k) = int (length t)" and h: "hist_rel (sh k) h"
  shows "\<exists>H n b args. execute_command k
      = Some (let k = on_sh (\<lambda>s. s\<lparr>cmd_history := H, sh_history_count := n, cmd_buffer := b\<rparr>) k
              in if args = [] then k else printk PROMPT [] (run_words args k))
    \<and> hist_rel ((sh k)\<lparr>cmd_history := H, sh_history_count := n\<rparr>) (log_add t h)
    \<and> length b = 128 \<and> NUL \<in> set b \<and> cstr b = lead 15 t
    \<and> (\<forall>a\<in>set args. NUL \<in> set a) \<and> map cstr args = args_of 15 t"
proof -
  let ?buf = "cmd_buffer (sh k)"
  have "?buf ! length t = NUL" "length t < length ?buf" using cstr_nth(2,3) [OF buf(1)] buf(3) by simp_all
  then have set: "buf_set ?buf (cmd_pos (sh k)) NUL = Some ?buf"
    using pos by (simp add: list_update_same_conv)
  have id: "on_sh (\<lambda>s. s\<lparr>cmd_buffer := cmd_buffer (sh k)\<rparr>) k = k" by (simp add: on_sh_def)
  have len: "length (cstr ?buf) < 128" using length_cstr_less [OF buf(1)] buf(2) by simp
  obtain H n where add: "history_add ?buf k = Some (on_sh (\<lambda>s. s\<lparr>cmd_history := H, sh_history_count := n\<rparr>) k)"
      "hist_rel ((sh k)\<lparr>cmd_history := H, sh_history_count := n\<rparr>) (log_add t h)"
    using history_add_spec [OF h buf(1) len] buf(3,4) by auto
  obtain b argv where p: "parse_arguments ?buf = Some (b, argv)" "length b = 128" "NUL \<in> set b"
      "\<forall>q\<in>set argv. NUL \<in> set (drop q b)" "map (\<lambda>q. cstr (drop q b)) argv = args_of 15 t" "cstr b = lead 15 t"
    using parse_arguments_spec [OF buf(1)] buf(2,3) by auto
  let ?args = "map (\<lambda>q. drop q b) argv"
  let ?k = "on_sh (\<lambda>s. s\<lparr>cmd_history := H, sh_history_count := n, cmd_buffer := b\<rparr>) k"
  have k: "on_sh (\<lambda>s. s\<lparr>cmd_buffer := b\<rparr>) (on_sh (\<lambda>s. s\<lparr>cmd_history := H, sh_history_count := n\<rparr>) k) = ?k"
    by (simp add: on_sh_def)
  have "execute_command k = Some (if ?args = [] then ?k else printk PROMPT [] (run_words ?args ?k))"
  proof (cases argv)
    case Nil
    then show ?thesis
      unfolding execute_command_def using buf(4) pos set add(1) p(1) id k by simp
  next
    case (Cons q qs)
    have N: "NUL \<in> set (drop q b)" using p(4) Cons by simp
    have f: "find_command (drop q b) (commands :: (string \<times> (string list \<Rightarrow> 'a kshell_scheme \<Rightarrow> 'a kshell_scheme)) list)
        = Some (map_of commands (cstr (drop q b)))"
      by (rule find_command_total [OF N command_names_clean])
    show ?thesis
      unfolding execute_command_def using buf(4) pos set add(1) p(1) id Cons f k
      by (simp add: run_words_def Let_def split: option.split)
  qed
  moreover have "\<forall>a\<in>set ?args. NUL \<in> set a" "map cstr ?args = args_of 15 t" using p(4,5) by (simp_all add: comp_def)
  ultimately show ?thesis
    using add(2) p(2,3,6) by (intro exI [of _ H] exI [of _ n] exI [of _ b] exI [of _ ?args]) (simp add: Let_def)
qed

lemma execute_spec:
  fixes k :: "'a kshell_scheme"
  assumes buf: "NUL \<in> set (cmd_buffer (sh k))" "length (cmd_buffer (sh k)) = 128" "cstr (cmd_buffer (sh k)) = t" "t \<noteq> []"
    and pos: "cmd_pos (sh k) = int (length t)" and h: "hist_rel (sh k) h"
  shows "\<exists>k' H n b. execute_command k = Some k'
    \<and> sh k' = (sh k)\<lparr>cmd_history := H, sh_history_count := n, cmd_buffer := b\<rparr>
    \<and> hist_rel ((sh k)\<lparr>cmd_history := H, sh_history_count := n\<rparr>) (log_add t h)
    \<and> length b = 128 \<and> NUL \<in> set b \<and> cstr b = lead 15 t"
proof -
  obtain H n b args where x: "execute_command k
      = Some (let k = on_sh (\<lambda>s. s\<lparr>cmd_history := H, sh_history_count := n, cmd_buffer := b\<rparr>) k
              in if args = [] then k else printk PROMPT [] (run_words args k))"
      "hist_rel ((sh k)\<lparr>cmd_history := H, sh_history_count := n\<rparr>) (log_add t h)"
      "length b = 128" "NUL \<in> set b" "cstr b = lead 15 t"
    using execute_form [OF assms] by blast
  then show ?thesis
    by (cases "args = []") (auto simp: Let_def run_words_sh)
qed

lemma log_add_length: "length h \<le> 50 \<Longrightarrow> length h \<le> length (log_add t h)"
  by (cases "repeats t h") (auto simp: log_add_def last_n_def)

lemma key_enter:
  fixes k :: "'a kshell_scheme"
  assumes rel: "shell_rel (sh k) e"
  shows "\<exists>k'. shell_process_input KEY_ENTER k = Some k' \<and> shell_rel (sh k') (editor_key KEY_ENTER e)"
proof (cases "e_text e = []")
  case True
  with rel rel_pos [OF rel] show ?thesis
    by (simp add: input_keys [OF rel_active [OF rel]] shell_enter_def e_enter_def)
next
  case False
  let ?t = "e_text e" and ?s = "sh k"
  have r: "NUL \<in> set (cmd_buffer ?s)" "length (cmd_buffer ?s) = 128" "cstr (cmd_buffer ?s) = ?t"
      "cmd_pos ?s = int (length ?t)" "hist_rel ?s (e_hist e)"
    using rel shell_rel_text(3) [OF rel False] by (auto simp: shell_rel_def)
  have "cmd_buffer ?s ! length ?t = NUL" "length ?t < length (cmd_buffer ?s)" using cstr_nth(2,3) [OF r(1)] r(3) by simp_all
  then have set: "buf_set (cmd_buffer ?s) (cmd_pos ?s) NUL = Some (cmd_buffer ?s)"
    using r(4) by (simp add: list_update_same_conv)
  have id: "on_sh (\<lambda>s. s\<lparr>cmd_buffer := cmd_buffer (sh k)\<rparr>) k = k" by (simp add: on_sh_def)
  let ?k = "printk NL [] k"
  obtain k' H n b where k': "execute_command ?k = Some k'"
      "sh k' = ?s\<lparr>cmd_history := H, sh_history_count := n, cmd_buffer := b\<rparr>"
      "hist_rel (?s\<lparr>cmd_history := H, sh_history_count := n\<rparr>) (log_add ?t (e_hist e))"
      "length b = 128" "NUL \<in> set b" "cstr b = lead 15 ?t"
    using execute_spec [of ?k ?t "e_hist e"] r False by auto
  let ?k' = "on_sh (\<lambda>s. s\<lparr>cmd_pos := 0, cursor_pos := 0\<rparr>) k'"
  have "shell_process_input KEY_ENTER k = Some ?k'"
    using r(4) False set id k'(1) by (simp add: input_keys [OF rel_active [OF rel]] shell_enter_def)
  moreover have "e_idx e < int (length (log_add ?t (e_hist e)))"
    using log_add_length [of "e_hist e" ?t] rel_count [OF rel] r(5) by (simp add: hist_rel_def)
  then have "shell_rel (sh ?k') (editor_key KEY_ENTER e)"
    using rel k'(2-6) False by (simp add: e_enter_def shell_rel_def e_text_def hist_rel_def)
  ultimately show ?thesis by (simp only:) blast
qed

lemma key_other:
  fixes k :: "'a kshell_scheme"
  assumes rel: "shell_rel (sh k) e" and c: "c = NUL \<or> (8::nat) < of_char c" "c \<noteq> KEY_ENTER"
    "(of_char c :: nat) < 32 \<or> 126 < (of_char c :: nat)"
  shows "shell_process_input c k = Some k \<and> editor_key c e = e"
proof -
  have ne: "c \<noteq> CHR 0x01" "c \<noteq> CHR 0x02" "c \<noteq> CHR 0x03" "c \<noteq> CHR 0x04" "c \<noteq> CHR 0x05"
      "c \<noteq> CHR 0x06" "c \<noteq> CHR 0x07" "c \<noteq> CHR 0x08"
    using c(1) by auto
  have lo: "\<not> ((1::nat) \<le> of_char c \<and> (of_char c :: nat) \<le> 7)" using c(1) by auto
  have hi: "\<not> ((32::nat) \<le> of_char c \<and> (of_char c :: nat) \<le> 126)" using c(3) by linarith
  have "shell_process_input c k = Some k"
    unfolding shell_process_input_def shell_insert_def
    using rel_active [OF rel] ne c(2) lo hi by (simp only: if_False simp_thms)
  moreover have "editor_key c e = e"
    unfolding editor_key_def Let_def using ne c(2) by (simp only: if_False) (use hi in auto)
  ultimately show ?thesis ..
qed

lemma small_char: "(of_char c :: nat) = n \<Longrightarrow> c = char_of n"
  by (metis char_of_char)

lemma key_cases:
  obtains "c = KEY_UP" | "c = KEY_DOWN" | "c = KEY_LEFT" | "c = KEY_RIGHT" | "c = KEY_HOME" | "c = KEY_END"
    | "c = KEY_DEL" | "c = KEY_BACKSPACE" | "c = KEY_ENTER" | "(32::nat) \<le> of_char c" "(of_char c :: nat) \<le> 126"
    | "c = NUL \<or> (8::nat) < of_char c" "c \<noteq> KEY_ENTER" "(of_char c :: nat) < 32 \<or> 126 < (of_char c :: nat)"
proof -
  let ?n = "of_char c :: nat"
  consider "?n = 0" | "?n = 1" | "?n = 2" | "?n = 3" | "?n = 4" | "?n = 5" | "?n = 6" | "?n = 7" | "?n = 8"
    | "8 < ?n" by linarith
  then show thesis
  proof cases
    case 10
    then show thesis using that(9-11) by linarith
  qed (use that small_char [of c] in \<open>force simp: char_of_def\<close>)+
qed

interpretation editor_sim: simulation "\<lambda>k e. shell_rel (sh k) e" shell_process_input editor_key "\<lambda>_ _. True"
proof
  fix k :: "'a kshell_scheme" and e c
  assume rel: "shell_rel (sh k) e"
  show "\<exists>k'. shell_process_input c k = Some k' \<and> shell_rel (sh k') (editor_key c e)"
    using key_up [OF rel] key_down [OF rel] key_left [OF rel] key_right [OF rel] key_home_end [OF rel] key_delete [OF rel]
      key_backspace [OF rel] key_enter [OF rel] key_print [OF rel, of c] key_other [OF rel, of c] rel
    by (cases rule: key_cases [of c]) auto
qed

lemma legal_any: "legal (\<lambda>_ _. True) f es a"
  by (induction es arbitrary: a) auto

text \<open>Arrays of the declared sizes, as every operation keeps them.\<close>

definition shell_arrays :: "shell \<Rightarrow> bool" where
  "shell_arrays s \<longleftrightarrow> length (cmd_buffer s) = 128 \<and> length (saved_cmd s) = 128
     \<and> length (cmd_history s) = 50 \<and> (\<forall>i<50. length (cmd_history s ! i) = 128)"

lemma shell_init_rel:
  fixes k :: "'a kshell_scheme"
  assumes "shell_arrays (sh k)"
  shows "\<exists>k'. shell_init k = Some k' \<and> shell_rel (sh k') editor0"
proof -
  have "cmd_buffer (sh k) \<noteq> []" "saved_cmd (sh k) \<noteq> []" using assms by (auto simp: shell_arrays_def)
  then have "cstr ((cmd_buffer (sh k))[0 := NUL]) = []" "NUL \<in> set ((cmd_buffer (sh k))[0 := NUL])"
      "cstr ((saved_cmd (sh k))[0 := NUL]) = []" "NUL \<in> set ((saved_cmd (sh k))[0 := NUL])"
    by (cases "cmd_buffer (sh k)"; cases "saved_cmd (sh k)"; simp)+
  then show ?thesis
    using assms unfolding shell_init_def
    by (simp add: buf_set_def shell_arrays_def shell_rel_def editor0_def e_text_def hist_rel_def)
qed

subsection \<open>Lines typed one after the other\<close>

text \<open>The log of the lines is the last 50 of them once immediate repetitions are dropped.\<close>

lemma accepted_after:
  assumes "h \<noteq> []" and "last h = x"
  shows "x # accepted_items repeats (\<lambda>t h. t) log_add ls h = remdups_adj (x # ls)"
  using assms
proof (induction ls arbitrary: x h)
  case (Cons l ls)
  have ne: "log_add l h \<noteq> []" "last (log_add l h) = l"
    using Cons.prems by (auto simp: log_add_def repeats_def last_last_n last_n_def)
  show ?case
    using Cons.IH [OF ne] Cons.prems by (cases "x = l") (auto simp: repeats_def log_add_def)
qed simp

lemma accepted_lines: "accepted_items repeats (\<lambda>t h. t) log_add ls [] = remdups_adj ls"
proof (cases ls)
  case (Cons l ls')
  then show ?thesis using accepted_after [of "[l]" l ls'] by (simp add: repeats_def log_add_def)
qed simp

lemma log_lines: "fold log_add ls [] = last_n 50 (remdups_adj ls)"
  using cmd_log.entries_adds [of "[]" ls] by (simp add: accepted_lines)

definition typeable :: "string \<Rightarrow> bool" where
  "typeable l \<longleftrightarrow> l \<noteq> [] \<and> length l \<le> 127 \<and> (\<forall>c\<in>set l. (32::nat) \<le> of_char c \<and> (of_char c :: nat) \<le> 126)"

lemma type_text:
  assumes "\<forall>c\<in>set l. (32::nat) \<le> of_char c \<and> (of_char c :: nat) \<le> 126"
    and "e_cur e = length (e_text e)" and "length (e_text e @ l) \<le> 127" and "l \<noteq> []"
  shows "fold editor_key l e = e\<lparr>e_line := e_text e @ l, e_fresh := False, e_cur := length (e_text e @ l)\<rparr>"
  using assms
proof (induction l arbitrary: e)
  case (Cons c l)
  let ?e = "e\<lparr>e_line := e_text e @ [c], e_fresh := False, e_cur := length (e_text e) + 1\<rparr>"
  have k: "editor_key c e = ?e"
    using Cons.prems editor_key_char [of c e] by simp
  show ?case
  proof (cases "l = []")
    case True
    then show ?thesis by (simp add: k)
  next
    case False
    have "fold editor_key l ?e = ?e\<lparr>e_line := e_text ?e @ l, e_fresh := False, e_cur := length (e_text ?e @ l)\<rparr>"
      using Cons.prems False by (intro Cons.IH) (auto simp: e_text_def)
    then show ?thesis by (simp add: k e_text_def)
  qed
qed simp

lemma type_line:
  assumes "typeable l" and "e_text e = []" and "e_cur e = 0"
  shows "fold editor_key (l @ [KEY_ENTER]) e
    = e\<lparr>e_line := lead 15 l, e_fresh := True, e_cur := 0, e_hist := log_add l (e_hist e)\<rparr>"
  using assms type_text [of l e] by (auto simp: typeable_def e_enter_def e_text_def)

lemma type_lines:
  assumes "\<forall>l\<in>set ls. typeable l" and "e_text e = []" and "e_cur e = 0"
  shows "let e' = fold editor_key (concat (map (\<lambda>l. l @ [KEY_ENTER]) ls)) e
    in e_text e' = [] \<and> e_cur e' = 0 \<and> e_idx e' = e_idx e \<and> e_hist e' = fold log_add ls (e_hist e)"
  using assms
proof (induction ls arbitrary: e)
  case (Cons l ls)
  let ?e = "e\<lparr>e_line := lead 15 l, e_fresh := True, e_cur := 0, e_hist := log_add l (e_hist e)\<rparr>"
  have "fold editor_key (l @ [KEY_ENTER]) e = ?e" using Cons.prems by (intro type_line) auto
  then show ?case using Cons.IH [of ?e] Cons.prems by (simp add: e_text_def Let_def)
qed simp

lemma type_lines_last:
  assumes "\<forall>l\<in>set ls. typeable l" and "e_text e = []" and "e_cur e = 0" and "ls \<noteq> []"
  shows "e_line (fold editor_key (concat (map (\<lambda>l. l @ [KEY_ENTER]) ls)) e) = lead 15 (last ls)"
  using assms
proof (induction ls rule: rev_induct)
  case (snoc l ls)
  let ?e = "fold editor_key (concat (map (\<lambda>l. l @ [KEY_ENTER]) ls)) e"
  have "e_text ?e = []" "e_cur ?e = 0" using type_lines [of ls e] snoc.prems by (simp_all add: Let_def)
  then show ?case using type_line [of l ?e] snoc.prems by simp
qed simp

text \<open>What the first recall shows, in the editor.\<close>

lemma up_from_line: "e_idx e = -1 \<Longrightarrow> e_hist e \<noteq> [] \<Longrightarrow>
    e_up e = e_show (hd (e_hist e)) (e\<lparr>e_idx := 0, e_saved := e_line e\<rparr>)"
  by (cases "e_hist e") (simp_all add: e_up_def)

lemma up_down_from_line: "e_idx e = -1 \<Longrightarrow> e_hist e \<noteq> [] \<Longrightarrow>
    e_down (e_up e) = e_show (e_line e) (e\<lparr>e_saved := e_line e\<rparr>)"
  by (simp add: up_from_line) (simp add: e_down_def e_show_def)

lemma enter_form:
  fixes k :: "'a kshell_scheme"
  assumes rel: "shell_rel (sh k) e" and t: "e_text e \<noteq> []"
  shows "shell_process_input KEY_ENTER k
    = map_option (on_sh (\<lambda>s. s\<lparr>cmd_pos := 0, cursor_pos := 0\<rparr>)) (execute_command (printk NL [] k))"
proof -
  have r: "NUL \<in> set (cmd_buffer (sh k))" "cstr (cmd_buffer (sh k)) = e_text e" "cmd_pos (sh k) = int (length (e_text e))"
    using rel shell_rel_text(3) [OF rel t] by (auto simp: shell_rel_def)
  have "cmd_buffer (sh k) ! length (e_text e) = NUL" "length (e_text e) < length (cmd_buffer (sh k))"
    using cstr_nth(2,3) [OF r(1)] r(2) by simp_all
  then have set: "buf_set (cmd_buffer (sh k)) (cmd_pos (sh k)) NUL = Some (cmd_buffer (sh k))"
    using r(3) by (simp add: list_update_same_conv)
  have id: "on_sh (\<lambda>s. s\<lparr>cmd_buffer := cmd_buffer (sh k)\<rparr>) k = k" by (simp add: on_sh_def)
  show ?thesis
    using r(3) t set id by (simp add: input_keys [OF rel_active [OF rel]] shell_enter_def map_option_bind split: option.split)
      (cases "execute_command (printk NL [] k)"; simp)
qed

lemma enter_runs:
  fixes k :: "'a kshell_scheme"
  assumes rel: "shell_rel (sh k) e" and t: "e_text e \<noteq> []"
  shows "\<exists>f g args. shell_process_input KEY_ENTER k
      = Some (let k = on_sh f (printk NL [] k) in on_sh g (if args = [] then k else printk PROMPT [] (run_words args k)))
    \<and> (\<forall>a\<in>set args. NUL \<in> set a) \<and> map cstr args = args_of 15 (e_text e)"
proof -
  have r: "NUL \<in> set (cmd_buffer (sh (printk NL [] k)))" "length (cmd_buffer (sh (printk NL [] k))) = 128"
      "cstr (cmd_buffer (sh (printk NL [] k))) = e_text e"
      "cmd_pos (sh (printk NL [] k)) = int (length (e_text e))" "hist_rel (sh (printk NL [] k)) (e_hist e)"
    using rel shell_rel_text(3) [OF rel t] by (auto simp: shell_rel_def)
  obtain H n b args where x: "execute_command (printk NL [] k)
      = Some (let k = on_sh (\<lambda>s. s\<lparr>cmd_history := H, sh_history_count := n, cmd_buffer := b\<rparr>) (printk NL [] k)
              in if args = [] then k else printk PROMPT [] (run_words args k))"
      "\<forall>a\<in>set args. NUL \<in> set a" "map cstr args = args_of 15 (e_text e)"
    using execute_form [OF r(1-3) t r(4,5)] by blast
  then show ?thesis
    unfolding enter_form [OF rel t] x(1) by (simp only: option.map Let_def) blast
qed

lemma args_of_blanks: "list_all blank_char t \<Longrightarrow> args_of n t = []"
  by (cases n) (simp_all add: list_all_iff dropWhile_eq_Nil_conv [THEN iffD2])

subsection \<open>What the shell leaves alone\<close>

text \<open>\<open>k'\<close> differs from \<open>k\<close> in the console and the shell only.\<close>

definition shell_only :: "'a kshell_scheme \<Rightarrow> 'a kshell_scheme \<Rightarrow> bool" where
  "shell_only k k' \<longleftrightarrow> k'\<lparr>con := con k, sh := sh k\<rparr> = k"

lemma shell_only_refl [simp, intro]: "shell_only k k"
  by (simp add: shell_only_def)

lemma shell_only_step:
  fixes k :: "'a kshell_scheme"
  assumes "shell_only k k1"
  shows "shell_only k (printk f as k1)" "shell_only k (on_con g k1)" "shell_only k (on_sh h k1)"
  using assms by (auto simp: shell_only_def printk_def on_con_def on_sh_def split: option.split)

lemma shell_only_trans: "shell_only k k1 \<Longrightarrow> shell_only k1 k2 \<Longrightarrow> shell_only k k2"
  unfolding shell_only_def by (cases k; cases k1; cases k2) simp

lemma shell_only_command:
  fixes k :: "'a kshell_scheme"
  assumes "(n, f) \<in> set commands" and "shell_only k k1"
  shows "shell_only k (f args k1)"
proof -
  have "shell_only k (cmd_echo args k1)"
    unfolding cmd_echo_def Let_def
    by (rule shell_only_step, rule fold_inv [where P = "shell_only k"]) (auto intro!: shell_only_step assms(2))
  moreover have "shell_only k (cmd_help args k1)"
    unfolding cmd_help_def by (rule fold_inv [where P = "shell_only k"]) (auto intro!: shell_only_step assms(2))
  moreover have "shell_only k (cmd_clear args k1)" using assms(2) by (simp add: cmd_clear_def shell_only_step)
  ultimately show ?thesis using assms(1) by (auto simp: commands_def command_names_def)
qed

lemma find_command_mem: "find_command name cs = Some (Some f) \<Longrightarrow> \<exists>n. (n, f) \<in> set cs"
  by (induction name cs rule: find_command.induct) (auto split: option.splits if_splits)

lemma shell_only_history_add: "history_add cmd k = Some k' \<Longrightarrow> shell_only k k'"
  by (auto simp: history_add_def Let_def bind_eq_Some_conv intro!: shell_only_step split: if_splits)

lemma shell_only_display: "history_display s k = Some k' \<Longrightarrow> shell_only k k'"
  by (auto simp: history_display_def Let_def bind_eq_Some_conv intro!: shell_only_step split: if_splits)

lemma shell_only_show:
  fixes k :: "'a kshell_scheme"
  assumes "history_show d k = Some k'"
  shows "shell_only k k'"
proof -
  have 1: "shell_only k k'" if "shell_only k k1" "history_display s k1 = Some k'" for k1 s
    using that shell_only_display shell_only_trans by blast
  show ?thesis
    using assms unfolding history_show_def Let_def
    by (auto simp: bind_eq_Some_conv intro!: shell_only_step elim!: 1 [rotated] split: if_splits option.splits)
qed

lemma shell_only_execute:
  fixes k :: "'a kshell_scheme"
  assumes "execute_command k = Some k'"
  shows "shell_only k k'"
proof -
  have 1: "shell_only k k1" if "history_add b (on_sh f k) = Some k1" for k1 b f
    using that shell_only_history_add shell_only_trans shell_only_step(3) shell_only_refl by blast
  have 2: "shell_only k (case r of Some f \<Rightarrow> f args k1 | None \<Rightarrow> printk s [] (printk s' [a] k1))"
    if "find_command name commands = Some r" "shell_only k k1"
    for name r args s s' a and k1 :: "'a kshell_scheme"
    using that by (cases r) (auto intro: shell_only_step shell_only_command dest!: find_command_mem)
  show ?thesis
    using assms unfolding execute_command_def Let_def
    by (auto simp: bind_eq_Some_conv intro!: shell_only_step 2 dest!: 1 split: if_splits prod.splits)
qed

lemma shell_only_redraw: "shell_only k k1 \<Longrightarrow> shell_only k (redraw_from_cursor k1)"
  by (auto simp: redraw_from_cursor_def Let_def intro!: shell_only_step)

lemma shell_only_move: "shell_only k k1 \<Longrightarrow> shell_only k (move_cursor_to p k1)"
  by (auto simp: move_cursor_to_def Let_def intro!: shell_only_step)

lemma shell_only_key: "shell_key c k = Some k' \<Longrightarrow> shell_only k k'"
  by (auto simp: shell_key_def Let_def bind_eq_Some_conv
      intro!: shell_only_step shell_only_redraw shell_only_move split: if_splits dest!: shell_only_show)

lemma shell_only_enter:
  fixes k :: "'a kshell_scheme"
  assumes "shell_enter k = Some k'"
  shows "shell_only k k'"
proof -
  have 1: "shell_only k k1" if "execute_command (printk s as (on_sh f k)) = Some k1" for k1 s as f
    using that shell_only_execute shell_only_trans shell_only_step(1,3) shell_only_refl by blast
  show ?thesis
    using assms unfolding shell_enter_def Let_def
    by (auto simp: bind_eq_Some_conv intro!: shell_only_step dest!: 1 split: if_splits)
qed

lemma shell_only_input:
  assumes "shell_process_input c k = Some k'"
  shows "shell_only k k'"
  using assms unfolding shell_process_input_def shell_backspace_def shell_insert_def Let_def
  by (auto simp: bind_eq_Some_conv intro!: shell_only_step shell_only_redraw split: if_splits
      dest: shell_only_key shell_only_enter)

lemma shell_only_run: "run shell_process_input cs k = Some k' \<Longrightarrow> shell_only k k'"
  by (induction cs arbitrary: k) (auto split: option.splits dest!: shell_only_input intro: shell_only_trans)

subsection \<open>Properties\<close>

text \<open>C4: From \<open>shell_init\<close> on, whatever keys are pressed, \<open>shell_process_input\<close> stays inside its arrays and
  implements the abstract line editor: insertion and deletion at the cursor, cursor moves, recall of the
  history, and Enter, which logs the line and starts an empty one.\<close>

theorem shell_refines_editor:
  assumes "shell_arrays (sh k)"
  shows "\<exists>k0 k'. shell_init k = Some k0 \<and> run shell_process_input keys k0 = Some k'
    \<and> shell_rel (sh k') (fold editor_key keys editor0)"
proof -
  obtain k0 where k0: "shell_init k = Some k0" "shell_rel (sh k0) editor0" using shell_init_rel [OF assms] by blast
  from editor_sim.run_refines [OF k0(2) legal_any, of keys] k0(1) show ?thesis by blast
qed

lemma shell_boot_arrays: "shell_arrays (sh (k\<lparr>sh := shell_boot\<rparr>))"
  by (simp add: shell_arrays_def shell_boot_def)

theorem shell_refines_editor_witness:
  "\<forall>k :: kshell. \<exists>k0 k'. shell_init (k\<lparr>sh := shell_boot\<rparr>) = Some k0 \<and> run shell_process_input (''ab'' @ [KEY_LEFT, CHR ''x'']) k0 = Some k'
    \<and> cstr (cmd_buffer (sh k')) = ''axb''"
proof
  fix k :: kshell
  have "e_line (fold editor_key (''ab'' @ [KEY_LEFT, CHR ''x'']) editor0) = ''axb''" by code_simp
  then show "\<exists>k0 k'. shell_init (k\<lparr>sh := shell_boot\<rparr>) = Some k0 \<and> run shell_process_input (''ab'' @ [KEY_LEFT, CHR ''x'']) k0 = Some k'
      \<and> cstr (cmd_buffer (sh k')) = ''axb''"
    using shell_refines_editor [OF shell_boot_arrays, of k "''ab'' @ [KEY_LEFT, CHR ''x'']"]
    unfolding shell_rel_def by auto
qed

text \<open>After any lines are typed, each of 1 to 127 printable characters and ended by Enter, the rows of
  \<open>cmd_history\<close> hold the last 50 of them in order, immediate repetitions dropped.\<close>

theorem typed_lines_reach_history:
  assumes "shell_arrays (sh k)" and "list_all typeable ls"
  shows "\<exists>k0 k'. shell_init k = Some k0 \<and> run shell_process_input (concat (map (\<lambda>l. l @ [KEY_ENTER]) ls)) k0 = Some k'
    \<and> map cstr (take (nat (sh_history_count (sh k'))) (cmd_history (sh k'))) = last_n 50 (remdups_adj ls)"
proof -
  let ?keys = "concat (map (\<lambda>l. l @ [KEY_ENTER]) ls)" and ?e = "fold editor_key (concat (map (\<lambda>l. l @ [KEY_ENTER]) ls)) editor0"
  obtain k0 where k0: "shell_init k = Some k0" "shell_rel (sh k0) editor0" using shell_init_rel [OF assms(1)] by blast
  obtain k' where k': "run shell_process_input ?keys k0 = Some k'" "shell_rel (sh k') ?e"
    using editor_sim.run_refines [OF k0(2) legal_any, of ?keys] by blast
  have h: "e_hist ?e = last_n 50 (remdups_adj ls)"
    using type_lines [of ls editor0] assms(2) log_lines by (simp add: list_all_iff editor0_def e_text_def Let_def)
  have "map cstr (take (nat (sh_history_count (sh k'))) (cmd_history (sh k'))) = e_hist ?e"
    using k'(2) unfolding shell_rel_def hist_rel_def by (intro nth_equalityI) auto
  then show ?thesis using k0(1) k'(1) h by auto
qed

theorem typed_lines_reach_history_witness:
  "\<forall>k :: kshell. \<exists>k0 k'. shell_init (k\<lparr>sh := shell_boot\<rparr>) = Some k0
    \<and> run shell_process_input (concat (map (\<lambda>l. l @ [KEY_ENTER]) [''a'', ''a'', ''b''])) k0 = Some k'
    \<and> map cstr (take (nat (sh_history_count (sh k'))) (cmd_history (sh k'))) = [''a'', ''b'']"
proof
  fix k :: kshell
  have "list_all typeable [''a'', ''a'', ''b'']" by (simp add: typeable_def)
  from typed_lines_reach_history [OF shell_boot_arrays this, of k]
  show "\<exists>k0 k'. shell_init (k\<lparr>sh := shell_boot\<rparr>) = Some k0
    \<and> run shell_process_input (concat (map (\<lambda>l. l @ [KEY_ENTER]) [''a'', ''a'', ''b''])) k0 = Some k'
    \<and> map cstr (take (nat (sh_history_count (sh k'))) (cmd_history (sh k'))) = [''a'', ''b'']"
    by simp
qed

text \<open>C10: Enter on a line \<open>t\<close>, however it was edited, splits it into words at blanks, where the 15th word is
  the whole rest of the line, and calls the command that the first word names with these words, or reports it as
  unknown, and prints the prompt; a line of blanks calls nothing and gets no prompt either.\<close>

theorem enter_runs_command:
  fixes k :: "'a kshell_scheme"
  assumes "shell_arrays (sh k)" and "t = e_text (fold editor_key keys editor0)" and "t \<noteq> []"
  shows "\<exists>k0 k1 f g args. shell_init k = Some k0 \<and> run shell_process_input keys k0 = Some k1
    \<and> shell_process_input KEY_ENTER k1
      = Some (let k = on_sh f (printk NL [] k1) in on_sh g (if args = [] then k else printk PROMPT [] (run_words args k)))
    \<and> map cstr args = args_of 15 t"
proof -
  obtain k0 where k0: "shell_init k = Some k0" "shell_rel (sh k0) editor0" using shell_init_rel [OF assms(1)] by blast
  obtain k1 where k1: "run shell_process_input keys k0 = Some k1" "shell_rel (sh k1) (fold editor_key keys editor0)"
    using editor_sim.run_refines [OF k0(2) legal_any, of keys] by blast
  from enter_runs [OF k1(2)] assms(2,3) k0(1) k1(1) show ?thesis by blast
qed

theorem enter_runs_command_witness:
  "\<forall>k :: kshell. \<exists>k0 k1 f g args. shell_init (k\<lparr>sh := shell_boot\<rparr>) = Some k0
    \<and> run shell_process_input ''echo  hi'' k0 = Some k1
    \<and> shell_process_input KEY_ENTER k1 = Some (on_sh g (printk PROMPT [] (cmd_echo args (on_sh f (printk NL [] k1)))))
    \<and> map cstr args = [''echo'', ''hi'']"
proof
  fix k :: kshell
  have t: "''echo  hi'' = e_text (fold editor_key ''echo  hi'' editor0)" by code_simp
  have a: "args_of 15 ''echo  hi'' = [''echo'', ''hi'']" by code_simp
  have ne: "''echo  hi'' \<noteq> []" by simp
  from enter_runs_command [OF shell_boot_arrays t ne, of k] obtain k0 k1 f g args where
    x: "shell_init (k\<lparr>sh := shell_boot\<rparr>) = Some k0" "run shell_process_input ''echo  hi'' k0 = Some k1"
      "shell_process_input KEY_ENTER k1
        = Some (let k = on_sh f (printk NL [] k1) in on_sh g (if args = [] then k else printk PROMPT [] (run_words args k)))"
      "map cstr args = [''echo'', ''hi'']" unfolding a by (elim exE conjE) (rule that)
  have "args \<noteq> []" "cstr (args ! 0) = ''echo''" using x(4) by auto
  then have "shell_process_input KEY_ENTER k1 = Some (on_sh g (printk PROMPT [] (cmd_echo args (on_sh f (printk NL [] k1)))))"
    using x(3) by (simp add: run_words_def commands_def command_names_def Let_def)
  with x(1,2,4) show "\<exists>k0 k1 f g args. shell_init (k\<lparr>sh := shell_boot\<rparr>) = Some k0
    \<and> run shell_process_input ''echo  hi'' k0 = Some k1
    \<and> shell_process_input KEY_ENTER k1 = Some (on_sh g (printk PROMPT [] (cmd_echo args (on_sh f (printk NL [] k1)))))
    \<and> map cstr args = [''echo'', ''hi'']" by (intro exI conjI)
qed

text \<open>C11: After any typed lines, on the empty line, the first Up recalls the oldest line of the log (not the
  latest), and Up then Down does not bring the empty line back: it shows what the splitting left of the line
  entered last, which \<open>history_show\<close> saved from the stale \<open>cmd_buffer\<close>.\<close>

theorem recall_after_typed_lines:
  assumes "shell_arrays (sh k)" and "list_all typeable ls" and "ls \<noteq> []"
  shows "\<exists>k0 k1 k2 k3. shell_init k = Some k0
    \<and> run shell_process_input (concat (map (\<lambda>l. l @ [KEY_ENTER]) ls)) k0 = Some k1 \<and> cmd_pos (sh k1) = 0
    \<and> shell_process_input KEY_UP k1 = Some k2 \<and> cstr (cmd_buffer (sh k2)) = hd (last_n 50 (remdups_adj ls))
    \<and> shell_process_input KEY_DOWN k2 = Some k3 \<and> cstr (cmd_buffer (sh k3)) = lead 15 (last ls)
    \<and> cmd_pos (sh k3) = int (length (lead 15 (last ls)))"
proof -
  let ?keys = "concat (map (\<lambda>l. l @ [KEY_ENTER]) ls)" and ?e = "fold editor_key (concat (map (\<lambda>l. l @ [KEY_ENTER]) ls)) editor0"
  obtain k0 where k0: "shell_init k = Some k0" "shell_rel (sh k0) editor0" using shell_init_rel [OF assms(1)] by blast
  obtain k1 where k1: "run shell_process_input ?keys k0 = Some k1" "shell_rel (sh k1) ?e"
    using editor_sim.run_refines [OF k0(2) legal_any, of ?keys] by blast
  have e: "e_text ?e = []" "e_hist ?e = last_n 50 (remdups_adj ls)" "e_idx ?e = -1" "e_line ?e = lead 15 (last ls)"
    using type_lines [of ls editor0] type_lines_last [of ls editor0] assms(2,3) log_lines
    by (simp_all add: list_all_iff editor0_def e_text_def Let_def)
  have "0 < length (e_hist ?e)" unfolding e(2) using assms(3) by simp
  then have ne: "e_hist ?e \<noteq> []" by (rule length_greater_0_conv [THEN iffD1])
  obtain k2 where k2: "shell_process_input KEY_UP k1 = Some k2" "shell_rel (sh k2) (e_up ?e)" using key_up [OF k1(2)] by auto
  obtain k3 where k3: "shell_process_input KEY_DOWN k2 = Some k3" "shell_rel (sh k3) (e_down (e_up ?e))" using key_down [OF k2(2)] by auto
  have 1: "cmd_pos (sh k1) = 0" using rel_pos [OF k1(2)] e(1) by simp
  have 2: "cstr (cmd_buffer (sh k2)) = hd (e_hist ?e)"
    using k2(2) up_from_line [OF e(3) ne] by (simp add: shell_rel_def e_show_def)
  have 3: "cstr (cmd_buffer (sh k3)) = lead 15 (last ls)" "cmd_pos (sh k3) = int (length (lead 15 (last ls)))"
    using k3(2) up_down_from_line [OF e(3) ne] e(4) by (simp_all add: shell_rel_def e_show_def e_text_def)
  show ?thesis using k0(1) k1(1) k2(1) k3(1) 1 2 3 unfolding e(2) by blast
qed

theorem recall_after_typed_lines_witness:
  "\<forall>k :: kshell. \<exists>k0 k1 k2 k3. shell_init (k\<lparr>sh := shell_boot\<rparr>) = Some k0
    \<and> run shell_process_input (concat (map (\<lambda>l. l @ [KEY_ENTER]) [''a'', ''b c''])) k0 = Some k1 \<and> cmd_pos (sh k1) = 0
    \<and> shell_process_input KEY_UP k1 = Some k2 \<and> cstr (cmd_buffer (sh k2)) = ''a''
    \<and> shell_process_input KEY_DOWN k2 = Some k3 \<and> cstr (cmd_buffer (sh k3)) = ''b''"
proof
  fix k :: kshell
  have l: "list_all typeable [''a'', ''b c'']" by (simp add: typeable_def)
  have "lead 15 ''b c'' = ''b''" by code_simp
  then show "\<exists>k0 k1 k2 k3. shell_init (k\<lparr>sh := shell_boot\<rparr>) = Some k0
    \<and> run shell_process_input (concat (map (\<lambda>l. l @ [KEY_ENTER]) [''a'', ''b c''])) k0 = Some k1 \<and> cmd_pos (sh k1) = 0
    \<and> shell_process_input KEY_UP k1 = Some k2 \<and> cstr (cmd_buffer (sh k2)) = ''a''
    \<and> shell_process_input KEY_DOWN k2 = Some k3 \<and> cstr (cmd_buffer (sh k3)) = ''b''"
    using recall_after_typed_lines [OF shell_boot_arrays l, of k] by auto
qed

end
