(* ===== verification/Keyboard.thy ===== *)
theory Keyboard
  imports Editor
begin

text \<open>
  The PS/2 keyboard (\<open>kernel/keyboard.c\<close>): the scan code table, the flush at start and the interrupt
  handler, which polls the controller until it is empty and passes the keys to the shell or the console.
  The controller is hardware: its answer to the \<open>n\<close>-th read of a port is a parameter of the state.
\<close>

abbreviation (input) PS2_DATA :: u16 where "PS2_DATA \<equiv> 0x60"
abbreviation (input) PS2_STATUS :: u16 where "PS2_STATUS \<equiv> 0x64"
abbreviation (input) PIC_MASTER_CMD :: u16 where "PIC_MASTER_CMD \<equiv> 0x20"

record port_device =
  answer :: "nat \<Rightarrow> u16 \<Rightarrow> u8"
  reads :: nat

record kkbd = kshell +
  dev :: port_device

definition inb :: "u16 \<Rightarrow> 'a kkbd_scheme \<Rightarrow> u8 \<times> 'a kkbd_scheme" where
  "inb port k = (answer (dev k) (reads (dev k)) port, k\<lparr>dev := (dev k)\<lparr>reads := reads (dev k) + 1\<rparr>\<rparr>)"

text \<open>The table of \<open>scancode_to_char\<close>, row by row.\<close>

definition scancode_map :: string where
  "scancode_map =
     [NUL, CHR 27] @ ''1234567890-='' @ [CHR 8]
     @ [CHR 9] @ ''qwertyuiop[]'' @ [CHR 0x0A, NUL]
     @ ''asdfghjkl;'' @ [CHR 0x27, CHR 0x60, NUL, CHR 0x5C]
     @ ''zxcvbnm,./'' @ [NUL, NUL, NUL, CHR '' '']"

definition scancode_to_char :: "u8 \<Rightarrow> char" where
  "scancode_to_char scancode =
     (if unat scancode < length scancode_map then scancode_map ! unat scancode else NUL)"

fun kbd_flush_loop :: "nat \<Rightarrow> 'a kkbd_scheme \<Rightarrow> 'a kkbd_scheme" where
  "kbd_flush_loop 0 k = k"
| "kbd_flush_loop (Suc n) k =
     (let (status, k) = inb PS2_STATUS k
      in if status AND 0x01 \<noteq> 0 then kbd_flush_loop n (snd (inb PS2_DATA k)) else k)"

definition kbd_flush :: "'a kkbd_scheme \<Rightarrow> 'a kkbd_scheme" where
  "kbd_flush k = kbd_flush_loop 256 k"

definition keyboard_init :: "'a kkbd_scheme \<Rightarrow> 'a kkbd_scheme" where
  "keyboard_init k = kbd_flush k"

text \<open>The two halves of the handler's body: the keys of the shell, and those of the bare console.\<close>

definition keyboard_shell_key :: "u8 \<Rightarrow> 'a kshell_scheme \<Rightarrow> 'a kshell_scheme option" where
  "keyboard_shell_key scancode k =
     (if scancode = 0x48 then shell_process_input (CHR 0x01) k
      else if scancode = 0x50 then shell_process_input (CHR 0x02) k
      else if scancode = 0x4B then shell_process_input (CHR 0x03) k
      else if scancode = 0x4D then shell_process_input (CHR 0x04) k
      else if scancode = 0x47 then shell_process_input (CHR 0x05) k
      else if scancode = 0x4F then shell_process_input (CHR 0x06) k
      else if scancode = 0x53 then shell_process_input (CHR 0x07) k
      else
        let c = scancode_to_char scancode
        in if c \<noteq> NUL then shell_process_input c k else Some k)"

definition keyboard_console_key :: "u8 \<Rightarrow> console \<Rightarrow> console" where
  "keyboard_console_key scancode s =
     (let s = (if scancode = 0x0E then
                 let col = get_cursor_col s
                 in if 0 < col
                    then set_cursor_col (col - 1) (print_char (CHR '' '') (set_cursor_col (col - 1) s))
                    else s
               else
                 let c = scancode_to_char scancode
                 in if c \<noteq> NUL then print_char c s else s)
      in if scancode = 0x48 then move_cursor_up s
         else if scancode = 0x50 then move_cursor_down s
         else if scancode = 0x4B then move_cursor_left s
         else if scancode = 0x4D then move_cursor_right s
         else s)"

definition keyboard_key :: "u8 \<Rightarrow> 'a kshell_scheme \<Rightarrow> 'a kshell_scheme option" where
  "keyboard_key scancode k =
     (if scancode AND 0x80 \<noteq> 0 then Some k
      else if 0x3B \<le> scancode \<and> scancode \<le> 0x3E then Some (on_con (vt_switch (uint scancode - 0x3B)) k)
      else if shell_is_active k then keyboard_shell_key scancode k
      else Some (on_con (keyboard_console_key scancode) k))"

text \<open>The polling loop may never find the controller empty; then it has no value.\<close>

partial_function (option) keyboard_loop :: "'a kkbd_scheme \<Rightarrow> 'a kkbd_scheme option" where
  "keyboard_loop k =
     (let (status, k) = inb PS2_STATUS k
      in if status AND 0x01 \<noteq> 0 then
           (let (scancode, k) = inb PS2_DATA k
            in case keyboard_key scancode k of None \<Rightarrow> None | Some k \<Rightarrow> keyboard_loop k)
         else Some k)"

definition keyboard_handler_c :: "'a kkbd_scheme \<Rightarrow> 'a kkbd_scheme option" where
  "keyboard_handler_c k =
     (case keyboard_loop k of
        None \<Rightarrow> None
      | Some k \<Rightarrow>
          Some (on_con (outb PIC_MASTER_CMD 0x20)
            (on_con (\<lambda>s. update_cursor (get_cursor_row s) (get_cursor_col s) s) k)))"

subsection \<open>Scan codes as keys of the editor\<close>

definition keys_of :: "u8 \<Rightarrow> char list" where
  "keys_of scancode =
     (if scancode AND 0x80 \<noteq> 0 \<or> (0x3B \<le> scancode \<and> scancode \<le> 0x3E) then []
      else if scancode = 0x48 then [KEY_UP] else if scancode = 0x50 then [KEY_DOWN]
      else if scancode = 0x4B then [KEY_LEFT] else if scancode = 0x4D then [KEY_RIGHT]
      else if scancode = 0x47 then [KEY_HOME] else if scancode = 0x4F then [KEY_END]
      else if scancode = 0x53 then [KEY_DEL]
      else if scancode_to_char scancode = NUL then [] else [scancode_to_char scancode])"

lemma keyboard_key_shell_only: "keyboard_key sc k = Some k' \<Longrightarrow> shell_only k k'"
  by (auto simp: keyboard_key_def keyboard_shell_key_def Let_def intro: shell_only_step shell_only_input split: if_splits)

lemma shell_only_more: "shell_only k k' \<Longrightarrow> kshell.more k' = kshell.more k"
  by (cases k; cases k') (auto simp: shell_only_def)

lemma shell_only_dev: "shell_only k k' \<Longrightarrow> dev k' = dev k" for k :: "'a kkbd_scheme"
  by (cases k; cases k') (auto simp: shell_only_def)

lemma one_key: "shell_rel (sh k) e \<Longrightarrow>
    \<exists>k'. shell_process_input c k = Some k' \<and> shell_rel (sh k') (fold editor_key [c] e)"
  using editor_sim.step [of k e c] by simp

lemma keyboard_key_rel:
  assumes rel: "shell_rel (sh k) e"
  shows "\<exists>k'. keyboard_key sc k = Some k' \<and> shell_rel (sh k') (fold editor_key (keys_of sc) e)"
proof -
  have act: "shell_is_active k" using rel_active [OF rel] by (simp add: shell_is_active_def)
  have "keys_of sc = [] \<or> (\<exists>c. keys_of sc = [c])" by (simp add: keys_of_def)
  then consider "keys_of sc = []" | c where "keys_of sc = [c]" by blast
  then show ?thesis
  proof cases
    case 1
    then have "\<exists>f. keyboard_key sc k = Some (on_con f k) \<or> keyboard_key sc k = Some k"
      using act by (auto simp: keyboard_key_def keyboard_shell_key_def keys_of_def Let_def split: if_splits)
    then show ?thesis using rel 1 by auto
  next
    case 2
    then have "keyboard_key sc k = shell_process_input c k"
      using act by (auto simp: keyboard_key_def keyboard_shell_key_def keys_of_def Let_def split: if_splits)
    then show ?thesis using one_key [OF rel, of c] 2 by simp
  qed
qed

subsection \<open>The polling loop\<close>

definition ready :: "port_device \<Rightarrow> nat \<Rightarrow> bool" where
  "ready d n \<longleftrightarrow> answer d n PS2_STATUS AND 0x01 \<noteq> 0"

abbreviation read_on :: "nat \<Rightarrow> 'a kkbd_scheme \<Rightarrow> 'a kkbd_scheme" where
  "read_on n k \<equiv> k\<lparr>dev := (dev k)\<lparr>reads := reads (dev k) + n\<rparr>\<rparr>"

lemma keyboard_loop_unfold:
  "keyboard_loop k =
     (if ready (dev k) (reads (dev k))
      then Option.bind (keyboard_key (answer (dev k) (reads (dev k) + 1) PS2_DATA) (read_on 2 k)) keyboard_loop
      else Some (read_on 1 k))"
  by (subst keyboard_loop.simps) (simp add: inb_def ready_def split: option.split)

text \<open>The controller holds the given bytes: it is ready before each of them and not after the last.\<close>

fun ps2_holds :: "u8 list \<Rightarrow> port_device \<Rightarrow> bool" where
  "ps2_holds [] d \<longleftrightarrow> \<not> ready d (reads d)"
| "ps2_holds (c # cs) d \<longleftrightarrow> ready d (reads d) \<and> answer d (reads d + 1) PS2_DATA = c
     \<and> ps2_holds cs (d\<lparr>reads := reads d + 2\<rparr>)"

lemma loop_drains:
  fixes k :: "'a kkbd_scheme"
  assumes "shell_rel (sh k) e" and "ps2_holds cs (dev k)"
  shows "\<exists>k'. keyboard_loop k = Some k' \<and> shell_rel (sh k') (fold editor_key (concat (map keys_of cs)) e)
    \<and> reads (dev k') = reads (dev k) + 2 * length cs + 1"
  using assms
proof (induction cs arbitrary: k e)
  case Nil
  then show ?case by (subst keyboard_loop_unfold) simp
next
  case (Cons c cs)
  have "shell_rel (sh (read_on 2 k)) e" using Cons.prems(1) by simp
  from keyboard_key_rel [OF this, of c] obtain k1 where
    k1: "keyboard_key c (read_on 2 k) = Some k1" "shell_rel (sh k1) (fold editor_key (keys_of c) e)" by blast
  have d: "dev k1 = (dev k)\<lparr>reads := reads (dev k) + 2\<rparr>"
    using shell_only_dev [OF keyboard_key_shell_only [OF k1(1)]] by simp
  have "ps2_holds cs (dev k1)" using Cons.prems(2) d by simp
  from Cons.IH [OF k1(2) this] show ?case
    using Cons.prems(2) k1(1) d by (subst keyboard_loop_unfold) auto
qed

lemma loop_returns:
  fixes k :: "'a kkbd_scheme"
  assumes "shell_rel (sh k) e" and "\<not> ready (dev k) (reads (dev k) + 2 * n)"
  shows "\<exists>k'. keyboard_loop k = Some k'"
  using assms
proof (induction n arbitrary: k e)
  case 0
  then show ?case by (subst keyboard_loop_unfold) simp
next
  case (Suc n)
  let ?c = "answer (dev k) (reads (dev k) + 1) PS2_DATA"
  have "shell_rel (sh (read_on 2 k)) e" using Suc.prems(1) by simp
  from keyboard_key_rel [OF this, of ?c] obtain k1 where
    k1: "keyboard_key ?c (read_on 2 k) = Some k1" "shell_rel (sh k1) (fold editor_key (keys_of ?c) e)" by blast
  have d: "dev k1 = (dev k)\<lparr>reads := reads (dev k) + 2\<rparr>"
    using shell_only_dev [OF keyboard_key_shell_only [OF k1(1)]] by simp
  have "\<not> ready (dev k1) (reads (dev k1) + 2 * n)" using Suc.prems(2) by (simp add: d ready_def)
  from Suc.IH [OF k1(2) this] show ?case
    using k1(1) by (subst keyboard_loop_unfold) simp
qed

lemma loop_returned:
  fixes k :: "'a kkbd_scheme"
  assumes "keyboard_loop k = Some k'"
  shows "\<exists>n. \<not> ready (dev k) (reads (dev k) + 2 * n)"
proof (rule keyboard_loop.raw_induct [OF _ assms])
  fix loop and k k' :: "'a kkbd_scheme"
  assume IH: "\<And>k k'. loop k = Some k' \<Longrightarrow> \<exists>n. \<not> ready (dev k) (reads (dev k) + 2 * n)"
    and body: "(let (status, k) = inb PS2_STATUS k
      in if status AND 0x01 \<noteq> 0 then
           (let (scancode, k) = inb PS2_DATA k
            in case keyboard_key scancode k of None \<Rightarrow> None | Some k \<Rightarrow> loop k)
         else Some k) = Some k'"
  show "\<exists>n. \<not> ready (dev k) (reads (dev k) + 2 * n)"
  proof (cases "ready (dev k) (reads (dev k))")
    case True
    then obtain k1 where k1: "keyboard_key (answer (dev k) (reads (dev k) + 1) PS2_DATA) (read_on 2 k) = Some k1"
        "loop k1 = Some k'"
      using body by (auto simp: inb_def ready_def split: option.splits)
    have d: "dev k1 = (dev k)\<lparr>reads := reads (dev k) + 2\<rparr>"
      using shell_only_dev [OF keyboard_key_shell_only [OF k1(1)]] by simp
    from IH [OF k1(2)] obtain n where "\<not> ready (dev k1) (reads (dev k1) + 2 * n)" by blast
    then show ?thesis by (intro exI [of _ "Suc n"]) (simp add: d ready_def)
  next
    case False
    then show ?thesis by (intro exI [of _ 0]) simp
  qed
qed

lemma shell_init_only: "shell_init k = Some k' \<Longrightarrow> shell_only k k'"
  unfolding shell_init_def Let_def
  by (auto simp: bind_eq_Some_conv intro!: shell_only_step)

lemma handler_loop: "keyboard_handler_c k = map_option (\<lambda>k. on_con (outb PIC_MASTER_CMD 0x20)
    (on_con (\<lambda>s. update_cursor (get_cursor_row s) (get_cursor_col s) s) k)) (keyboard_loop k)"
  by (simp add: keyboard_handler_c_def split: option.split)

lemma dev_on_con [simp]: "dev (on_con f k) = dev k" for k :: "'a kkbd_scheme"
  by (simp add: on_con_def)

subsection \<open>Properties\<close>

text \<open>C9: One keyboard interrupt after \<open>shell_init\<close>, whatever bytes the controller holds, takes exactly
  these bytes, applies the keys they stand for to the line editor (releases, function keys and unmapped
  codes stand for none) and acknowledges the interrupt to the controller last.\<close>

theorem keyboard_interrupt_drives_editor:
  fixes k :: "'a kkbd_scheme"
  assumes "shell_arrays (sh k)" and "ps2_holds cs (dev k)"
  shows "\<exists>k0 k'. shell_init k = Some k0 \<and> keyboard_handler_c k0 = Some k'
    \<and> shell_rel (sh k') (fold editor_key (concat (map keys_of cs)) editor0)
    \<and> reads (dev k') = reads (dev k) + 2 * length cs + 1
    \<and> last (io_out (con k')) = (0x20, 0x20)"
proof -
  obtain k0 where k0: "shell_init k = Some k0" "shell_rel (sh k0) editor0" using shell_init_rel [OF assms(1)] by blast
  have d: "dev k0 = dev k" using shell_only_dev [OF shell_init_only [OF k0(1)]] .
  from loop_drains [OF k0(2), of cs] assms(2) obtain k1 where
    k1: "keyboard_loop k0 = Some k1" "shell_rel (sh k1) (fold editor_key (concat (map keys_of cs)) editor0)"
      "reads (dev k1) = reads (dev k) + 2 * length cs + 1" by (auto simp: d)
  then show ?thesis using k0(1) by (auto simp: handler_loop outb_def)
qed

text \<open>A controller that holds the key codes of \<open>h\<close>, the release of \<open>h\<close>, and \<open>i\<close>.\<close>

definition dev_demo :: port_device where
  "dev_demo = \<lparr>answer = (\<lambda>n p. if p = 0x64 then (if n < 6 then 0x1D else 0x1C)
     else if n = 1 then 0x23 else if n = 3 then 0xA3 else 0x17), reads = 0\<rparr>"

theorem keyboard_interrupt_drives_editor_witness:
  "\<forall>k :: kkbd. \<exists>k0 k'. shell_init (k\<lparr>sh := shell_boot, dev := dev_demo\<rparr>) = Some k0
    \<and> keyboard_handler_c k0 = Some k' \<and> cstr (cmd_buffer (sh k')) = ''hi'' \<and> reads (dev k') = 7"
proof
  fix k :: kkbd
  let ?k = "k\<lparr>sh := shell_boot, dev := dev_demo\<rparr>"
  have a: "shell_arrays (sh ?k)" by (simp add: shell_arrays_def shell_boot_def)
  have h: "ps2_holds [0x23, 0xA3, 0x17] (dev ?k)" by (simp add: dev_demo_def ready_def)
  have e: "e_line (fold editor_key (concat (map keys_of [0x23, 0xA3, 0x17])) editor0) = ''hi''" by code_simp
  show "\<exists>k0 k'. shell_init ?k = Some k0 \<and> keyboard_handler_c k0 = Some k'
      \<and> cstr (cmd_buffer (sh k')) = ''hi'' \<and> reads (dev k') = 7"
    using keyboard_interrupt_drives_editor [OF a h] e by (auto simp: shell_rel_def dev_demo_def)
qed

text \<open>C12: With the shell running, the interrupt handler returns if and only if one of its polls finds
  the controller empty: a device that always has another byte keeps the kernel in the handler.\<close>

theorem keyboard_handler_returns_iff:
  fixes k :: "'a kkbd_scheme"
  assumes "shell_arrays (sh k)" and "shell_init k = Some k0"
  shows "(\<exists>k'. keyboard_handler_c k0 = Some k') \<longleftrightarrow> (\<exists>n. \<not> ready (dev k) (reads (dev k) + 2 * n))"
proof -
  have r: "shell_rel (sh k0) editor0" using shell_init_rel [OF assms(1)] assms(2) by auto
  have d: "dev k0 = dev k" using shell_only_dev [OF shell_init_only [OF assms(2)]] .
  show ?thesis using loop_returns [OF r] loop_returned [of k0] unfolding d by (auto simp: handler_loop)
qed

theorem keyboard_handler_returns_iff_witness:
  "\<forall>k :: kkbd. \<exists>k0. shell_init (k\<lparr>sh := shell_boot, dev := \<lparr>answer = (\<lambda>_ _. 1), reads = 0\<rparr>\<rparr>) = Some k0
    \<and> keyboard_handler_c k0 = None"
proof
  fix k :: kkbd
  let ?k = "k\<lparr>sh := shell_boot, dev := \<lparr>answer = (\<lambda>_ _. 1), reads = 0\<rparr>\<rparr>"
  have a: "shell_arrays (sh ?k)" by (simp add: shell_arrays_def shell_boot_def)
  obtain k0 where k0: "shell_init ?k = Some k0" using shell_init_rel [OF a] by blast
  have "\<not> (\<exists>n. \<not> ready (dev ?k) (reads (dev ?k) + 2 * n))" by (simp add: ready_def)
  then have "\<not> (\<exists>k'. keyboard_handler_c k0 = Some k')" using keyboard_handler_returns_iff [OF a k0] by blast
  then show "\<exists>k0. shell_init ?k = Some k0 \<and> keyboard_handler_c k0 = None" using k0 by auto
qed

end
