(* ===== verification/Kernel.thy ===== *)
theory Kernel
  imports Keyboard
begin

text \<open>
  The kernel's entry (\<open>kernel/kernel.c\<close>): \<open>kernel_init\<close> calls the initialisers of the components in
  order, and the demonstration processes and self tests that the file keeps beside it. A
  demonstration process gives up the processor at each \<open>process_yield\<close>, so its body is cut there:
  the pieces are what runs from one turn to the next. The delay loops have no effect on the state.
\<close>

text \<open>A product outside the range of \<open>int\<close> is undefined in C.\<close>

function compute_factorial :: "int \<Rightarrow> int option" where
  "compute_factorial n =
     (if n \<le> 1 then Some 1
      else case compute_factorial (n - 1) of
          None \<Rightarrow> None
        | Some f \<Rightarrow> if n * f < 2 ^ 31 then Some (n * f) else None)"
  by pat_completeness auto

termination
  by (relation "measure nat") auto

declare compute_factorial.simps [simp del]

subsection \<open>Processes\<close>

definition process_A_round :: "code_addr \<Rightarrow> u64 \<Rightarrow> nat \<Rightarrow> 'a ksched_scheme \<Rightarrow> 'a ksched_scheme option" where
  "process_A_round ca me i k = do {
     let k = printk (''[PID %d] A: iteration %d'' @ NL) [ArgW me, ArgW (of_nat i)] k;
     (ptr, k) \<leftarrow> malloc 64 k;
     k \<leftarrow> (if ptr \<noteq> 0 then free ptr (printk (''[PID %d] A: malloc OK'' @ NL) [ArgW me] k) else Some k);
     Some (process_yield ca k)
   }"

definition process_A_start :: "code_addr \<Rightarrow> 'a ksched_scheme \<Rightarrow> 'a ksched_scheme option" where
  "process_A_start ca k =
     (let me = get_current_pid k;
          k = printk (''[PID %d] Process A started'' @ NL) [ArgW me] k
      in process_A_round ca me 0 k)"

definition process_A_end :: "code_addr \<Rightarrow> u64 \<Rightarrow> 'a ksched_scheme \<Rightarrow> 'a ksched_scheme option" where
  "process_A_end ca me k = process_exit ca (printk (''[PID %d] Process A finished'' @ NL) [ArgW me] k)"

definition process_B_round :: "code_addr \<Rightarrow> u64 \<Rightarrow> nat \<Rightarrow> 'a ksched_scheme \<Rightarrow> 'a ksched_scheme option" where
  "process_B_round ca me i k = do {
     fact \<leftarrow> compute_factorial (int i + 1);
     let k = printk (''[PID %d] B: factorial(%d) = %d'' @ NL) [ArgW me, ArgW (of_nat i + 1), ArgW (of_int fact)] k;
     Some (process_yield ca k)
   }"

definition process_B_start :: "code_addr \<Rightarrow> 'a ksched_scheme \<Rightarrow> 'a ksched_scheme option" where
  "process_B_start ca k =
     (let me = get_current_pid k;
          k = printk (''[PID %d] Process B started'' @ NL) [ArgW me] k
      in process_B_round ca me 0 k)"

definition process_B_end :: "code_addr \<Rightarrow> u64 \<Rightarrow> 'a ksched_scheme \<Rightarrow> 'a ksched_scheme option" where
  "process_B_end ca me k = process_exit ca (printk (''[PID %d] Process B finished'' @ NL) [ArgW me] k)"

text \<open>One round of the endless loop of \<open>process_infinite\<close>, from the counter before it to the one after it
  (\<open>None\<close> when the counter would overflow).\<close>

definition process_infinite_round :: "code_addr \<Rightarrow> u64 \<Rightarrow> int \<Rightarrow> 'a ksched_scheme \<Rightarrow> (int \<times> 'a ksched_scheme) option" where
  "process_infinite_round ca me counter k =
     (let counter = counter + 1
      in if 2 ^ 31 \<le> counter then None
         else
           let k = (if counter mod 1000 = 0
                    then printk (''[PID %d] Heartbeat: %d'' @ NL) [ArgW me, ArgW (of_int counter)] k else k)
           in Some (counter, process_yield ca k))"

definition process_infinite_start :: "code_addr \<Rightarrow> 'a ksched_scheme \<Rightarrow> (int \<times> 'a ksched_scheme) option" where
  "process_infinite_start ca k =
     (let me = get_current_pid k;
          k = printk (''[PID %d] Background process started'' @ NL) [ArgW me] k
      in process_infinite_round ca me 0 k)"


subsection \<open>Tests\<close>

definition print_line :: "string \<Rightarrow> 'a kcon_scheme \<Rightarrow> 'a kcon_scheme" where
  "print_line s = on_con (print_str s)"

definition test_malloc_demo :: "'a kmem_scheme \<Rightarrow> 'a kmem_scheme option" where
  "test_malloc_demo k = do {
     let k = print_line (NL @ ''[TEST] Simple malloc demo:'' @ NL) k;
     (p1, k) \<leftarrow> malloc 64 k;
     (p2, k) \<leftarrow> malloc 128 k;
     let k = printk (''[TEST] malloc(64) -> 0x%016lx'' @ NL) [ArgW p1] k;
     let k = printk (''[TEST] malloc(128) -> 0x%016lx'' @ NL) [ArgW p2] k;
     if p1 = 0 \<or> p2 = 0 then Some (print_line (''[TEST] malloc FAILED'' @ NL) k)
     else do {
       let k = print_line (''[TEST] malloc OK'' @ NL) k;
       k \<leftarrow> free p1 k;
       free p2 k
     }
   }"

definition debug_scheduler_info :: "'a ksched_scheme \<Rightarrow> 'a ksched_scheme" where
  "debug_scheduler_info k =
     (let k = print_line (NL @ ''[SCHED] Debug information:'' @ NL) k;
          count = get_process_count k;
          k = printk (''[SCHED] Active processes: %d'' @ NL) [ArgW (of_nat count)] k
      in debug_print_processes k)"


subsection \<open>Start\<close>

text \<open>
  \<open>kernel_init\<close> up to its endless halt loop. \<open>sti\<close>, between the memory manager and the shell,
  enables interrupts; what the handlers do when one arrives are the theories of the devices.
\<close>

definition kernel_init :: "irq_addr \<Rightarrow> u64 \<Rightarrow> u64 \<Rightarrow> u64 \<Rightarrow> u64 \<Rightarrow> 'a kkbd_scheme \<Rightarrow> 'a kkbd_scheme option" where
  "kernel_init ia sc ec ed eb k =
     (let k = idt_init ia k;
          k = on_con console_init k;
          k = interrupt_init ia k;
          k = keyboard_init k;
          k = timer_init 100 k;
          k = print_line (NL @ ''========================================'' @ NL) k;
          k = print_line (''LightNightOS Kernel Initialized'' @ NL) k;
          k = print_line (''========================================'' @ NL @ NL) k;
          k = init_memory sc ec ed eb k
      in shell_init k)"

subsection \<open>What the initialisers leave alone\<close>

lemma e820_loop_more [simp]: "kmem.more (snd (e820_loop n i p t k)) = kmem.more k"
  by (induction n arbitrary: i p t k) (simp_all add: Let_def)

lemma init_memory_map_more [simp]: "kmem.more (init_memory_map k) = kmem.more k"
  by (simp add: init_memory_map_def Let_def split_beta del: e820_loop.simps)

lemma add_page_more: "kmem.more (fst (add_page pages j st)) = kmem.more (fst st)"
  by (cases st) (simp add: add_page_def Let_def)

lemma add_region_more: "kmem.more (fst (add_region pages e st)) = kmem.more (fst st)"
proof -
  have "kmem.more (fst (fold (\<lambda>n. add_page pages (f n)) ns st)) = kmem.more (fst st)" for f and ns :: "nat list"
    by (rule fold_inv [where P = "\<lambda>s. kmem.more (fst s) = kmem.more (fst st)"]) (simp_all add: add_page_more)
  then show ?thesis by (simp add: add_region_def)
qed

lemma init_heap_range_more [simp]: "kmem.more (init_heap_range k) = kmem.more k"
  by (simp add: init_heap_range_def Let_def)

lemma init_page_more [simp]:
  fixes k :: "'a kmem_scheme"
  shows "kmem.more (init_page k) = kmem.more k"
proof -
  have "kmem.more (fst (fold (\<lambda>i (k, page_index, current). add_region pages (e820 (mem k) i) (k, page_index, current)) ns st)) = kmem.more (fst st)"
    for pages ns and st :: "'a kmem_scheme \<times> u64 \<times> u64"
    by (rule fold_inv [where P = "\<lambda>s. kmem.more (fst s) = kmem.more (fst st)"]) (simp_all add: add_region_more split_beta)
  then show ?thesis
    by (simp add: init_page_def Let_def split_beta split: option.split)
qed

lemma init_memory_more [simp]: "kmem.more (init_memory sc ec ed eb k) = kmem.more k"
  by (simp add: init_memory_def Let_def)

lemma kkbd_more:
  fixes k :: "'a kkbd_scheme"
  assumes "kmem.more k' = kmem.more k"
  shows "sh k' = sh k" and "irqs k' = irqs k" and "dev k' = dev k"
  using assms by (cases k; cases k'; simp)+

lemma on_con_more: "kmem.more (on_con f k) = kmem.more k"
  by (simp add: on_con_def)

lemma flush_frame:
  fixes k :: "'a kkbd_scheme"
  shows "sh (kbd_flush_loop n k) = sh k \<and> irqs (kbd_flush_loop n k) = irqs k
    \<and> answer (dev (kbd_flush_loop n k)) = answer (dev k) \<and> reads (dev (kbd_flush_loop n k)) \<le> reads (dev k) + 2 * n"
proof (induction n arbitrary: k)
  case (Suc n)
  from Suc [of "snd (inb PS2_DATA (snd (inb PS2_STATUS k)))"] show ?case by (auto simp: inb_def split_beta Let_def)
qed simp

text \<open>The state \<open>kernel_init\<close> hands to the shell.\<close>

definition before_shell :: "irq_addr \<Rightarrow> u64 \<Rightarrow> u64 \<Rightarrow> u64 \<Rightarrow> u64 \<Rightarrow> 'a kkbd_scheme \<Rightarrow> 'a kkbd_scheme" where
  "before_shell ia sc ec ed eb k =
     init_memory sc ec ed eb
      (print_line (''========================================'' @ NL @ NL)
       (print_line (''LightNightOS Kernel Initialized'' @ NL)
        (print_line (NL @ ''========================================'' @ NL)
         (timer_init 100 (keyboard_init (interrupt_init ia (on_con console_init (idt_init ia k))))))))"

lemma kernel_init_form: "kernel_init ia sc ec ed eb k = shell_init (before_shell ia sc ec ed eb k)"
  by (simp add: kernel_init_def before_shell_def Let_def)

lemma timer_init_frame:
  fixes k :: "'a kkbd_scheme"
  shows "sh (timer_init n k) = sh k \<and> irqs (timer_init n k) = irqs k \<and> dev (timer_init n k) = dev k"
  by (simp add: timer_init_def Let_def)


lemma idt_init_sh:
  fixes k :: "'a kkbd_scheme"
  shows "sh (idt_init ia k) = sh k \<and> dev (idt_init ia k) = dev k"
proof -
  have "sh (fold f ns k0) = sh k0 \<and> dev (fold f ns k0) = dev k0"
    if "\<And>n k. sh (f n k) = sh k \<and> dev (f n k) = dev k" for f and ns :: "nat list" and k0 :: "'a kkbd_scheme"
    by (rule fold_inv [where P = "\<lambda>k. sh k = sh k0 \<and> dev k = dev k0"]) (simp_all add: that)
  then show ?thesis by (simp add: idt_init_def Let_def lidt_def idt_set_gate_def)
qed

lemma interrupt_init_sh:
  fixes k :: "'a kkbd_scheme"
  shows "sh (interrupt_init ia k) = sh k \<and> dev (interrupt_init ia k) = dev k"
  by (simp add: interrupt_init_def irq_idt_init_def irq_set_gate_def lidt_def Let_def)

lemma irqs_on_con [simp]: "irqs (on_con f k) = irqs k" and sh_on_con: "sh (on_con f k') = sh k'"
  for k :: "'a kirq_scheme" and k' :: "'b kshell_scheme"
  by (simp_all add: on_con_def)

lemma idt_init_irq_idt: "irq_idt (irqs (idt_init ia k)) = irq_idt (irqs k)"
  by (simp add: idt_init_def Let_def fold_gates fold_clear del: upt_rec_numeral)

lemma before_shell_frame:
  fixes k :: "'a kkbd_scheme"
  shows "sh (before_shell ia sc ec ed eb k) = sh k"
    and "irqs (before_shell ia sc ec ed eb k) = irqs (interrupt_init ia (on_con console_init (idt_init ia k)))"
    and "answer (dev (before_shell ia sc ec ed eb k)) = answer (dev k)"
    and "reads (dev (before_shell ia sc ec ed eb k)) \<le> reads (dev k) + 512"
proof -
  let ?k1 = "interrupt_init ia (on_con console_init (idt_init ia k))"
  let ?k2 = "timer_init 100 (keyboard_init ?k1)"
  have m: "kmem.more (before_shell ia sc ec ed eb k) = kmem.more ?k2"
    by (simp add: before_shell_def print_line_def on_con_more)
  note f = kkbd_more [OF m] timer_init_frame [of 100 "keyboard_init ?k1"] flush_frame [of 256 ?k1]
    interrupt_init_sh [of ia "on_con console_init (idt_init ia k)"] idt_init_sh [of ia k]
  show "sh (before_shell ia sc ec ed eb k) = sh k" "irqs (before_shell ia sc ec ed eb k) = irqs ?k1"
      "answer (dev (before_shell ia sc ec ed eb k)) = answer (dev k)"
      "reads (dev (before_shell ia sc ec ed eb k)) \<le> reads (dev k) + 512"
    using f by (simp_all add: keyboard_init_def kbd_flush_def sh_on_con del: kbd_flush_loop.simps)
qed

text \<open>C1: \<open>kernel_init\<close> brings the system up: it gets past every initialiser, leaves the shell with an
  empty line, the timer and the keyboard as the only interrupts the processor has gates for, and at
  most 256 bytes of the controller thrown away; and the first keyboard interrupt after it takes the
  bytes the controller holds and applies their keys to the line.\<close>

theorem kernel_init_starts_shell:
  fixes k :: "'a kkbd_scheme"
  assumes "shell_arrays (sh k)" and "irq_idt (irqs k) = (\<lambda>_. zero_entry_t)" and "idt_addr ia \<noteq> irq_idt_addr ia"
  shows "\<exists>k1. kernel_init ia sc ec ed eb k = Some k1 \<and> shell_rel (sh k1) editor0
    \<and> (\<forall>v. cpu_gate ia (irqs k1) v = (if v = 32 then Some (timer_handler_addr ia)
        else if v = 33 then Some (keyboard_handler_addr ia) else None))
    \<and> answer (dev k1) = answer (dev k) \<and> reads (dev k1) \<le> reads (dev k) + 512
    \<and> (\<forall>cs. ps2_holds cs (dev k1) \<longrightarrow> (\<exists>k2. keyboard_handler_c k1 = Some k2
        \<and> shell_rel (sh k2) (fold editor_key (concat (map keys_of cs)) editor0)))"
proof -
  let ?b = "before_shell ia sc ec ed eb k"
  have a: "shell_arrays (sh ?b)" using assms(1) before_shell_frame(1) by metis
  obtain k1 where k1: "shell_init ?b = Some k1" "shell_rel (sh k1) editor0" using shell_init_rel [OF a] by blast
  have o: "shell_only ?b k1" by (rule shell_init_only [OF k1(1)])
  have d: "dev k1 = dev ?b" by (rule shell_only_dev [OF o])
  have i: "irqs k1 = irqs ?b" using o by (cases ?b; cases k1) (auto simp: shell_only_def)
  have g: "cpu_gate ia (irqs k1) v = (if v = 32 then Some (timer_handler_addr ia)
        else if v = 33 then Some (keyboard_handler_addr ia) else None)" for v
    unfolding i before_shell_frame(2) by (rule interrupt_init_gates) (use assms(2,3) in \<open>simp_all add: idt_init_irq_idt\<close>)
  have h: "\<exists>k2. keyboard_handler_c k1 = Some k2 \<and> shell_rel (sh k2) (fold editor_key (concat (map keys_of cs)) editor0)"
    if "ps2_holds cs (dev k1)" for cs
    using loop_drains [OF k1(2) that] by (auto simp: handler_loop sh_on_con)
  show ?thesis
    unfolding kernel_init_form using k1 g h before_shell_frame(3,4) [of ia sc ec ed eb k] d by (intro exI [of _ k1]) simp
qed

text \<open>The state of the machine when the boot code jumps to \<open>kernel_init\<close>.\<close>

definition demo_start :: "kkbd \<Rightarrow> kkbd" where
  "demo_start k = k\<lparr>irqs := irq_boot \<lparr>limit = 0, base = 0\<rparr>, sh := shell_boot, dev := dev_demo\<rparr>"

theorem kernel_init_starts_shell_witness:
  "\<forall>k. \<exists>k1. kernel_init demo_irq_addr 0 0 0 0 (demo_start k) = Some k1 \<and> cstr (cmd_buffer (sh k1)) = []
    \<and> cpu_gate demo_irq_addr (irqs k1) 33 = Some (keyboard_handler_addr demo_irq_addr)"
proof
  fix k
  have a: "shell_arrays (sh (demo_start k))" "irq_idt (irqs (demo_start k)) = (\<lambda>_. zero_entry_t)"
      "idt_addr demo_irq_addr \<noteq> irq_idt_addr demo_irq_addr"
    by (simp_all add: demo_start_def shell_arrays_def shell_boot_def irq_boot_def demo_irq_addr_def)
  from kernel_init_starts_shell [OF a, of 0 0 0 0]
  show "\<exists>k1. kernel_init demo_irq_addr 0 0 0 0 (demo_start k) = Some k1 \<and> cstr (cmd_buffer (sh k1)) = []
      \<and> cpu_gate demo_irq_addr (irqs k1) 33 = Some (keyboard_handler_addr demo_irq_addr)"
    by (auto simp: shell_rel_def editor0_def)
qed

subsection \<open>The demonstration processes\<close>

lemma factorial_small: "n \<le> 12 \<Longrightarrow> compute_factorial (int n) = Some (fact n)"
proof (induction n)
  case 0
  show ?case by (subst compute_factorial.simps) simp
next
  case (Suc n)
  have "(fact (Suc n) :: int) \<le> fact 12" using Suc.prems by (intro fact_mono) simp
  also have "(fact 12 :: int) < 2 ^ 31" by (simp add: fact_numeral)
  finally have b: "(fact (Suc n) :: int) < 2 ^ 31" .
  show ?case
  proof (cases "n = 0")
    case True
    then show ?thesis by (subst compute_factorial.simps) simp
  next
    case False
    with Suc b show ?thesis by (subst compute_factorial.simps) (simp add: algebra_simps)
  qed
qed

lemma factorial_large: "12 < n \<Longrightarrow> compute_factorial (int n) = None"
proof (induction n)
  case (Suc n)
  show ?case
  proof (cases "n = 12")
    case True
    have "compute_factorial 12 = Some (fact 12)" using factorial_small [of 12] by simp
    then show ?thesis using True by (subst compute_factorial.simps) (simp add: fact_numeral)
  next
    case False
    with Suc show ?thesis by (subst compute_factorial.simps) simp
  qed
qed simp

text \<open>\<open>compute_factorial\<close> computes the factorial up to 12, and from 13 on a product overflows \<open>int\<close>.\<close>

theorem compute_factorial_is_fact:
  "compute_factorial (int n) = (if n \<le> 12 then Some (fact n) else None)"
  using factorial_small factorial_large by simp

lemma sched_inv_printk: "sched_inv a (printk f as k) = sched_inv a k" for k :: "'a ksched_scheme"
  using heap_rel_mem [of "printk f as k" k] by (simp add: sched_inv_def)

text \<open>A process that takes a buffer and gives it back before it yields.\<close>

lemma scratch_turn:
  fixes k :: "'a ksched_scheme"
  assumes "sched_inv a k" and "n < 2 ^ 64"
  obtains p k1 where "malloc (of_nat n) k = Some (p, k1)" "sched_inv a k1"
    "p = 0 \<or> (\<exists>k2. free p (printk f as k1) = Some k2 \<and> sched_inv a k2)"
proof -
  obtain st where st: "heap_rel a k st" "stacks_ok (heap_owned a st) (sch k)" and ok: "slots_ok (sch k)" "current_ok (sch k)"
    using assms(1) by (auto simp: sched_inv_def)
  obtain p k1 st1 where m: "malloc (of_nat n) k = Some (p, k1)" "heap_rel a k1 st1"
      "p = 0 \<and> heap_owned a st1 = heap_owned a st
        \<or> p \<noteq> 0 \<and> (\<exists>l\<ge>n. (p, l) \<notin> heap_owned a st \<and> heap_owned a st1 = insert (p, l) (heap_owned a st))"
    using kheap.alloc_law [OF st(1) assms(2)] by blast
  have s1: "sch k1 = sch k" using ksched_more [OF malloc_more [OF m(1)]] by simp
  have "heap_owned a st \<subseteq> heap_owned a st1" using m(3) by blast
  then have "stacks_ok (heap_owned a st1) (sch k)" using st(2) unfolding stacks_ok_def by blast
  then have inv1: "sched_inv a k1" using m(2) ok unfolding sched_inv_def s1 by blast
  have "\<exists>k2. free p (printk f as k1) = Some k2 \<and> sched_inv a k2" if "p \<noteq> 0"
  proof -
    from m(3) that obtain l where l: "(p, l) \<notin> heap_owned a st" "heap_owned a st1 = insert (p, l) (heap_owned a st)" by blast
    have h: "heap_rel a (printk f as k1) st1" using m(2) heap_rel_mem [of "printk f as k1" k1] by simp
    obtain k2 st2 where k2: "free p (printk f as k1) = Some k2" "heap_rel a k2 st2" "heap_owned a st2 = heap_owned a st1 - {(p, l)}"
      using kheap.dealloc_law [OF h, of p l] l(2) by auto
    have "sch k2 = sch k" using ksched_more [OF free_more [OF k2(1)]] s1 by simp
    moreover have "heap_owned a st2 = heap_owned a st" using k2(3) l by auto
    ultimately have "sched_inv a k2" using k2(2) st(2) ok unfolding sched_inv_def by metis
    with k2(1) show ?thesis by blast
  qed
  then show thesis using that [OF m(1) inv1] by blast
qed



end
