(* ===== verification/Slots.thy ===== *)
theory Slots
  imports Heap
begin

text \<open>
  Tables of entries searched from the first one on, as every table of the file system is, and the
  contract of its two caches: an entry stays taken until it is explicitly removed.
\<close>

text \<open>The search loops: the first entry that satisfies a condition.\<close>

definition find_slot :: "('e \<Rightarrow> bool) \<Rightarrow> 'e list \<Rightarrow> nat option" where
  "find_slot P xs = find (\<lambda>i. P (xs ! i)) [0..<length xs]"

subsection \<open>Caches whose entries are pinned\<close>

text \<open>
  The table of a cache as pairs of a key and a reference count. An entry is taken for a key when it
  is first used, every further use counts up, and only an explicit removal gives the entry back.
  The block cache and the inode cache both keep this contract.
\<close>

type_synonym slots = "(u32 \<times> nat) list"

definition pins_ok :: "slots \<Rightarrow> bool" where
  "pins_ok xs \<longleftrightarrow> (\<forall>i<length xs. snd (xs ! i) = 0 \<longleftrightarrow> fst (xs ! i) = 0xFFFFFFFF)
     \<and> (\<forall>i<length xs. \<forall>j<length xs. fst (xs ! i) = fst (xs ! j) \<longrightarrow> i = j \<or> fst (xs ! i) = 0xFFFFFFFF)"

definition held :: "u32 \<Rightarrow> slots \<Rightarrow> bool" where
  "held n xs \<longleftrightarrow> (\<exists>r>0. (n, r) \<in> set xs)"

definition full :: "slots \<Rightarrow> bool" where
  "full xs \<longleftrightarrow> (\<forall>e\<in>set xs. 0 < snd e)"

definition pin :: "u32 \<Rightarrow> slots \<Rightarrow> slots" where
  "pin n xs = (case find_slot (\<lambda>e. fst e = n \<and> 0 < snd e) xs of
      Some i \<Rightarrow> xs[i := (n, snd (xs ! i) + 1)]
    | None \<Rightarrow> (case find_slot (\<lambda>e. snd e = 0) xs of Some i \<Rightarrow> xs[i := (n, 1)] | None \<Rightarrow> xs))"

definition unpin :: "u32 \<Rightarrow> slots \<Rightarrow> slots" where
  "unpin n xs = (case find_slot (\<lambda>e. fst e = n) xs of Some i \<Rightarrow> xs[i := (0xFFFFFFFF, 0)] | None \<Rightarrow> xs)"

lemma find_slot_Some: "find_slot P xs = Some i \<Longrightarrow> i < length xs \<and> P (xs ! i) \<and> (\<forall>j<i. \<not> P (xs ! j))"
  by (auto simp: find_slot_def find_Some_iff)

lemma find_slot_None: "find_slot P xs = None \<longleftrightarrow> (\<forall>e\<in>set xs. \<not> P e)"
  by (force simp: find_slot_def find_None_iff in_set_conv_nth)

lemma find_slot_cong: "length xs = length ys \<Longrightarrow> (\<And>i. i < length xs \<Longrightarrow> P (xs ! i) = Q (ys ! i)) \<Longrightarrow> find_slot P xs = find_slot Q ys"
  unfolding find_slot_def by (rule find_cong) auto

lemma find_slot_map: "find_slot P (map f xs) = find_slot (P \<circ> f) xs"
  by (rule find_slot_cong) auto

lemma held_nth: "held n xs \<longleftrightarrow> (\<exists>i<length xs. fst (xs ! i) = n \<and> 0 < snd (xs ! i))"
  unfolding held_def in_set_conv_nth by (metis fst_conv snd_conv prod.collapse)

lemma pins_ok_set:
  assumes "pins_ok xs" and "i < length xs" and "(r = 0) = (n = 0xFFFFFFFF)"
    and "\<And>j. j < length xs \<Longrightarrow> j \<noteq> i \<Longrightarrow> fst (xs ! j) = n \<Longrightarrow> n = 0xFFFFFFFF"
  shows "pins_ok (xs[i := (n, r)])"
  unfolding pins_ok_def
proof (intro conjI allI impI)
  fix j assume j: "j < length (xs[i := (n, r)])"
  show "snd (xs[i := (n, r)] ! j) = 0 \<longleftrightarrow> fst (xs[i := (n, r)] ! j) = 0xFFFFFFFF"
    using assms(1,3) j by (cases "j = i") (simp_all add: pins_ok_def)
  fix l assume l: "l < length (xs[i := (n, r)])" and e: "fst (xs[i := (n, r)] ! j) = fst (xs[i := (n, r)] ! l)"
  show "j = l \<or> fst (xs[i := (n, r)] ! j) = 0xFFFFFFFF"
  proof (cases "j = i \<or> l = i")
    case True
    then show ?thesis using assms(2,4) j l e by (cases "j = l") (auto simp: nth_list_update split: if_splits)
  next
    case False
    then show ?thesis using assms(1) j l e by (simp add: pins_ok_def)
  qed
qed

lemma pins_ok_pin:
  assumes "pins_ok xs" and "n \<noteq> 0xFFFFFFFF"
  shows "pins_ok (pin n xs)"
proof (cases "find_slot (\<lambda>e. fst e = n \<and> 0 < snd e) xs")
  case (Some i)
  note i = find_slot_Some [OF Some]
  have "pins_ok (xs[i := (n, snd (xs ! i) + 1)])"
    using i assms by (intro pins_ok_set) (auto simp: pins_ok_def)
  then show ?thesis by (simp add: pin_def Some)
next
  case None
  then have no: "\<forall>e\<in>set xs. \<not> (fst e = n \<and> 0 < snd e)" by (simp add: find_slot_None)
  show ?thesis
  proof (cases "find_slot (\<lambda>e. snd e = 0) xs")
    case (Some i)
    note i = find_slot_Some [OF Some]
    have "fst (xs ! j) \<noteq> n" if "j < length xs" for j
      using that no assms nth_mem [OF that] by (auto simp: pins_ok_def)
    then have "pins_ok (xs[i := (n, 1)])"
      using i assms by (intro pins_ok_set) auto
    then show ?thesis by (simp add: pin_def None Some)
  qed (use assms in \<open>simp add: pin_def None\<close>)
qed

lemma pins_ok_unpin:
  assumes "pins_ok xs"
  shows "pins_ok (unpin n xs)"
proof (cases "find_slot (\<lambda>e. fst e = n) xs")
  case (Some i)
  have "pins_ok (xs[i := (0xFFFFFFFF, 0)])"
    using find_slot_Some [OF Some] assms by (intro pins_ok_set) auto
  then show ?thesis by (simp add: unpin_def Some)
qed (use assms in \<open>simp add: unpin_def\<close>)

lemma length_pin [simp]: "length (pin n xs) = length xs" "length (unpin n xs) = length xs"
  by (auto simp: pin_def unpin_def split: option.split)

lemma pin_full:
  assumes "full xs" and "\<not> held n xs"
  shows "pin n xs = xs"
proof -
  have "find_slot (\<lambda>e. fst e = n \<and> 0 < snd e) xs = None"
    unfolding find_slot_None using assms(2) unfolding held_def by (metis prod.collapse)
  moreover have "find_slot (\<lambda>e. snd e = 0) xs = None"
    unfolding find_slot_None using assms(1) unfolding full_def by (metis less_numeral_extra(3))
  ultimately have "find_slot (\<lambda>e. fst e = n \<and> 0 < snd e) xs = None" "find_slot (\<lambda>e. snd e = 0) xs = None" .
  then show ?thesis by (simp add: pin_def)
qed

lemma pin_full_keys:
  assumes "full xs"
  shows "full (pin n xs) \<and> map fst (pin n xs) = map fst xs"
proof (cases "find_slot (\<lambda>e. fst e = n \<and> 0 < snd e) xs")
  case (Some i)
  note i = find_slot_Some [OF Some]
  have "map fst (pin n xs) = map fst xs"
    using i by (auto simp: pin_def Some map_update list_update_same_conv)
  moreover have "full (pin n xs)"
    using assms i by (auto simp: pin_def Some full_def dest!: subsetD [OF set_update_subset_insert])
  ultimately show ?thesis by simp
next
  case None
  then have "\<not> held n xs" by (force simp: find_slot_None held_def)
  with pin_full [OF assms] assms show ?thesis by simp
qed

lemma held_full_keys: "full xs \<Longrightarrow> held n xs \<longleftrightarrow> n \<in> fst ` set xs"
  unfolding held_def full_def by (auto intro: rev_image_eqI)

lemma pin_refs:
  assumes "\<forall>e\<in>set xs. snd e \<le> m" and "1 \<le> Suc m"
  shows "\<forall>e\<in>set (pin n xs). snd e \<le> Suc m"
proof -
  have "\<forall>e\<in>set (xs[i := (n, snd (xs ! i) + 1)]). snd e \<le> Suc m" if "i < length xs" for i
    using assms that by (auto dest!: subsetD [OF set_update_subset_insert] intro: le_SucI)
  moreover have "\<forall>e\<in>set (xs[i := (n, 1)]). snd e \<le> Suc m" for i
    using assms by (auto dest!: subsetD [OF set_update_subset_insert] intro: le_SucI)
  ultimately show ?thesis
    using assms by (auto simp: pin_def split: option.split dest!: find_slot_Some)
qed

datatype 'o cache_op = Pin 'o | Unpin u32

fun cache_step :: "('o \<Rightarrow> 's \<Rightarrow> bool \<times> 's) \<Rightarrow> (u32 \<Rightarrow> 's \<Rightarrow> 's) \<Rightarrow> 'o cache_op \<Rightarrow> 's \<Rightarrow> 's" where
  "cache_step use remove (Pin p) s = snd (use p s)"
| "cache_step use remove (Unpin n) s = remove n s"

fun slots_step :: "('o \<Rightarrow> u32) \<Rightarrow> 'o cache_op \<Rightarrow> slots \<Rightarrow> slots" where
  "slots_step key (Pin p) xs = pin (key p) xs"
| "slots_step key (Unpin n) xs = unpin n xs"

fun op_legal :: "('o \<Rightarrow> bool) \<Rightarrow> u32 \<Rightarrow> 'o cache_op \<Rightarrow> bool" where
  "op_legal ok lim (Pin p) \<longleftrightarrow> ok p"
| "op_legal ok lim (Unpin n) \<longleftrightarrow> n < lim"

locale pin_cache =
  fixes slots :: "'s \<Rightarrow> slots"
    and good :: "'s \<Rightarrow> bool"
    and lim :: u32
    and ok :: "'o \<Rightarrow> bool"
    and key :: "'o \<Rightarrow> u32"
    and use :: "'o \<Rightarrow> 's \<Rightarrow> bool \<times> 's"
    and remove :: "u32 \<Rightarrow> 's \<Rightarrow> 's"
  assumes ok_key: "ok p \<Longrightarrow> key p < lim"
    and use_law: "good s \<Longrightarrow> pins_ok (slots s) \<Longrightarrow> \<forall>e\<in>set (slots s). snd e < 2 ^ 32 - 1 \<Longrightarrow> ok p
      \<Longrightarrow> good (snd (use p s)) \<and> slots (snd (use p s)) = pin (key p) (slots s)
        \<and> (fst (use p s) \<longleftrightarrow> held (key p) (slots s) \<or> \<not> full (slots s))"
    and remove_law: "good s \<Longrightarrow> pins_ok (slots s) \<Longrightarrow> n < lim
      \<Longrightarrow> good (remove n s) \<and> slots (remove n s) = unpin n (slots s)"
begin

text \<open>As long as no count can wrap, the table follows the abstract one and stays well formed.\<close>

lemma run_follows:
  assumes "good s" and "pins_ok (slots s)" and "\<forall>e\<in>set (slots s). snd e \<le> m" and "m + length es < 2 ^ 32"
    and "\<forall>e\<in>set es. op_legal ok lim e"
  shows "good (fold (cache_step use remove) es s)
    \<and> slots (fold (cache_step use remove) es s) = fold (slots_step key) es (slots s)
    \<and> pins_ok (fold (slots_step key) es (slots s))
    \<and> (\<forall>e\<in>set (fold (slots_step key) es (slots s)). snd e \<le> m + length es)"
  using assms
proof (induction es arbitrary: s m)
  case (Cons e es)
  have lim: "\<not> 0xFFFFFFFF < lim" using unsigned_less [of lim, where ?'a = nat] by (simp add: word_less_nat_alt)
  have refs: "\<forall>e\<in>set (slots s). snd e < 2 ^ 32 - 1" using Cons.prems(3,4) by fastforce
  let ?s = "cache_step use remove e s" and ?xs = "slots_step key e (slots s)"
  have s: "good ?s \<and> slots ?s = ?xs \<and> pins_ok ?xs \<and> (\<forall>x\<in>set ?xs. snd x \<le> Suc m)"
  proof (cases e)
    case (Pin p)
    then have "ok p" using Cons.prems(5) by simp
    moreover from ok_key [OF this] lim have "key p \<noteq> 0xFFFFFFFF" by auto
    ultimately show ?thesis
      using use_law [OF Cons.prems(1,2) refs, of p] pins_ok_pin [OF Cons.prems(2)] pin_refs [OF Cons.prems(3)] by (simp add: Pin)
  next
    case (Unpin n)
    then have "n < lim" using Cons.prems(5) by simp
    moreover have "\<forall>x\<in>set (unpin n (slots s)). snd x \<le> Suc m"
      using Cons.prems(3) by (auto simp: unpin_def le_Suc_eq split: option.split dest!: subsetD [OF set_update_subset_insert])
    ultimately show ?thesis
      using remove_law [OF Cons.prems(1,2), of n] pins_ok_unpin [OF Cons.prems(2)] by (simp add: Unpin)
  qed
  have "pins_ok (slots ?s)" "\<forall>x\<in>set (slots ?s). snd x \<le> Suc m" using s by simp_all
  from Cons.IH [OF _ this] s Cons.prems(4,5) show ?case by simp
qed simp

text \<open>A full cache refuses every other key for ever: nothing but an explicit removal frees an entry.\<close>

lemma full_refuses:
  assumes "good s" and "pins_ok (slots s)" and "\<forall>e\<in>set (slots s). snd e \<le> m" and "m + length ps < 2 ^ 32 - 1"
    and "\<forall>p\<in>set ps. ok p" and "full (slots s)" and "key q \<notin> fst ` set (slots s)" and "ok q"
  shows "\<not> fst (use q (fold (cache_step use remove) (map Pin ps) s))"
proof -
  let ?s = "fold (cache_step use remove) (map Pin ps) s" and ?xs = "fold (slots_step key) (map Pin ps) (slots s)"
  have r: "good ?s" "slots ?s = ?xs" "pins_ok ?xs" "\<forall>e\<in>set ?xs. snd e \<le> m + length ps"
    using run_follows [OF assms(1-3), of "map Pin ps"] assms(4,5) by auto
  have "full ?xs \<and> map fst ?xs = map fst (slots s)"
    using assms(6) pin_full_keys by (induction ps rule: rev_induct) auto
  then have k: "full ?xs" "key q \<notin> fst ` set ?xs" using assms(7) by (simp, metis list.set_map)
  have "pins_ok (slots ?s)" "\<forall>e\<in>set (slots ?s). snd e < 2 ^ 32 - 1"
    using r assms(4) by fastforce+
  from use_law [OF r(1) this assms(8)] k show ?thesis by (simp add: r(2) held_full_keys)
qed

end

text \<open>Taking different keys one after the other fills the table in order.\<close>

lemma pins_fill:
  assumes "distinct ns" and "\<forall>n\<in>set ns. n \<noteq> 0xFFFFFFFF" and "length ns \<le> N"
  shows "fold pin ns (replicate N (0xFFFFFFFF, 0)) = map (\<lambda>n. (n, 1)) ns @ replicate (N - length ns) (0xFFFFFFFF, 0)"
  using assms
proof (induction ns rule: rev_induct)
  case (snoc n ns)
  let ?xs = "map (\<lambda>n. (n, 1 :: nat)) ns @ replicate (N - length ns) (0xFFFFFFFF :: u32, 0)"
  have len: "length ns < N" using snoc.prems by simp
  have h: "find_slot (\<lambda>e. fst e = n \<and> 0 < snd e) ?xs = None"
    unfolding find_slot_None using snoc.prems by auto
  have f: "find_slot (\<lambda>e. snd e = 0) ?xs = Some (length ns)"
    unfolding find_slot_def find_Some_iff
    using len by (intro exI [of _ "length ns"]) (auto simp: nth_append)
  have "replicate (N - length ns) (0xFFFFFFFF :: u32, 0 :: nat) = (0xFFFFFFFF, 0) # replicate (N - Suc (length ns)) (0xFFFFFFFF, 0)"
    using len by (metis Suc_diff_Suc replicate_Suc)
  then have "pin n ?xs = map (\<lambda>n. (n, 1)) (ns @ [n]) @ replicate (N - length (ns @ [n])) (0xFFFFFFFF, 0)"
    unfolding pin_def h option.case f by (simp add: list_update_append)
  then show ?case using snoc by simp
qed simp

end
