(* ===== verification/Buffers.thy ===== *)
theory Buffers
  imports Slots
begin

text \<open>
  What a component that keeps its data in buffers of the heap relies on: the allocator's contract and
  that the owner of a buffer may write it. The file system is the client.
\<close>

locale buffer_store = allocator R owned bytes alloc dealloc
  for R :: "'s \<Rightarrow> 'g \<Rightarrow> bool" and owned :: "'g \<Rightarrow> (u64 \<times> nat) set" and bytes :: "'s \<Rightarrow> ram"
    and alloc :: "nat \<Rightarrow> 's \<Rightarrow> (u64 \<times> 's) option" and dealloc :: "u64 \<Rightarrow> 's \<Rightarrow> 's option" +
  fixes poke :: "ram \<Rightarrow> 's \<Rightarrow> 's"
  assumes bytes_poke: "bytes (poke m s) = m"
    and poke_law: "R s g \<Longrightarrow> (\<And>x. m x \<noteq> bytes s x \<Longrightarrow> \<exists>(q, l)\<in>owned g. x \<in> span q l) \<Longrightarrow> R (poke m s) g"
begin

text \<open>Writing one buffer keeps the bytes of every other.\<close>

lemma write_buffer:
  assumes "R s g" and "(p, l) \<in> owned g" and "\<And>x. x \<notin> span p l \<Longrightarrow> m x = bytes s x"
  shows "R (poke m s) g" and "(q, j) \<in> owned g \<Longrightarrow> (q, j) \<noteq> (p, l) \<Longrightarrow> x \<in> span q j \<Longrightarrow> bytes (poke m s) x = bytes s x"
proof -
  show "R (poke m s) g"
    using assms(1) by (rule poke_law) (use assms(2,3) in blast)
  show "bytes (poke m s) x = bytes s x" if "(q, j) \<in> owned g" "(q, j) \<noteq> (p, l)" "x \<in> span q j"
    using disjoint [OF assms(1) that(1) assms(2) that(2)] that(3) assms(3) by (auto simp: bytes_poke)
qed

text \<open>A new buffer, filled at once: whatever is written there, the old buffers keep their bytes.\<close>

lemma alloc_and_fill:
  assumes "R s g" and "n < 2 ^ 64"
  shows "\<exists>p s1 g1. alloc n s = Some (p, s1) \<and> R s1 g1 \<and> owned g \<subseteq> owned g1
    \<and> (\<forall>(q, l)\<in>owned g. \<forall>x\<in>span q l. bytes s1 x = bytes s x)
    \<and> (p = 0 \<and> owned g1 = owned g \<or> p \<noteq> 0 \<and> (\<exists>l\<ge>n. (p, l) \<notin> owned g \<and> owned g1 = insert (p, l) (owned g)
        \<and> (\<forall>m. (\<forall>x. x \<notin> span p n \<longrightarrow> m x = bytes s1 x) \<longrightarrow> R (poke m s1) g1
             \<and> (\<forall>(q, j)\<in>owned g. \<forall>x\<in>span q j. m x = bytes s x))))"
proof -
  obtain p s1 g1 where a: "alloc n s = Some (p, s1)" "R s1 g1"
      "\<forall>(q, l)\<in>owned g. \<forall>x\<in>span q l. bytes s1 x = bytes s x"
      "p = 0 \<and> owned g1 = owned g \<or> p \<noteq> 0 \<and> (\<exists>m\<ge>n. (p, m) \<notin> owned g \<and> owned g1 = insert (p, m) (owned g))"
    using alloc_law [OF assms] by blast
  show ?thesis
  proof (cases "p = 0")
    case False
    with a(4) obtain l where l: "n \<le> l" "(p, l) \<notin> owned g" "owned g1 = insert (p, l) (owned g)" by blast
    have "R (poke m s1) g1 \<and> (\<forall>(q, j)\<in>owned g. \<forall>x\<in>span q j. m x = bytes s x)"
      if m: "\<forall>x. x \<notin> span p n \<longrightarrow> m x = bytes s1 x" for m
    proof -
      have out: "m x = bytes s1 x" if "x \<notin> span p l" for x using that m span_mono [OF l(1), of p] by blast
      have pl: "(p, l) \<in> owned g1" using l(3) by simp
      have "m x = bytes s x" if q: "(q, j) \<in> owned g" "x \<in> span q j" for q j x
      proof -
        have "(q, j) \<in> owned g1" "(q, j) \<noteq> (p, l)" using q(1) l(2,3) by auto
        from write_buffer(2) [OF a(2) pl out this q(2)] have "m x = bytes s1 x" by (simp add: bytes_poke)
        then show ?thesis using a(3) q by auto
      qed
      with write_buffer(1) [OF a(2) pl out] show ?thesis by blast
    qed
    with a False l show ?thesis by blast
  qed (use a in blast)
qed

end

lemma heap_inv_write:
  assumes inv: "heap_inv g a bs ds" and m: "\<And>x. m x \<noteq> ram g x \<Longrightarrow> x \<in> payload a bs"
  shows "heap_inv (g\<lparr>ram := m\<rparr>) a bs ds"
proof -
  have top: "a + hlen bs \<le> 2 ^ 64" and ok: "descs_ok ds a (heap_top a bs ds)" and le: "heap_top a bs ds \<le> 2 ^ 64"
    using inv by (simp_all add: heap_inv_def)
  have h: "m x = ram g x" if "x \<in> headers a bs" for x
    using m payload_headers [OF top] that by blast
  have d: "m x = ram g x" if "x \<in> desc_cells ds" for x
  proof -
    obtain e where e: "e \<in> set ds" "x \<in> span (of_nat e) 24" using \<open>x \<in> desc_cells ds\<close> by (auto simp: desc_cells_def)
    have "span (of_nat e) 24 \<inter> span (of_nat a :: u64) (hlen bs) = {}"
      using descs_ok_apart [OF ok e(1) order_refl _ le, of "hlen bs"] by simp
    then have "x \<notin> payload a bs" using e(2) payload_within [OF top] by blast
    then show ?thesis using m by blast
  qed
  show ?thesis
    using inv hseg_agree [of "ram g" a bs 0 m] pseg_agree [of "ram g" ds _ _ m] h d by (simp add: heap_inv_def)
qed

interpretation kstore: buffer_store "heap_rel a" "heap_owned a" kram "\<lambda>n. malloc (of_nat n)" free set_ram for a
proof unfold_locales
  show "kram (set_ram m k) = m" for m and k :: "'a kmem_scheme" by simp
next
  fix k :: "'a kmem_scheme" and st m
  assume "heap_rel a k st" and w: "\<And>x. m x \<noteq> kram k x \<Longrightarrow> \<exists>(q, l)\<in>heap_owned a st. x \<in> span q l"
  then obtain bs ds where st: "st = (bs, length ds)" and inv: "heap_inv (mem k) a bs ds"
    by (cases st) (auto simp: heap_rel_def)
  have "heap_inv ((mem k)\<lparr>ram := m\<rparr>) a bs ds"
    using inv by (rule heap_inv_write) (use w heap_owned_bytes [of _ a bs "length ds"] in \<open>auto simp: st\<close>)
  then show "heap_rel a (set_ram m k) st" by (auto simp: heap_rel_def st)
qed

end
