(* ===== verification/Block.thy ===== *)
theory Block
  imports Buffers
begin

text \<open>
  The block layer of the file system (\<open>kernel/fs/block.c\<close>). The table \<open>block_cache\<close> keeps the
  bookkeeping of its 64 entries; the data of entry \<open>i\<close> are the 4096 bytes of the static array at
  \<open>bc + 4108 * i + 4\<close>, where \<open>bc\<close> is the address the linker gives the array. The copies are the calls
  of \<open>memcpy\<close> as written, and its first argument is the source (\<open>CLib.memcpy\<close>).
\<close>

abbreviation (input) FS_MAX_BLOCKS :: nat where "FS_MAX_BLOCKS \<equiv> 10240"
abbreviation (input) FS_BLOCK_SIZE :: nat where "FS_BLOCK_SIZE \<equiv> 4096"
abbreviation (input) BLOCK_CACHE_SIZE :: nat where "BLOCK_CACHE_SIZE \<equiv> 64"

record block_cache_entry =
  block_num :: u32
  dirty :: u32
  ref_count :: u32

record block_layer =
  block_cache :: "block_cache_entry list"
  block_storage :: u64

record kblk = kmem +
  blk :: block_layer

definition block_boot :: block_layer where
  "block_boot = \<lparr>block_cache = replicate BLOCK_CACHE_SIZE \<lparr>block_num = 0, dirty = 0, ref_count = 0\<rparr>,
     block_storage = 0\<rparr>"

definition on_blk :: "(block_layer \<Rightarrow> block_layer) \<Rightarrow> 'a kblk_scheme \<Rightarrow> 'a kblk_scheme" where
  "on_blk f k = k\<lparr>blk := f (blk k)\<rparr>"

definition upd_block_entry :: "nat \<Rightarrow> (block_cache_entry \<Rightarrow> block_cache_entry) \<Rightarrow> 'a kblk_scheme \<Rightarrow> 'a kblk_scheme" where
  "upd_block_entry i f = on_blk (\<lambda>b. b\<lparr>block_cache := (block_cache b)[i := f (block_cache b ! i)]\<rparr>)"

text \<open>\<open>&block_cache[i].data\<close>.\<close>

definition block_data :: "u64 \<Rightarrow> nat \<Rightarrow> u64" where
  "block_data bc i = bc + 4108 * of_nat i + 4"

definition block_cache_init :: "'a kblk_scheme \<Rightarrow> 'a kblk_scheme option" where
  "block_cache_init k = do {
     let k = printk (''[BLOCK] Initializing block cache'' @ NL) [] k;
     let k = on_blk (\<lambda>b. b\<lparr>block_cache :=
               map (\<lambda>e. e\<lparr>block_num := 0xFFFFFFFF, dirty := 0, ref_count := 0\<rparr>) (block_cache b)\<rparr>) k;
     let storage_size = (of_nat (FS_BLOCK_SIZE * 16) :: u32);
     (p, k) \<leftarrow> malloc (ucast storage_size) k;
     let k = on_blk (\<lambda>b. b\<lparr>block_storage := p\<rparr>) k;
     Some (if p = 0
           then printk (''[BLOCK] WARNING: Could not allocate block storage, using cache only'' @ NL) [] k
           else printk (''[BLOCK] Allocated %d bytes for block storage'' @ NL) [ArgW (ucast storage_size)] k)
   }"

definition block_read :: "u64 \<Rightarrow> u32 \<Rightarrow> u64 \<Rightarrow> 'a kblk_scheme \<Rightarrow> int \<times> 'a kblk_scheme" where
  "block_read bc n buffer k =
     (if buffer = 0 \<or> of_nat FS_MAX_BLOCKS \<le> n then (-1, k)
      else case find_slot (\<lambda>e. block_num e = n \<and> 0 < ref_count e) (block_cache (blk k)) of
        Some i \<Rightarrow>
          let k = set_ram (memcpy buffer (block_data bc i) FS_BLOCK_SIZE (kram k)) k;
              k = upd_block_entry i (\<lambda>e. e\<lparr>ref_count := ref_count e + 1\<rparr>) k
          in (int FS_BLOCK_SIZE, printk (''[BLOCK] Cache hit for block %d'' @ NL) [ArgW (ucast n)] k)
      | None \<Rightarrow>
          (case find_slot (\<lambda>e. ref_count e = 0) (block_cache (blk k)) of
             None \<Rightarrow> (-1, k)
           | Some i \<Rightarrow>
               if block_storage (blk k) = 0 then (-1, k)
               else
                 let src = block_storage (blk k) + ucast (n * of_nat FS_BLOCK_SIZE);
                     k = set_ram (memcpy (block_data bc i) src FS_BLOCK_SIZE (kram k)) k;
                     k = upd_block_entry i (\<lambda>e. e\<lparr>block_num := n, ref_count := 1, dirty := 0\<rparr>) k;
                     k = set_ram (memcpy buffer (block_data bc i) FS_BLOCK_SIZE (kram k)) k
                 in (int FS_BLOCK_SIZE,
                     printk (''[BLOCK] Read block %d into cache slot %d'' @ NL) [ArgW (ucast n), ArgW (of_nat i)] k)))"

definition block_write :: "u64 \<Rightarrow> u32 \<Rightarrow> u64 \<Rightarrow> 'a kblk_scheme \<Rightarrow> int \<times> 'a kblk_scheme" where
  "block_write bc n buffer k =
     (if buffer = 0 \<or> of_nat FS_MAX_BLOCKS \<le> n then (-1, k)
      else
        let slot = (case find_slot (\<lambda>e. block_num e = n) (block_cache (blk k)) of
                      Some i \<Rightarrow> Some i
                    | None \<Rightarrow> find_slot (\<lambda>e. ref_count e = 0) (block_cache (blk k)))
        in case slot of
          None \<Rightarrow> (-1, k)
        | Some i \<Rightarrow>
            let k = set_ram (memcpy (block_data bc i) buffer FS_BLOCK_SIZE (kram k)) k;
                k = upd_block_entry i (\<lambda>e. e\<lparr>block_num := n, dirty := 1, ref_count := ref_count e + 1\<rparr>) k
            in (int FS_BLOCK_SIZE, printk (''[BLOCK] Wrote block %d (marked dirty)'' @ NL) [ArgW (ucast n)] k))"

definition block_allocate :: "'a kcon_scheme \<Rightarrow> u32 \<times> 'a kcon_scheme" where
  "block_allocate k =
     (case find (\<lambda>i. i div 8 < FS_BLOCK_SIZE) [0..<FS_MAX_BLOCKS] of
        Some i \<Rightarrow> (of_nat i, printk (''[BLOCK] Allocated block %d'' @ NL) [ArgW (of_nat i)] k)
      | None \<Rightarrow> (0xFFFFFFFF, printk (''[BLOCK] ERROR: No free blocks'' @ NL) [] k))"

definition block_free :: "u32 \<Rightarrow> 'a kblk_scheme \<Rightarrow> int \<times> 'a kblk_scheme" where
  "block_free n k =
     (if of_nat FS_MAX_BLOCKS \<le> n then (-1, k)
      else
        let k = (case find_slot (\<lambda>e. block_num e = n) (block_cache (blk k)) of
                   Some i \<Rightarrow> upd_block_entry i (\<lambda>e. e\<lparr>block_num := 0xFFFFFFFF, ref_count := 0, dirty := 0\<rparr>) k
                 | None \<Rightarrow> k)
        in (0, printk (''[BLOCK] Freed block %d'' @ NL) [ArgW (ucast n)] k))"

text \<open>The local array \<open>zeros\<close> is at the address of that name, on the caller's stack.\<close>

definition block_clear :: "u64 \<Rightarrow> u64 \<Rightarrow> u32 \<Rightarrow> 'a kblk_scheme \<Rightarrow> int \<times> 'a kblk_scheme" where
  "block_clear bc zeros n k =
     (if of_nat FS_MAX_BLOCKS \<le> n then (-1, k)
      else block_write bc n zeros (set_ram (memset zeros 0 FS_BLOCK_SIZE (kram k)) k))"

definition block_cache_flush :: "u64 \<Rightarrow> 'a kblk_scheme \<Rightarrow> 'a kblk_scheme" where
  "block_cache_flush bc k =
     fold (\<lambda>i k.
        let e = block_cache (blk k) ! i in
        if dirty e \<noteq> 0 \<and> block_storage (blk k) \<noteq> 0 then
          let dst = block_storage (blk k) + ucast (block_num e * of_nat FS_BLOCK_SIZE);
              k = set_ram (memcpy dst (block_data bc i) FS_BLOCK_SIZE (kram k)) k;
              k = upd_block_entry i (\<lambda>e. e\<lparr>dirty := 0\<rparr>) k
          in printk (''[BLOCK] Flushed block %d'' @ NL) [ArgW (ucast (block_num e))] k
        else k) [0..<BLOCK_CACHE_SIZE]
       (printk (''[BLOCK] Flushing block cache to disk'' @ NL) [] k)"

subsection \<open>The table\<close>

definition block_slots :: "'a kblk_scheme \<Rightarrow> slots" where
  "block_slots k = map (\<lambda>e. (block_num e, unat (ref_count e))) (block_cache (blk k))"

datatype block_op = Block_Read u32 u64 | Block_Write u32 u64

fun block_key :: "block_op \<Rightarrow> u32" where
  "block_key (Block_Read n b) = n"
| "block_key (Block_Write n b) = n"

fun block_use :: "u64 \<Rightarrow> block_op \<Rightarrow> 'a kblk_scheme \<Rightarrow> int \<times> 'a kblk_scheme" where
  "block_use bc (Block_Read n b) k = block_read bc n b k"
| "block_use bc (Block_Write n b) k = block_write bc n b k"

fun block_buffer :: "block_op \<Rightarrow> u64" where
  "block_buffer (Block_Read n b) = b"
| "block_buffer (Block_Write n b) = b"

lemma blk_frame [simp, frame_simps]:
  "blk (printk f as k) = blk k" "blk (set_ram m k) = blk k" "blk (on_blk g k) = g (blk k)"
  for k :: "'a kblk_scheme"
  by (simp_all add: printk_def set_ram_def on_blk_def split: option.split)

lemma block_storage_upd [simp]: "block_storage (blk (upd_block_entry i f k)) = block_storage (blk k)"
  by (simp add: upd_block_entry_def)

lemma block_slots_frame [simp]:
  "block_slots (printk f as k) = block_slots k" "block_slots (set_ram m k) = block_slots k"
  by (simp_all add: block_slots_def)

lemma block_slots_upd: "i < length (block_cache (blk k)) \<Longrightarrow> block_slots (upd_block_entry i f k)
    = (block_slots k)[i := (let e = f (block_cache (blk k) ! i) in (block_num e, unat (ref_count e)))]"
  by (simp add: block_slots_def upd_block_entry_def map_update Let_def)

lemma length_block_slots [simp]: "length (block_slots k) = length (block_cache (blk k))"
  by (simp add: block_slots_def)

lemma nth_block_slots: "i < length (block_cache (blk k)) \<Longrightarrow>
    block_slots k ! i = (block_num (block_cache (blk k) ! i), unat (ref_count (block_cache (blk k) ! i)))"
  by (simp add: block_slots_def)

lemma find_held: "find_slot (\<lambda>e. block_num e = n \<and> 0 < ref_count e) (block_cache (blk k))
    = find_slot (\<lambda>e. fst e = n \<and> 0 < snd e) (block_slots k)"
  by (rule find_slot_cong) (simp_all add: nth_block_slots unat_gt_0 word_neq_0_conv)

lemma find_free: "find_slot (\<lambda>e. ref_count e = 0) (block_cache (blk k)) = find_slot (\<lambda>e. snd e = 0) (block_slots k)"
  by (rule find_slot_cong) (simp_all add: nth_block_slots unat_eq_0)

lemma find_key: "find_slot (\<lambda>e. block_num e = n) (block_cache (blk k)) = find_slot (\<lambda>e. fst e = n) (block_slots k)"
  by (rule find_slot_cong) (simp_all add: nth_block_slots)

lemma find_key_held:
  assumes "pins_ok xs" and "n \<noteq> 0xFFFFFFFF"
  shows "find_slot (\<lambda>e. fst e = n) xs = find_slot (\<lambda>e. fst e = n \<and> 0 < snd e) xs"
  by (rule find_slot_cong) (use assms in \<open>auto simp: pins_ok_def\<close>)

lemma find_slot_None_full: "find_slot (\<lambda>e. snd e = 0) xs = None \<longleftrightarrow> full xs"
  unfolding find_slot_None full_def by auto

lemma find_slot_None_held: "find_slot (\<lambda>e. fst e = n \<and> 0 < snd e) xs = None \<longleftrightarrow> \<not> held n xs"
  unfolding find_slot_None held_def by (metis prod.collapse fst_conv snd_conv)

lemma count_up: "unat (r :: u32) < 2 ^ 32 - 1 \<Longrightarrow> unat (r + 1) = unat r + 1"
  by (simp add: unat_word_ariths)

text \<open>A call that names an existing block and a buffer.\<close>

definition block_op_ok :: "block_op \<Rightarrow> bool" where
  "block_op_ok p \<longleftrightarrow> block_key p < 10240 \<and> block_buffer p \<noteq> 0"

lemma held_count:
  assumes "find_slot (\<lambda>e. fst e = n \<and> 0 < snd e) (block_slots k) = Some i" and "\<forall>e\<in>set (block_slots k). snd e < 2 ^ 32 - 1"
  shows "i < length (block_cache (blk k))"
    and "unat (ref_count (block_cache (blk k) ! i) + 1) = snd (block_slots k ! i) + 1" "block_num (block_cache (blk k) ! i) = n"
proof -
  note i = find_slot_Some [OF assms(1)]
  then show l: "i < length (block_cache (blk k))" by simp
  have "snd (block_slots k ! i) < 2 ^ 32 - 1" using assms(2) i nth_mem by blast
  then show "unat (ref_count (block_cache (blk k) ! i) + 1) = snd (block_slots k ! i) + 1"
    using l count_up by (simp add: nth_block_slots)
  show "block_num (block_cache (blk k) ! i) = n" using i l by (simp add: nth_block_slots)
qed

lemma slot_cases [case_names hit miss none]:
  obtains i where "find_slot (\<lambda>e. fst e = n \<and> 0 < snd e) xs = Some i" "held n xs"
  | i where "find_slot (\<lambda>e. fst e = n \<and> 0 < snd e) xs = None" "find_slot (\<lambda>e. snd e = 0) xs = Some i" "\<not> held n xs" "\<not> full xs"
  | "find_slot (\<lambda>e. fst e = n \<and> 0 < snd e) xs = None" "find_slot (\<lambda>e. snd e = 0) xs = None" "\<not> held n xs" "full xs"
  using find_slot_None_held [of n xs] find_slot_None_full [of xs]
  by (cases "find_slot (\<lambda>e. fst e = n \<and> 0 < snd e) xs"; cases "find_slot (\<lambda>e. snd e = 0) xs") (simp_all add: that)

lemma free_count:
  assumes "find_slot (\<lambda>e. snd e = 0) (block_slots k) = Some i"
  shows "i < length (block_cache (blk k))" "ref_count (block_cache (blk k) ! i) = 0"
proof -
  show l: "i < length (block_cache (blk k))" using find_slot_Some [OF assms] by simp
  show "ref_count (block_cache (blk k) ! i) = 0" using find_slot_Some [OF assms] nth_block_slots [OF l] by (simp add: unat_eq_0)
qed

lemma block_read_pins:
  assumes st: "block_storage (blk k) \<noteq> 0" and refs: "\<forall>e\<in>set (block_slots k). snd e < 2 ^ 32 - 1" and n: "n < 10240" and b: "b \<noteq> 0"
  shows "block_storage (blk (snd (block_read bc n b k))) \<noteq> 0 \<and> block_slots (snd (block_read bc n b k)) = pin n (block_slots k)
    \<and> (fst (block_read bc n b k) \<noteq> -1 \<longleftrightarrow> held n (block_slots k) \<or> \<not> full (block_slots k))"
proof (cases rule: slot_cases [where n = n and xs = "block_slots k"])
  case (hit i)
  then show ?thesis
    using st n b held_count [OF hit(1) refs] by (auto simp: block_read_def find_held Let_def block_slots_upd pin_def)
next
  case (miss i)
  then show ?thesis
    using st n b free_count [OF miss(2)] by (auto simp: block_read_def find_held find_free Let_def block_slots_upd pin_def)
next
  case none
  then show ?thesis using st n b by (auto simp: block_read_def find_held find_free Let_def pin_def)
qed

lemma block_write_pins:
  assumes st: "block_storage (blk k) \<noteq> 0" and ok: "pins_ok (block_slots k)"
    and refs: "\<forall>e\<in>set (block_slots k). snd e < 2 ^ 32 - 1" and n: "n < 10240" and b: "b \<noteq> 0"
  shows "block_storage (blk (snd (block_write bc n b k))) \<noteq> 0 \<and> block_slots (snd (block_write bc n b k)) = pin n (block_slots k)
    \<and> (fst (block_write bc n b k) \<noteq> -1 \<longleftrightarrow> held n (block_slots k) \<or> \<not> full (block_slots k))"
proof -
  have "n \<noteq> 0xFFFFFFFF" using n by auto
  note key = find_key [of n k, unfolded find_key_held [OF ok this]]
  show ?thesis
  proof (cases rule: slot_cases [where n = n and xs = "block_slots k"])
    case (hit i)
    then show ?thesis
      using st n b held_count [OF hit(1) refs] by (auto simp: block_write_def key Let_def block_slots_upd pin_def)
  next
    case (miss i)
    then show ?thesis
      using st n b free_count [OF miss(2)] by (auto simp: block_write_def key find_free Let_def block_slots_upd pin_def)
  next
    case none
    then show ?thesis using st n b by (auto simp: block_write_def key find_free Let_def pin_def)
  qed
qed

lemma block_use_pins:
  assumes "block_storage (blk k) \<noteq> 0" and "pins_ok (block_slots k)" and "\<forall>e\<in>set (block_slots k). snd e < 2 ^ 32 - 1"
    and "block_op_ok p"
  shows "block_storage (blk (snd (block_use bc p k))) \<noteq> 0 \<and> block_slots (snd (block_use bc p k)) = pin (block_key p) (block_slots k)
    \<and> (fst (block_use bc p k) \<noteq> -1 \<longleftrightarrow> held (block_key p) (block_slots k) \<or> \<not> full (block_slots k))"
  using assms block_read_pins [OF assms(1,3)] block_write_pins [OF assms(1-3)] by (cases p) (auto simp: block_op_ok_def)

lemma block_free_unpins:
  assumes "n < 10240"
  shows "block_storage (blk (snd (block_free n k))) = block_storage (blk k) \<and> block_slots (snd (block_free n k)) = unpin n (block_slots k)"
proof -
  have "\<not> 10240 \<le> n" using assms by auto
  moreover have "i < length (block_cache (blk k))" if "find_slot (\<lambda>e. fst e = n) (block_slots k) = Some i" for i
    using find_slot_Some [OF that] by simp
  ultimately show ?thesis
    by (auto simp: block_free_def find_key unpin_def block_slots_upd Let_def split: option.split)
qed

interpretation block_pins: pin_cache block_slots "\<lambda>k. block_storage (blk k) \<noteq> 0" 10240 block_op_ok block_key
    "\<lambda>p k. (fst (block_use bc p k) \<noteq> -1, snd (block_use bc p k))" "\<lambda>n k. snd (block_free n k)" for bc
proof unfold_locales
  show "block_key p < 10240" if "block_op_ok p" for p using that by (simp add: block_op_ok_def)
next
  fix k :: "'a kblk_scheme" and p
  assume "block_storage (blk k) \<noteq> 0" "pins_ok (block_slots k)" "\<forall>e\<in>set (block_slots k). snd e < 2 ^ 32 - 1" "block_op_ok p"
  from block_use_pins [OF this, of bc]
  show "block_storage (blk (snd (fst (block_use bc p k) \<noteq> - 1, snd (block_use bc p k)))) \<noteq> 0 \<and>
       block_slots (snd (fst (block_use bc p k) \<noteq> - 1, snd (block_use bc p k))) = pin (block_key p) (block_slots k) \<and>
       fst (fst (block_use bc p k) \<noteq> - 1, snd (block_use bc p k)) = (held (block_key p) (block_slots k) \<or> \<not> full (block_slots k))"
    by simp
qed (simp add: block_free_unpins)

lemma blk_mem [simp, frame_simps]: "mem (on_blk g k) = mem k" "mem (upd_block_entry i f k) = mem k"
  by (simp_all add: on_blk_def upd_block_entry_def)

lemma block_runs: "fold (cache_step (\<lambda>p k. (fst (block_use bc p k) \<noteq> -1, snd (block_use bc p k))) f) (map Pin ps)
    = fold (\<lambda>p k. snd (block_use bc p k)) ps"
  by (induction ps) (auto simp: fun_eq_iff)

lemma block_cache_init_slots:
  assumes "block_cache_init k = Some k0" and "length (block_cache (blk k)) = 64"
  shows "block_slots k0 = replicate 64 (0xFFFFFFFF, 0)"
proof -
  let ?k = "on_blk (\<lambda>b. b\<lparr>block_cache := map (\<lambda>e. e\<lparr>block_num := 0xFFFFFFFF, dirty := 0, ref_count := 0\<rparr>) (block_cache b)\<rparr>)
      (printk (''[BLOCK] Initializing block cache'' @ NL) [] k)"
  obtain a where a: "malloc 65536 ?k = Some a" "block_cache (blk k0) = block_cache (blk (snd a))"
    using assms(1) unfolding block_cache_init_def Let_def
    by (cases "malloc 65536 ?k") (auto simp: split_beta split: if_splits)
  then obtain p k1 where k1: "malloc 65536 ?k = Some (p, k1)" "block_cache (blk k0) = block_cache (blk k1)" by (cases a) simp
  have "kmem.more k1 = kmem.more ?k" using malloc_more [OF k1(1)] .
  then have "blk k1 = blk ?k" by (cases k1; cases ?k) simp
  then show ?thesis
    using assms(2) k1(2) by (intro nth_equalityI) (simp_all add: block_slots_def)
qed

subsection \<open>Properties\<close>

text \<open>C27: The block cache never evicts: once 64 different blocks have been read or written after
  \<open>block_cache_init\<close>, and whatever calls on blocks follow (none that frees one), every read and write of
  a further block answers -1.\<close>

theorem block_cache_never_evicts:
  assumes "block_cache_init k = Some k0" and "length (block_cache (blk k)) = 64" and "block_storage (blk k0) \<noteq> 0"
    and "distinct (map block_key ps)" and "length ps = 64" and "list_all block_op_ok (ps @ qs)" and "length qs < 2 ^ 31"
    and "block_op_ok q" and "block_key q \<notin> block_key ` set ps"
  shows "fst (block_use bc q (fold (\<lambda>p k. snd (block_use bc p k)) (ps @ qs) k0)) = -1"
proof -
  let ?use = "\<lambda>p k. (fst (block_use bc p k) \<noteq> -1, snd (block_use bc p k))"
  let ?k1 = "fold (\<lambda>p k. snd (block_use bc p k)) ps k0"
  have okp: "\<forall>p\<in>set ps. block_op_ok p" and okq: "\<forall>p\<in>set qs. block_op_ok p"
    using assms(6) by (auto simp: list_all_iff)
  have "block_key p \<noteq> 0xFFFFFFFF" if "p \<in> set ps" for p
    using okp that by (cases "block_key p = 0xFFFFFFFF") (auto simp: block_op_ok_def)
  then have keys: "\<forall>n\<in>set (map block_key ps). n \<noteq> 0xFFFFFFFF" by auto
  note s0 = block_cache_init_slots [OF assms(1,2)]
  have ok0: "pins_ok (block_slots k0)" and m0: "\<forall>e\<in>set (block_slots k0). snd e \<le> 0"
    by (simp_all add: s0 pins_ok_def)
  have "fold (slots_step block_key) (map Pin ps) xs = fold pin (map block_key ps) xs" for xs
    by (induction ps arbitrary: xs) auto
  then have s1: "fold (slots_step block_key) (map Pin ps) (block_slots k0) = map (\<lambda>n. (n, 1)) (map block_key ps)"
    using pins_fill [OF assms(4) keys, of 64] assms(5) by (simp add: s0)
  have r1: "block_storage (blk ?k1) \<noteq> 0" "block_slots ?k1 = map (\<lambda>n. (n, 1)) (map block_key ps)" "pins_ok (block_slots ?k1)"
    using block_pins.run_follows [OF assms(3) ok0 m0, of "map Pin ps" bc] okp assms(5) s1 unfolding block_runs by auto
  have full: "full (block_slots ?k1)" and m1: "\<forall>e\<in>set (block_slots ?k1). snd e \<le> 1"
    and q: "block_key q \<notin> fst ` set (block_slots ?k1)"
    using assms(9) by (auto simp: r1(2) full_def)
  have "1 + length qs < 2 ^ 32 - 1" using assms(7) by simp
  from block_pins.full_refuses [OF r1(1,3) m1 this okq full q assms(8), of bc] show ?thesis
    by (simp add: block_runs)
qed

text \<open>A kernel with a heap and the static tables of this file.\<close>

definition demo_blk :: kblk where
  "demo_blk = kmem.extend demo_heap \<lparr>blk = block_boot\<rparr>"

lemma demo_blk_mem: "mem demo_blk = mem demo_heap"
  by (simp add: demo_blk_def kmem.defs)

lemma demo_blk_init: "\<exists>k0. block_cache_init demo_blk = Some k0 \<and> block_storage (blk k0) \<noteq> 0"
proof -
  let ?k = "on_blk (\<lambda>b. b\<lparr>block_cache := map (\<lambda>e. e\<lparr>block_num := 0xFFFFFFFF, dirty := 0, ref_count := 0\<rparr>) (block_cache b)\<rparr>)
      (printk (''[BLOCK] Initializing block cache'' @ NL) [] demo_blk)"
  have "mem ?k = mem demo_heap" by (simp add: on_blk_def demo_blk_mem printk_def split: option.split)
  then have h: "heap_inv (mem ?k) 0xffff800000200000 [] (map (\<lambda>i. 0xffff800000000000 + 24 * i) [0..<7])"
    using demo_heap_start by simp
  from malloc_answer [OF h, of 65536] obtain p k1 where "malloc 65536 ?k = Some (p, k1)" "p \<noteq> 0"
    by auto
  then show ?thesis
    unfolding block_cache_init_def by (auto simp: Let_def)
qed

theorem block_cache_never_evicts_witness:
  "\<exists>k0. block_cache_init demo_blk = Some k0 \<and> fst (block_use 0x300000 (Block_Write 64 0x1000)
     (fold (\<lambda>p k. snd (block_use 0x300000 p k)) (map (\<lambda>n. Block_Read (of_nat n) 0x1000) [0..<64]) k0)) = -1"
proof -
  obtain k0 where k0: "block_cache_init demo_blk = Some k0" "block_storage (blk k0) \<noteq> 0" using demo_blk_init by blast
  let ?ps = "map (\<lambda>n. Block_Read (of_nat n) 0x1000) [0..<64]"
  have inj: "(of_nat m :: u32) = of_nat n \<longleftrightarrow> m = n" if "m < 65" "n < 65" for m n
  proof -
    have "unat (of_nat m :: u32) = m" "unat (of_nat n :: u32) = n" using that by (simp_all add: unat_of_nat)
    then show ?thesis by metis
  qed
  have l: "length (block_cache (blk demo_blk)) = 64" by (simp add: demo_blk_def kmem.defs block_boot_def)
  have d: "distinct (map block_key ?ps)"
    using inj by (auto simp: comp_def distinct_map inj_on_def simp del: upt_rec_numeral)
  have lt: "list_all block_op_ok (?ps @ [])"
    by (auto simp: list_all_iff block_op_ok_def word_less_nat_alt unat_of_nat simp del: upt_rec_numeral)
  have ok: "block_op_ok (Block_Write 64 0x1000)" by (simp add: block_op_ok_def)
  have nin: "block_key (Block_Write 64 0x1000) \<notin> block_key ` set ?ps"
    using inj [where m = 64] by (auto simp: simp del: upt_rec_numeral)
  have len: "length ?ps = 64" "length ([] :: block_op list) < 2 ^ 31" by simp_all
  from block_cache_never_evicts [OF k0(1) l k0(2) d len(1) lt len(2) ok nin, where bc = "0x300000"] k0(1)
  show ?thesis by auto
qed

text \<open>C28: The copies of the block layer run backwards: a successful \<open>block_write\<close> leaves the cached bytes
  of the block as they were and overwrites the caller's buffer with them, and a \<open>block_read\<close> of a
  cached block leaves the caller's buffer as it was and overwrites the cached bytes with it.\<close>

theorem block_copies_run_backwards:
  assumes "length (block_cache (blk k)) = 64" and "span buf 4096 \<inter> (\<Union>i<64. span (block_data bc i) 4096) = {}"
  shows "(fst (block_write bc n buf k) \<noteq> -1 \<longrightarrow> (\<exists>i<64. block_num (block_cache (blk (snd (block_write bc n buf k))) ! i) = n
      \<and> load_bytes (kram (snd (block_write bc n buf k))) (block_data bc i) 4096 = load_bytes (kram k) (block_data bc i) 4096
      \<and> load_bytes (kram (snd (block_write bc n buf k))) buf 4096 = load_bytes (kram k) (block_data bc i) 4096))
    \<and> (buf \<noteq> 0 \<and> n < 10240 \<and> held n (block_slots k) \<longrightarrow> (\<exists>i<64. block_num (block_cache (blk k) ! i) = n
      \<and> load_bytes (kram (snd (block_read bc n buf k))) (block_data bc i) 4096 = load_bytes (kram k) buf 4096
      \<and> load_bytes (kram (snd (block_read bc n buf k))) buf 4096 = load_bytes (kram k) buf 4096))"
proof -
  have d: "span (block_data bc i) 4096 \<inter> span buf 4096 = {}" "span buf 4096 \<inter> span (block_data bc i) 4096 = {}" if "i < 64" for i
    using assms(2) that by auto
  have copy: "load_bytes (memcpy f t 4096 m) t 4096 = load_bytes m f 4096" "load_bytes (memcpy f t 4096 m) f 4096 = load_bytes m f 4096"
    if "span f 4096 \<inter> span t 4096 = {}" for f t m
  proof -
    show "load_bytes (memcpy f t 4096 m) t 4096 = load_bytes m f 4096"
      using that by (simp add: memcpy_copies load_store_bytes)
    show "load_bytes (memcpy f t 4096 m) f 4096 = load_bytes m f 4096"
      by (rule load_bytes_cong, subst memcpy_copies [OF that], rule store_bytes_other) (use that in auto)
  qed
  have w: "\<exists>i<64. block_num (block_cache (blk (snd (block_write bc n buf k))) ! i) = n
      \<and> kram (snd (block_write bc n buf k)) = memcpy (block_data bc i) buf 4096 (kram k)" if ok: "fst (block_write bc n buf k) \<noteq> -1"
  proof -
    obtain i where i: "(case find_slot (\<lambda>e. block_num e = n) (block_cache (blk k)) of
                      Some i \<Rightarrow> Some i
                    | None \<Rightarrow> find_slot (\<lambda>e. ref_count e = 0) (block_cache (blk k))) = Some i" and g: "\<not> (buf = 0 \<or> of_nat 10240 \<le> n)"
      using ok unfolding block_write_def Let_def
      by (cases "case find_slot (\<lambda>e. block_num e = n) (block_cache (blk k)) of
            Some i \<Rightarrow> Some i | None \<Rightarrow> find_slot (\<lambda>e. ref_count e = 0) (block_cache (blk k))") (auto split: if_splits)
    then have l: "i < 64" using assms(1) by (auto split: option.splits dest!: find_slot_Some)
    then show ?thesis
      using assms(1) unfolding block_write_def if_not_P [OF g] i by (intro exI [of _ i]) (simp add: Let_def upd_block_entry_def)
  qed
  have r: "\<exists>i<64. block_num (block_cache (blk k) ! i) = n \<and> kram (snd (block_read bc n buf k)) = memcpy buf (block_data bc i) 4096 (kram k)"
    if h: "buf \<noteq> 0 \<and> n < 10240 \<and> held n (block_slots k)"
  proof -
    obtain i where i: "find_slot (\<lambda>e. fst e = n \<and> 0 < snd e) (block_slots k) = Some i"
      using h find_slot_None_held [of n "block_slots k"] by auto
    have l: "i < 64" "fst (block_slots k ! i) = n" using assms(1) find_slot_Some [OF i] by auto
    have g: "\<not> (buf = 0 \<or> of_nat 10240 \<le> n)" using h by auto
    show ?thesis
      using assms(1) l unfolding block_read_def if_not_P [OF g] find_held i
      by (intro exI [of _ i]) (simp add: Let_def nth_block_slots)
  qed
  show ?thesis
  proof (intro conjI impI)
    assume "fst (block_write bc n buf k) \<noteq> -1"
    from w [OF this] obtain i where "i < 64" "block_num (block_cache (blk (snd (block_write bc n buf k))) ! i) = n"
        "kram (snd (block_write bc n buf k)) = memcpy (block_data bc i) buf 4096 (kram k)" by blast
    with copy [OF d(1)] show "\<exists>i<64. block_num (block_cache (blk (snd (block_write bc n buf k))) ! i) = n
      \<and> load_bytes (kram (snd (block_write bc n buf k))) (block_data bc i) 4096 = load_bytes (kram k) (block_data bc i) 4096
      \<and> load_bytes (kram (snd (block_write bc n buf k))) buf 4096 = load_bytes (kram k) (block_data bc i) 4096" by auto
  next
    assume "buf \<noteq> 0 \<and> n < 10240 \<and> held n (block_slots k)"
    from r [OF this] obtain i where "i < 64" "block_num (block_cache (blk k) ! i) = n"
        "kram (snd (block_read bc n buf k)) = memcpy buf (block_data bc i) 4096 (kram k)" by blast
    with copy [OF d(2)] show "\<exists>i<64. block_num (block_cache (blk k) ! i) = n
      \<and> load_bytes (kram (snd (block_read bc n buf k))) (block_data bc i) 4096 = load_bytes (kram k) buf 4096
      \<and> load_bytes (kram (snd (block_read bc n buf k))) buf 4096 = load_bytes (kram k) buf 4096" by auto
  qed
qed

theorem block_copies_run_backwards_witness:
  "\<exists>i<64. load_bytes (kram (snd (block_write 0x300000 0 0x1000 demo_blk))) 0x1000 4096
    = load_bytes (kram demo_blk) (block_data 0x300000 i) 4096"
proof -
  have "unat x < 0x2000" if "x \<in> span 0x1000 4096" for x
    using that by (simp add: span_interval)
  moreover have "0x300000 \<le> unat x" if "x \<in> span (block_data 0x300000 i) 4096" "i < 64" for x i
  proof -
    have "block_data 0x300000 i = of_nat (0x300004 + 4108 * i)" by (simp add: block_data_def)
    then have "x \<in> span (of_nat (0x300004 + 4108 * i)) 4096" using that(1) by simp
    moreover have "unat (of_nat (0x300004 + 4108 * i) :: u64) = 0x300004 + 4108 * i"
      using that(2) by (simp add: unat_of_nat del: of_nat_add of_nat_mult)
    ultimately show ?thesis using that(2) by (subst (asm) span_interval) simp_all
  qed
  ultimately have d: "span 0x1000 4096 \<inter> (\<Union>i<64. span (block_data 0x300000 i) 4096) = {}" by force
  have c: "block_cache (blk demo_blk) = replicate 64 \<lparr>block_num = 0, dirty = 0, ref_count = 0\<rparr>"
    by (simp add: demo_blk_def kmem.defs block_boot_def)
  have "find_slot (\<lambda>e. block_num e = 0) (block_cache (blk demo_blk)) = Some 0"
    unfolding c find_slot_def find_Some_iff by (intro exI [of _ 0]) simp
  then have w: "fst (block_write 0x300000 0 0x1000 demo_blk) \<noteq> -1"
    unfolding block_write_def by (simp add: Let_def)
  have l: "length (block_cache (blk demo_blk)) = 64" by (simp add: c)
  from block_copies_run_backwards [OF l d, of 0] w show ?thesis by blast
qed

end
