(* ===== verification/Inode.thy ===== *)
theory Inode
  imports Block
begin

text \<open>
  The inode cache (\<open>kernel/fs/inode.c\<close>). The bookkeeping of the 256 entries is a list; the
  \<open>inode_t\<close> of entry \<open>i\<close> is the 104 bytes at \<open>ic + 120 * i + 8\<close> of the static array, at the address
  \<open>ic\<close> the linker gives it. Fields of an \<open>inode_t\<close> are read and written at their offsets, and a
  function that returns a pointer to an inode returns its address, 0 for \<open>NULL\<close>.
\<close>

abbreviation (input) FS_MAX_INODES :: nat where "FS_MAX_INODES \<equiv> 2048"
abbreviation (input) INODE_CACHE_SIZE :: nat where "INODE_CACHE_SIZE \<equiv> 256"
abbreviation (input) SIZEOF_inode :: nat where "SIZEOF_inode \<equiv> 104"
abbreviation (input) NONE32 :: u32 where "NONE32 \<equiv> 0xFFFFFFFF"

text \<open>The addresses of the fields of the \<open>inode_t\<close> at \<open>p\<close>.\<close>

definition in_id :: "u64 \<Rightarrow> u64" where "in_id p = p"
definition in_type :: "u64 \<Rightarrow> u64" where "in_type p = p + 4"
definition in_size :: "u64 \<Rightarrow> u64" where "in_size p = p + 8"
definition in_permissions :: "u64 \<Rightarrow> u64" where "in_permissions p = p + 12"
definition in_owner_id :: "u64 \<Rightarrow> u64" where "in_owner_id p = p + 16"
definition in_link_count :: "u64 \<Rightarrow> u64" where "in_link_count p = p + 32"
definition in_block_count :: "u64 \<Rightarrow> u64" where "in_block_count p = p + 36"
definition in_direct_block :: "u64 \<Rightarrow> nat \<Rightarrow> u64" where "in_direct_block p i = p + 40 + 4 * of_nat i"
definition in_indirect_block :: "u64 \<Rightarrow> u64" where "in_indirect_block p = p + 88"
definition in_data :: "u64 \<Rightarrow> u64" where "in_data p = p + 96"

definition put32 :: "u64 \<Rightarrow> u32 \<Rightarrow> 'a kmem_scheme \<Rightarrow> 'a kmem_scheme" where
  "put32 p v k = set_ram (st32 (kram k) p v) k"

definition put64 :: "u64 \<Rightarrow> u64 \<Rightarrow> 'a kmem_scheme \<Rightarrow> 'a kmem_scheme" where
  "put64 p v k = set_ram (st64 (kram k) p v) k"

record inode_cache_entry =
  inode_id :: u32
  i_dirty :: u32
  i_ref_count :: u32

record kino = kmem +
  inode_cache :: "inode_cache_entry list"

definition inode_cache_boot :: "inode_cache_entry list" where
  "inode_cache_boot = replicate INODE_CACHE_SIZE \<lparr>inode_id = 0, i_dirty = 0, i_ref_count = 0\<rparr>"

definition upd_inode_entry :: "nat \<Rightarrow> (inode_cache_entry \<Rightarrow> inode_cache_entry) \<Rightarrow> 'a kino_scheme \<Rightarrow> 'a kino_scheme" where
  "upd_inode_entry i f k = k\<lparr>inode_cache := (inode_cache k)[i := f (inode_cache k ! i)]\<rparr>"

text \<open>\<open>&inode_cache[i].data\<close>.\<close>

definition inode_data :: "u64 \<Rightarrow> nat \<Rightarrow> u64" where
  "inode_data ic i = ic + 120 * of_nat i + 8"

definition inode_cache_init :: "'a kino_scheme \<Rightarrow> 'a kino_scheme" where
  "inode_cache_init k =
     (let k = printk (''[INODE] Initializing inode cache'' @ NL) [] k
      in k\<lparr>inode_cache := map (\<lambda>e. e\<lparr>inode_id := NONE32, i_dirty := 0, i_ref_count := 0\<rparr>) (inode_cache k)\<rparr>)"

definition inode_create :: "u32 \<Rightarrow> 'a kmem_scheme \<Rightarrow> (u64 \<times> 'a kmem_scheme) option" where
  "inode_create type k = do {
     (p, k) \<leftarrow> malloc (of_nat SIZEOF_inode) k;
     if p = 0 then Some (0, printk (''[INODE] ERROR: Failed to allocate inode'' @ NL) [] k)
     else do {
       let k = put32 (in_type p) type k;
       let k = put32 (in_size p) 0 k;
       let k = put32 (in_permissions p) 0x1A4 k;
       let k = put32 (in_owner_id p) 0 k;
       let k = put32 (in_link_count p) 1 k;
       let k = put32 (in_block_count p) 0 k;
       let k = fold (\<lambda>i. put32 (in_direct_block p i) NONE32) [0..<12] k;
       let k = put32 (in_indirect_block p) NONE32 k;
       Some (p, printk (''[INODE] Created inode of type %d'' @ NL) [ArgW (ucast type)] k)
     }
   }"

definition inode_delete :: "u32 \<Rightarrow> 'a kino_scheme \<Rightarrow> int \<times> 'a kino_scheme" where
  "inode_delete n k =
     (if of_nat FS_MAX_INODES \<le> n then (-1, k)
      else
        let k = (case find_slot (\<lambda>e. inode_id e = n) (inode_cache k) of
                   Some i \<Rightarrow> upd_inode_entry i (\<lambda>e. e\<lparr>inode_id := NONE32, i_ref_count := 0, i_dirty := 0\<rparr>) k
                 | None \<Rightarrow> k)
        in (0, printk (''[INODE] Deleted inode %d'' @ NL) [ArgW (ucast n)] k))"

definition inode_read :: "u64 \<Rightarrow> u32 \<Rightarrow> 'a kino_scheme \<Rightarrow> u64 \<times> 'a kino_scheme" where
  "inode_read ic n k =
     (if of_nat FS_MAX_INODES \<le> n then (0, k)
      else case find_slot (\<lambda>e. inode_id e = n \<and> 0 < i_ref_count e) (inode_cache k) of
        Some i \<Rightarrow>
          let k = upd_inode_entry i (\<lambda>e. e\<lparr>i_ref_count := i_ref_count e + 1\<rparr>) k
          in (inode_data ic i, printk (''[INODE] Cache hit for inode %d'' @ NL) [ArgW (ucast n)] k)
      | None \<Rightarrow>
          (case find_slot (\<lambda>e. i_ref_count e = 0) (inode_cache k) of
             None \<Rightarrow> (0, printk (''[INODE] ERROR: Cache full'' @ NL) [] k)
           | Some i \<Rightarrow>
               let k = printk (''[INODE] Cache miss for inode %d, loading from disk'' @ NL) [ArgW (ucast n)] k
               in (inode_data ic i, upd_inode_entry i (\<lambda>e. e\<lparr>inode_id := n, i_ref_count := 1, i_dirty := 0\<rparr>) k)))"

definition inode_write :: "u64 \<Rightarrow> u32 \<Rightarrow> u64 \<Rightarrow> 'a kino_scheme \<Rightarrow> int \<times> 'a kino_scheme" where
  "inode_write ic n data k =
     (if data = 0 \<or> of_nat FS_MAX_INODES \<le> n then (-1, k)
      else case find_slot (\<lambda>e. inode_id e = n) (inode_cache k) of
        Some i \<Rightarrow>
          let k = set_ram (store_bytes (kram k) (inode_data ic i) (load_bytes (kram k) data SIZEOF_inode)) k;
              k = upd_inode_entry i (\<lambda>e. e\<lparr>i_dirty := 1\<rparr>) k
          in (0, printk (''[INODE] Wrote inode %d (marked dirty)'' @ NL) [ArgW (ucast n)] k)
      | None \<Rightarrow> (-1, k))"

definition inode_lookup :: "u64 \<Rightarrow> u32 \<Rightarrow> 'a kino_scheme \<Rightarrow> u64 \<times> 'a kino_scheme" where
  "inode_lookup ic n k = inode_read ic n k"

definition inode_cache_flush :: "'a kino_scheme \<Rightarrow> 'a kino_scheme" where
  "inode_cache_flush k =
     fold (\<lambda>i k.
        if i_dirty (inode_cache k ! i) \<noteq> 0 then
          let k = printk (''[INODE] Flushed inode %d'' @ NL) [ArgW (ucast (inode_id (inode_cache k ! i)))] k
          in upd_inode_entry i (\<lambda>e. e\<lparr>i_dirty := 0\<rparr>) k
        else k) [0..<INODE_CACHE_SIZE]
       (printk (''[INODE] Flushing inode cache to disk'' @ NL) [] k)"

definition inode_add_block :: "u64 \<Rightarrow> u32 \<Rightarrow> u32 \<Rightarrow> 'a kino_scheme \<Rightarrow> int \<times> 'a kino_scheme" where
  "inode_add_block ic n b k =
     (let (p, k) = inode_read ic n k
      in if p = 0 then (-1, k)
         else case find (\<lambda>i. ld32 (kram k) (in_direct_block p i) = NONE32) [0..<12] of
           Some i \<Rightarrow>
             let k = put32 (in_direct_block p i) b k;
                 k = put32 (in_block_count p) (ld32 (kram k) (in_block_count p) + 1) k
             in (0, printk (''[INODE] Added block %d to inode %d'' @ NL) [ArgW (ucast b), ArgW (ucast n)] k)
         | None \<Rightarrow>
             (-1, printk (''[INODE] ERROR: Direct blocks full, indirect blocks not implemented'' @ NL) [] k))"

definition inode_remove_block :: "u64 \<Rightarrow> u32 \<Rightarrow> u32 \<Rightarrow> 'a kino_scheme \<Rightarrow> int \<times> 'a kino_scheme" where
  "inode_remove_block ic n b k =
     (let (p, k) = inode_read ic n k
      in if p = 0 then (-1, k)
         else case find (\<lambda>i. ld32 (kram k) (in_direct_block p i) = b) [0..<12] of
           Some i \<Rightarrow>
             let k = put32 (in_direct_block p i) NONE32 k;
                 k = put32 (in_block_count p) (ld32 (kram k) (in_block_count p) - 1) k
             in (0, printk (''[INODE] Removed block %d from inode %d'' @ NL) [ArgW (ucast b), ArgW (ucast n)] k)
         | None \<Rightarrow> (-1, k))"

subsection \<open>The table\<close>

definition inode_slots :: "'a kino_scheme \<Rightarrow> slots" where
  "inode_slots k = map (\<lambda>e. (inode_id e, unat (i_ref_count e))) (inode_cache k)"

lemma ino_frame [simp, frame_simps]:
  "inode_cache (printk f as k) = inode_cache k" "inode_cache (set_ram m k) = inode_cache k"
  "inode_cache (put32 p v k) = inode_cache k" "mem (upd_inode_entry i g k) = mem k"
  "inode_cache (upd_inode_entry i g k) = (inode_cache k)[i := g (inode_cache k ! i)]"
  for k :: "'a kino_scheme"
  by (simp_all add: printk_def set_ram_def put32_def upd_inode_entry_def split: option.split)

lemma inode_slots_frame [simp]:
  "inode_slots (printk f as k) = inode_slots k" "inode_slots (set_ram m k) = inode_slots k"
  by (simp_all add: inode_slots_def)

lemma inode_slots_upd: "i < length (inode_cache k) \<Longrightarrow> inode_slots (upd_inode_entry i f k)
    = (inode_slots k)[i := (let e = f (inode_cache k ! i) in (inode_id e, unat (i_ref_count e)))]"
  by (simp add: inode_slots_def map_update Let_def)

lemma length_inode_slots [simp]: "length (inode_slots k) = length (inode_cache k)"
  by (simp add: inode_slots_def)

lemma nth_inode_slots: "i < length (inode_cache k) \<Longrightarrow>
    inode_slots k ! i = (inode_id (inode_cache k ! i), unat (i_ref_count (inode_cache k ! i)))"
  by (simp add: inode_slots_def)

lemma find_inode:
  "find_slot (\<lambda>e. inode_id e = n \<and> 0 < i_ref_count e) (inode_cache k) = find_slot (\<lambda>e. fst e = n \<and> 0 < snd e) (inode_slots k)"
  "find_slot (\<lambda>e. i_ref_count e = 0) (inode_cache k) = find_slot (\<lambda>e. snd e = 0) (inode_slots k)"
  "find_slot (\<lambda>e. inode_id e = n) (inode_cache k) = find_slot (\<lambda>e. fst e = n) (inode_slots k)"
  by (rule find_slot_cong; simp add: nth_inode_slots unat_gt_0 unat_eq_0 word_neq_0_conv)+

text \<open>The addresses of the entries, none of them null.\<close>

abbreviation data_ok :: "u64 \<Rightarrow> bool" where
  "data_ok ic \<equiv> \<forall>i<256. inode_data ic i \<noteq> 0"

lemma inode_read_cases:
  fixes k :: "'a kino_scheme"
  assumes "n < 2048" and "length (inode_cache k) = 256"
    and refs: "\<forall>e\<in>set (inode_slots k). snd e < 2 ^ 32 - 1"
  shows "(held n (inode_slots k) \<or> \<not> full (inode_slots k) \<longrightarrow> (\<exists>i<256. fst (inode_read ic n k) = inode_data ic i))
    \<and> (\<not> held n (inode_slots k) \<and> full (inode_slots k) \<longrightarrow> fst (inode_read ic n k) = 0)
    \<and> inode_slots (snd (inode_read ic n k)) = pin n (inode_slots k) \<and> mem (snd (inode_read ic n k)) = mem k"
proof (cases rule: slot_cases [where n = n and xs = "inode_slots k"])
  case (hit i)
  note i = find_slot_Some [OF hit(1)]
  then have l: "i < 256" "i < length (inode_cache k)" using assms(2) by simp_all
  have "snd (inode_slots k ! i) < 2 ^ 32 - 1" using refs i nth_mem by blast
  then have "unat (i_ref_count (inode_cache k ! i) + 1) = snd (inode_slots k ! i) + 1" "inode_id (inode_cache k ! i) = n"
    using i l count_up by (simp_all add: nth_inode_slots)
  then show ?thesis
    using assms(1) hit l by (auto simp: inode_read_def find_inode Let_def inode_slots_upd pin_def)
next
  case (miss i)
  then have l: "i < 256" "i < length (inode_cache k)" using find_slot_Some [OF miss(2)] assms(2) by simp_all
  then show ?thesis
    using assms(1) miss by (auto simp: inode_read_def find_inode Let_def inode_slots_upd pin_def)
next
  case none
  then show ?thesis using assms(1) by (auto simp: inode_read_def find_inode Let_def pin_def)
qed

lemma inode_delete_unpins:
  assumes "n < 2048"
  shows "inode_slots (snd (inode_delete n k)) = unpin n (inode_slots k)"
proof -
  have "i < length (inode_cache k)" if "find_slot (\<lambda>e. fst e = n) (inode_slots k) = Some i" for i
    using find_slot_Some [OF that] by simp
  then show ?thesis
    using assms by (auto simp: inode_delete_def find_inode unpin_def inode_slots_upd Let_def split: option.split)
qed

lemma length_pins: "length (inode_slots k') = length (pin n (inode_slots k)) \<Longrightarrow> length (inode_cache k') = length (inode_cache k)"
  by simp

interpretation inode_pins: pin_cache inode_slots "\<lambda>k. length (inode_cache k) = 256 \<and> data_ok ic" 2048 "\<lambda>n. n < 2048" "\<lambda>n. n"
    "\<lambda>n k. (fst (inode_read ic n k) \<noteq> 0, snd (inode_read ic n k))" "\<lambda>n k. snd (inode_delete n k)" for ic
proof unfold_locales
  fix k :: "'a kino_scheme" and n
  assume g: "length (inode_cache k) = 256 \<and> data_ok ic" and r: "\<forall>e\<in>set (inode_slots k). snd e < 2 ^ 32 - 1" and n: "n < (2048 :: u32)"
  note c = inode_read_cases [OF n conjunct1 [OF g] r, of ic]
  have "length (inode_slots (snd (inode_read ic n k))) = length (pin n (inode_slots k))"
    by (rule arg_cong [where f = length]) (use c in blast)
  then have "length (inode_cache (snd (inode_read ic n k))) = 256" using g by simp
  with c g show "(length (inode_cache (snd (fst (inode_read ic n k) \<noteq> 0, snd (inode_read ic n k)))) = 256 \<and> data_ok ic) \<and>
       inode_slots (snd (fst (inode_read ic n k) \<noteq> 0, snd (inode_read ic n k))) = pin n (inode_slots k) \<and>
       fst (fst (inode_read ic n k) \<noteq> 0, snd (inode_read ic n k)) = (held n (inode_slots k) \<or> \<not> full (inode_slots k))"
    by auto
next
  fix k :: "'a kino_scheme" and n
  assume g: "length (inode_cache k) = 256 \<and> data_ok ic" and n: "n < (2048 :: u32)"
  have "length (inode_slots (snd (inode_delete n k))) = length (unpin n (inode_slots k))"
    by (rule arg_cong [OF inode_delete_unpins [OF n]])
  then show "(length (inode_cache (snd (inode_delete n k))) = 256 \<and> data_ok ic)
      \<and> inode_slots (snd (inode_delete n k)) = unpin n (inode_slots k)"
    using g inode_delete_unpins [OF n] by simp
qed

subsection \<open>Fields of an inode\<close>

lemma span_off_disjoint:
  assumes "i + n \<le> j \<or> j + l \<le> i" and "i + n \<le> 2 ^ 64" and "j + l \<le> 2 ^ 64"
  shows "span (p + of_nat i) n \<inter> span (p + of_nat j) l = {}"
proof -
  have "False" if "x < n" "y < l" "p + of_nat i + of_nat x = p + of_nat j + (of_nat y :: u64)" for x y
  proof -
    have "(of_nat (i + x) :: u64) = of_nat (j + y)" using that(3) by (simp add: add.assoc)
    then have "unat (of_nat (i + x) :: u64) = unat (of_nat (j + y) :: u64)" by (rule arg_cong)
    moreover have "i + x < 2 ^ LENGTH(64)" "j + y < 2 ^ LENGTH(64)" using assms(2,3) that(1,2) by simp_all
    ultimately have "i + x = j + y" by (simp only: unat_of_nat mod_less)
    with assms(1) that(1,2) show False by auto
  qed
  then show ?thesis by (auto simp: span_def)
qed

lemma ld32_apart: "span a 4 \<inter> S = {} \<Longrightarrow> (\<And>x. x \<notin> S \<Longrightarrow> m' x = m x) \<Longrightarrow> ld32 m' a = ld32 m a"
  by (rule ld32_cong) auto

lemma ld64_apart: "span a 8 \<inter> S = {} \<Longrightarrow> (\<And>x. x \<notin> S \<Longrightarrow> m' x = m x) \<Longrightarrow> ld64 m' a = ld64 m a"
  by (rule ld64_cong) auto

text \<open>Two words of a structure of at most 1000 bytes.\<close>

lemma ld32_st32_field:
  assumes "i + 4 \<le> j \<or> j + 4 \<le> i" and "i \<le> 1000" and "j \<le> 1000"
  shows "ld32 (st32 m (p + of_nat j) v) (p + of_nat i) = ld32 m (p + of_nat i)"
proof -
  have "span (p + of_nat i) 4 \<inter> span (p + of_nat j) 4 = {}" using assms by (intro span_off_disjoint) auto
  then show ?thesis by (rule ld32_apart) (rule st32_other)
qed

lemma direct_offset: "in_direct_block p i = p + of_nat (40 + 4 * i)" "in_block_count p = p + of_nat 36"
  by (simp_all add: in_direct_block_def in_block_count_def)

definition directs :: "ram \<Rightarrow> u64 \<Rightarrow> u32 list" where
  "directs m p = map (\<lambda>i. ld32 m (in_direct_block p i)) [0..<12]"

lemma length_directs [simp]: "length (directs m p) = 12" by (simp add: directs_def)

lemma nth_directs [simp]: "i < 12 \<Longrightarrow> directs m p ! i = ld32 m (in_direct_block p i)"
  by (simp add: directs_def del: upt_rec_numeral)

lemma directs_put: "i < 12 \<Longrightarrow> directs (st32 m (in_direct_block p i) v) p = (directs m p)[i := v]"
proof (rule nth_equalityI)
  fix j assume "i < 12" "j < length (directs (st32 m (in_direct_block p i) v) p)"
  moreover have "ld32 (st32 m (in_direct_block p i) v) (in_direct_block p j) = ld32 m (in_direct_block p j)"
    if "i < 12" "j < 12" "i \<noteq> j"
    unfolding direct_offset by (rule ld32_st32_field) (use that in auto)
  ultimately show "directs (st32 m (in_direct_block p i) v) p ! j = (directs m p)[i := v] ! j"
    by (cases "i = j") simp_all
qed simp

lemma directs_count: "directs (st32 m (in_block_count p) v) p = directs m p"
  by (rule nth_equalityI) (simp, simp add: direct_offset del: of_nat_add of_nat_mult of_nat_numeral, rule ld32_st32_field, auto)

lemma count_direct: "i < 12 \<Longrightarrow> ld32 (st32 m (in_direct_block p i) v) (in_block_count p) = ld32 m (in_block_count p)"
  unfolding direct_offset by (rule ld32_st32_field) auto

lemma find_directs: "find (\<lambda>i. ld32 m (in_direct_block p i) = v) [0..<12] = find_slot (\<lambda>x. x = v) (directs m p)"
  unfolding find_slot_def by (rule find_cong) (auto simp del: upt_rec_numeral)

subsection \<open>Blocks of an inode\<close>

definition slot_of :: "u32 \<Rightarrow> slots \<Rightarrow> nat option" where
  "slot_of n xs = (case find_slot (\<lambda>e. fst e = n \<and> 0 < snd e) xs of Some i \<Rightarrow> Some i | None \<Rightarrow> find_slot (\<lambda>e. snd e = 0) xs)"

lemma find_slot_eqI: "i < length xs \<Longrightarrow> P (xs ! i) \<Longrightarrow> (\<And>j. j < i \<Longrightarrow> \<not> P (xs ! j)) \<Longrightarrow> find_slot P xs = Some i"
  unfolding find_slot_def find_Some_iff by (intro exI [of _ i]) simp

lemma slot_of_pin:
  assumes "slot_of n xs = Some i"
  shows "slot_of n (pin n xs) = Some i"
proof (cases "find_slot (\<lambda>e. fst e = n \<and> 0 < snd e) xs")
  case (Some j)
  then have j: "j = i" using assms by (simp add: slot_of_def)
  have "find_slot (\<lambda>e. fst e = n \<and> 0 < snd e) (pin n xs) = Some i"
    using find_slot_Some [OF Some] by (intro find_slot_eqI) (simp_all add: pin_def Some j)
  then show ?thesis by (simp add: slot_of_def)
next
  case None
  then have f: "find_slot (\<lambda>e. snd e = 0) xs = Some i" using assms by (simp add: slot_of_def)
  note i = find_slot_Some [OF f]
  have no: "\<not> (fst (xs ! j) = n \<and> 0 < snd (xs ! j))" if "j < length xs" for j
    using None nth_mem [OF that] unfolding find_slot_None by blast
  have "\<not> (fst (xs ! j) = n \<and> 0 < snd (xs ! j))" if "j < i" for j
    using no [of j] i that by simp
  then have "find_slot (\<lambda>e. fst e = n \<and> 0 < snd e) (pin n xs) = Some i"
    using i by (intro find_slot_eqI) (simp_all add: pin_def None f)
  then show ?thesis by (simp add: slot_of_def)
qed

lemma inode_read_slot:
  fixes k :: "'a kino_scheme"
  assumes "n < 2048" and "slot_of n (inode_slots k) = Some i"
  shows "fst (inode_read ic n k) = inode_data ic i" "mem (snd (inode_read ic n k)) = mem k"
proof -
  have n: "\<not> 2048 \<le> n" using assms(1) by auto
  show "fst (inode_read ic n k) = inode_data ic i"
    using n assms(2) by (auto simp: inode_read_def find_inode slot_of_def Let_def split: option.splits)
  show "mem (snd (inode_read ic n k)) = mem k"
    using n by (auto simp: inode_read_def Let_def split: option.split)
qed

lemma put32_mem [simp, frame_simps]: "mem (put32 p v k) = (mem k)\<lparr>ram := st32 (kram k) p v\<rparr>"
  by (simp add: put32_def)

lemma inode_slots_put32 [simp]: "inode_slots (put32 p v k) = inode_slots k"
  by (simp add: put32_def)

text \<open>Both operations on a cached or loadable inode at \<open>p\<close>.\<close>

lemma add_block_effect:
  fixes k :: "'a kino_scheme"
  assumes n: "n < 2048" and i: "slot_of n (inode_slots k) = Some i" and p: "inode_data ic i = p" "p \<noteq> 0"
    and j: "find_slot (\<lambda>x. x = NONE32) (directs (kram k) p) = Some j"
  shows "\<exists>k1. inode_add_block ic n b k = (0, k1) \<and> directs (kram k1) p = (directs (kram k) p)[j := b]
    \<and> ld32 (kram k1) (in_block_count p) = ld32 (kram k) (in_block_count p) + 1
    \<and> inode_slots k1 = inode_slots (snd (inode_read ic n k))"
proof -
  have j12: "j < 12" using find_slot_Some [OF j] by simp
  obtain k0 where k0: "inode_read ic n k = (p, k0)" "mem k0 = mem k"
    using inode_read_slot [OF n i, of ic] p(1) by (metis prod.collapse)
  show ?thesis
    unfolding inode_add_block_def using k0 p(2) j j12
    by (simp add: find_directs Let_def directs_put directs_count count_direct del: upt_rec_numeral)
qed

lemma remove_block_effect:
  fixes k :: "'a kino_scheme"
  assumes n: "n < 2048" and i: "slot_of n (inode_slots k) = Some i" and p: "inode_data ic i = p" "p \<noteq> 0"
    and j: "find_slot (\<lambda>x. x = b) (directs (kram k) p) = Some j"
  shows "\<exists>k1. inode_remove_block ic n b k = (0, k1) \<and> directs (kram k1) p = (directs (kram k) p)[j := NONE32]
    \<and> ld32 (kram k1) (in_block_count p) = ld32 (kram k) (in_block_count p) - 1"
proof -
  have j12: "j < 12" using find_slot_Some [OF j] by simp
  obtain k0 where k0: "inode_read ic n k = (p, k0)" "mem k0 = mem k"
    using inode_read_slot [OF n i, of ic] p(1) by (metis prod.collapse)
  show ?thesis
    unfolding inode_remove_block_def using k0 p(2) j j12
    by (simp add: find_directs Let_def directs_put directs_count count_direct del: upt_rec_numeral)
qed

lemma add_block_none:
  fixes k :: "'a kino_scheme"
  assumes n: "n < 2048" and i: "slot_of n (inode_slots k) = Some i" and j: "NONE32 \<notin> set (directs (kram k) (inode_data ic i))"
  shows "fst (inode_add_block ic n b k) = -1 \<and> kram (snd (inode_add_block ic n b k)) = kram k"
proof -
  have f: "find_slot (\<lambda>x. x = NONE32) (directs (kram k) (inode_data ic i)) = None" using j by (auto simp: find_slot_None)
  obtain k0 where k0: "inode_read ic n k = (inode_data ic i, k0)" "mem k0 = mem k"
    using inode_read_slot [OF n i, of ic] by (metis prod.collapse)
  show ?thesis
    unfolding inode_add_block_def using k0 f by (simp add: find_directs del: upt_rec_numeral)
qed

definition inode_call :: "u64 \<Rightarrow> u32 cache_op \<Rightarrow> 'a kino_scheme \<Rightarrow> 'a kino_scheme" where
  "inode_call ic e k = (case e of Pin n \<Rightarrow> snd (inode_read ic n k) | Unpin n \<Rightarrow> snd (inode_delete n k))"

lemma inode_calls: "fold (cache_step (\<lambda>n k. (fst (inode_read ic n k) \<noteq> 0, snd (inode_read ic n k))) (\<lambda>n k. snd (inode_delete n k))) es k
    = fold (inode_call ic) es k" for k :: "'a kino_scheme"
proof (induction es arbitrary: k)
  case (Cons e es)
  then show ?case by (cases e) (simp_all add: inode_call_def)
qed simp

subsection \<open>Properties\<close>

text \<open>C25: From \<open>inode_cache_init\<close> on, fewer than 2^32 reads and deletions of inodes keep the cache table that
  of the abstract pinned cache: no inode has two entries, an entry is free exactly when it names no
  inode, and an entry once taken for an inode is given up by its deletion only.\<close>

theorem inode_cache_refines_pins:
  assumes "length (inode_cache k) = 256" and "data_ok ic" and "list_all (op_legal (\<lambda>n. n < 2048) 2048) es"
    and "length es < 2 ^ 32"
  shows "inode_slots (fold (inode_call ic) es (inode_cache_init k))
      = fold (slots_step (\<lambda>n. n)) es (replicate 256 (0xFFFFFFFF, 0))
    \<and> pins_ok (inode_slots (fold (inode_call ic) es (inode_cache_init k)))"
proof -
  have s0: "inode_slots (inode_cache_init k) = replicate 256 (0xFFFFFFFF, 0)"
    using assms(1) by (intro nth_equalityI) (simp_all add: inode_slots_def inode_cache_init_def Let_def)
  have g: "length (inode_cache (inode_cache_init k)) = 256 \<and> data_ok ic"
    using assms(1,2) by (simp add: inode_cache_init_def Let_def)
  have "pins_ok (inode_slots (inode_cache_init k))" "\<forall>e\<in>set (inode_slots (inode_cache_init k)). snd e \<le> 0"
    by (simp_all add: s0 pins_ok_def)
  from inode_pins.run_follows [OF g this, of es] assms(3,4) show ?thesis
    unfolding inode_calls by (simp add: list_all_iff s0)
qed

definition demo_ino :: kino where
  "demo_ino = kmem.extend demo_boot \<lparr>inode_cache = inode_cache_boot\<rparr>"

lemma demo_data_ok: "data_ok 0x300000"
proof (intro allI impI)
  fix i :: nat assume "i < 256"
  then have "unat (of_nat (0x300008 + 120 * i) :: u64) = 0x300008 + 120 * i"
    by (simp add: unat_of_nat del: of_nat_add of_nat_mult)
  moreover have "inode_data 0x300000 i = of_nat (0x300008 + 120 * i)" by (simp add: inode_data_def)
  ultimately show "inode_data 0x300000 i \<noteq> 0" by (metis add_is_0 unsigned_0 zero_neq_numeral)
qed

lemma demo_ino_table: "inode_cache demo_ino = replicate 256 \<lparr>inode_id = 0, i_dirty = 0, i_ref_count = 0\<rparr>"
  by (simp add: demo_ino_def kmem.defs inode_cache_boot_def)

theorem inode_cache_refines_pins_witness:
  "pins_ok (inode_slots (fold (inode_call 0x300000) [Pin 5, Pin 7, Unpin 5] (inode_cache_init demo_ino)))"
proof -
  have l: "length (inode_cache demo_ino) = 256" by (simp add: demo_ino_table)
  have o: "list_all (op_legal (\<lambda>n. n < 2048) 2048) [Pin (5 :: u32), Pin 7, Unpin 5]" by simp
  have n: "length [Pin (5 :: u32), Pin 7, Unpin 5] < 2 ^ 32" by simp
  from inode_cache_refines_pins [OF l demo_data_ok o n] show ?thesis by (rule conjunct2)
qed

text \<open>C26: Adding a block to an inode that has room and does not list it, and then removing it, gives
  back the inode's list of blocks and its count; in between the block is listed.\<close>

theorem inode_add_remove_round_trip:
  fixes k :: "'a kino_scheme"
  assumes "n < 2048" and "length (inode_cache k) = 256" and "\<forall>e\<in>set (inode_slots k). snd e < 2 ^ 32 - 1"
    and "slot_of n (inode_slots k) = Some i" and "p = inode_data ic i" and "p \<noteq> 0"
    and "NONE32 \<in> set (directs (kram k) p)" and "b \<notin> set (directs (kram k) p)"
  shows "\<exists>k1 k2. inode_add_block ic n b k = (0, k1) \<and> inode_remove_block ic n b k1 = (0, k2)
    \<and> b \<in> set (directs (kram k1) p) \<and> directs (kram k2) p = directs (kram k) p
    \<and> ld32 (kram k2) (in_block_count p) = ld32 (kram k) (in_block_count p)"
proof -
  obtain j where j: "find_slot (\<lambda>x. x = NONE32) (directs (kram k) p) = Some j"
    using assms(7) find_slot_None [of "\<lambda>x. x = NONE32" "directs (kram k) p"] by (metis option.exhaust)
  note jj = find_slot_Some [OF j]
  obtain k1 where k1: "inode_add_block ic n b k = (0, k1)" "directs (kram k1) p = (directs (kram k) p)[j := b]"
      "ld32 (kram k1) (in_block_count p) = ld32 (kram k) (in_block_count p) + 1"
      "inode_slots k1 = inode_slots (snd (inode_read ic n k))"
    using add_block_effect [OF assms(1,4) assms(5) [symmetric] assms(6) j] by blast
  have "inode_slots k1 = pin n (inode_slots k)" using inode_read_cases [OF assms(1-3), of ic] k1(4) by simp
  then have i1: "slot_of n (inode_slots k1) = Some i" using slot_of_pin [OF assms(4)] by simp
  have f: "find_slot (\<lambda>x. x = b) (directs (kram k1) p) = Some j"
  proof (rule find_slot_eqI)
    show "directs (kram k1) p ! l \<noteq> b" if "l < j" for l
      using that jj assms(8) nth_mem [of l "directs (kram k) p"] unfolding k1(2) by auto
  qed (use jj k1(2) in auto)
  obtain k2 where k2: "inode_remove_block ic n b k1 = (0, k2)" "directs (kram k2) p = (directs (kram k1) p)[j := NONE32]"
      "ld32 (kram k2) (in_block_count p) = ld32 (kram k1) (in_block_count p) - 1"
    using remove_block_effect [OF assms(1) i1 assms(5) [symmetric] assms(6) f] by blast
  have "directs (kram k2) p = (directs (kram k) p)[j := directs (kram k) p ! j]" using k1(2) k2(2) jj by simp
  then have "directs (kram k2) p = directs (kram k) p" by simp
  moreover have "b \<in> set (directs (kram k1) p)" unfolding k1(2) using jj by (simp add: set_update_memI)
  ultimately show ?thesis using k1 k2 by auto
qed

text \<open>A kernel whose static inode data are the zeros they start as can add no block to any inode that
  was not written before: \<open>inode_read\<close> hands out an entry without setting its block pointers, 0 is not
  the free mark, and \<open>inode_add_block\<close> answers -1 without a change of memory.\<close>

theorem unwritten_inode_takes_no_block:
  fixes k :: "'a kino_scheme"
  assumes "n < 2048" and "length (inode_cache k) = 256" and "\<forall>i<256. \<forall>x\<in>span (inode_data ic i) 104. kram k x = 0"
    and "data_ok ic"
  shows "fst (inode_add_block ic n b k) = -1 \<and> kram (snd (inode_add_block ic n b k)) = kram k"
proof (cases "slot_of n (inode_slots k)")
  case None
  then have "inode_read ic n k = (0, printk (''[INODE] ERROR: Cache full'' @ NL) [] k)"
    using assms(1) by (auto simp: inode_read_def find_inode slot_of_def split: option.splits)
  then show ?thesis by (simp add: inode_add_block_def)
next
  case (Some i)
  then have i: "i < 256" using assms(2) by (auto simp: slot_of_def split: option.splits dest!: find_slot_Some)
  let ?p = "inode_data ic i"
  have z: "ld32 (kram k) (in_direct_block ?p j) = 0" if "j < 12" for j
  proof -
    have "span (in_direct_block ?p j) 4 \<subseteq> span ?p 104" using that unfolding direct_offset by (intro span_offset) simp
    then have "load_bytes (kram k) (in_direct_block ?p j) 4 = load_bytes (\<lambda>_. 0) (in_direct_block ?p j) 4"
      using assms(3) i by (intro load_bytes_cong) blast
    moreover have "word_of (load_bytes (\<lambda>_. 0) a 4) = (0 :: u32)" for a
      by (rule bit_word_eqI) (simp add: bit_word_of)
    ultimately show ?thesis by (simp add: ld32_def)
  qed
  have "NONE32 \<notin> set (directs (kram k) ?p)"
    using z by (auto simp: directs_def simp del: upt_rec_numeral)
  from add_block_none [OF assms(1) Some this] show ?thesis .
qed

theorem unwritten_inode_takes_no_block_witness:
  "fst (inode_add_block 0x300000 7 1 (set_ram (\<lambda>_. 0) demo_ino)) = -1"
proof -
  have "length (inode_cache (set_ram (\<lambda>_. 0) demo_ino)) = 256" by (simp add: demo_ino_table)
  from unwritten_inode_takes_no_block [OF _ this _ demo_data_ok, of 7 1] show ?thesis by simp
qed

text \<open>An entry that an inode was written to.\<close>

definition demo_ino_ram :: ram where
  "demo_ino_ram = fold (\<lambda>i m. st32 m (in_direct_block 0x300008 i) NONE32) [0..<12] (\<lambda>_. 0)"

lemma demo_ino_directs: "directs demo_ino_ram 0x300008 = replicate 12 NONE32"
proof -
  have "n \<le> 12 \<Longrightarrow> directs (fold (\<lambda>i m. st32 m (in_direct_block 0x300008 i) NONE32) [0..<n] m) 0x300008
      = replicate n NONE32 @ drop n (directs m 0x300008)" for n m
  proof (induction n)
    case (Suc n)
    let ?d = "directs m 0x300008"
    have "drop n ?d = ?d ! n # drop (Suc n) ?d" by (rule Cons_nth_drop_Suc [symmetric]) (use Suc.prems in simp)
    then show ?case
      using Suc by (simp add: directs_put list_update_append replicate_append_same [symmetric] del: nth_directs)
  qed simp
  from this [of 12] show ?thesis by (simp add: demo_ino_ram_def del: upt_rec_numeral)
qed

theorem inode_add_remove_round_trip_witness:
  "\<exists>k1 k2. inode_add_block 0x300000 7 9 (set_ram demo_ino_ram demo_ino) = (0, k1) \<and> inode_remove_block 0x300000 7 9 k1 = (0, k2)
    \<and> directs (kram k2) 0x300008 = replicate 12 NONE32"
proof -
  let ?k = "set_ram demo_ino_ram demo_ino"
  have l: "length (inode_cache ?k) = 256" by (simp add: demo_ino_table)
  have s: "inode_slots ?k = replicate 256 (0, 0)"
    by (simp add: inode_slots_def demo_ino_table map_replicate)
  have "slot_of 7 (replicate 256 (0, 0)) = Some 0"
    by (simp add: slot_of_def find_slot_None [THEN iffD2] find_slot_eqI)
  then have sl: "slot_of 7 (inode_slots ?k) = Some 0" by (simp only: s)
  have refs: "\<forall>e\<in>set (inode_slots ?k). snd e < 2 ^ 32 - 1" unfolding s by simp
  have p: "0x300008 = inode_data 0x300000 0" by (simp add: inode_data_def)
  have n: "(7 :: u32) < 2048" by simp
  from inode_add_remove_round_trip [OF n l refs sl p, of 9] show ?thesis
    by (simp add: demo_ino_directs) blast
qed

end
