(* ===== verification/Dir.thy ===== *)
theory Dir
  imports Inode
begin

text \<open>
  Directories (\<open>kernel/fs/dir.c\<close>). The operations allocate and print but keep no entries. A \<open>dir_t\<close>
  is 268 bytes: \<open>inode_id\<close> at 0, the name at 4, \<open>type\<close> at 260, \<open>entry_count\<close> at 264; a \<open>dir_entry_t\<close>
  is 264 bytes: \<open>inode_id\<close> at 0, the name at 4, \<open>type\<close> at 260. A name is a character array, \<open>None\<close> for
  \<open>NULL\<close>; a read past its end makes the operation \<open>None\<close>.
\<close>

abbreviation (input) FS_MAX_NAME_LEN :: nat where "FS_MAX_NAME_LEN \<equiv> 256"
abbreviation (input) FS_TYPE_FILE :: u32 where "FS_TYPE_FILE \<equiv> 1"
abbreviation (input) FS_TYPE_DIR :: u32 where "FS_TYPE_DIR \<equiv> 2"
abbreviation (input) MAX_DIR_ENTRIES :: nat where "MAX_DIR_ENTRIES \<equiv> 256"
abbreviation (input) SIZEOF_dir :: nat where "SIZEOF_dir \<equiv> 268"
abbreviation (input) SIZEOF_dir_entry :: nat where "SIZEOF_dir_entry \<equiv> 264"

definition dir_inode_id :: "u64 \<Rightarrow> u64" where "dir_inode_id p = p"
definition dir_name :: "u64 \<Rightarrow> nat \<Rightarrow> u64" where "dir_name p i = p + 4 + of_nat i"
definition dir_type :: "u64 \<Rightarrow> u64" where "dir_type p = p + 260"
definition dir_entry_count :: "u64 \<Rightarrow> u64" where "dir_entry_count p = p + 264"

definition put8 :: "u64 \<Rightarrow> u8 \<Rightarrow> 'a kmem_scheme \<Rightarrow> 'a kmem_scheme" where
  "put8 p v k = set_ram ((kram k)(p := v)) k"

text \<open>The loop that copies the name, from position \<open>len\<close> on, and the terminator after it.\<close>

function dir_copy_name :: "u64 \<Rightarrow> string \<Rightarrow> nat \<Rightarrow> 'a kmem_scheme \<Rightarrow> 'a kmem_scheme option" where
  "dir_copy_name p name len k =
     (case arr_get name len of
        None \<Rightarrow> None
      | Some c \<Rightarrow>
          if c \<noteq> NUL \<and> len < FS_MAX_NAME_LEN - 1
          then dir_copy_name p name (len + 1) (put8 (dir_name p len) (of_char c) k)
          else Some (put8 (dir_name p len) 0 k))"
  by pat_completeness auto

termination
  by (relation "measure (\<lambda>(p, name, len, k). 256 - len)") auto

declare dir_copy_name.simps [simp del]

definition dir_create :: "string option \<Rightarrow> 'a kmem_scheme \<Rightarrow> (u64 \<times> 'a kmem_scheme) option" where
  "dir_create name k =
     (case name of
        None \<Rightarrow> Some (0, k)
      | Some s \<Rightarrow> do {
          (p, k) \<leftarrow> malloc (of_nat SIZEOF_dir) k;
          if p = 0 then Some (0, printk (''[DIR] ERROR: Failed to allocate directory'' @ NL) [] k)
          else do {
            let k = put32 (dir_inode_id p) 0 k;
            let k = put32 (dir_entry_count p) 0 k;
            let k = put32 (dir_type p) FS_TYPE_DIR k;
            k \<leftarrow> dir_copy_name p s 0 k;
            Some (p, printk (''[DIR] Created directory: %s'' @ NL) [ArgS (Some s)] k)
          }
        })"

definition dir_delete :: "u32 \<Rightarrow> 'a kcon_scheme \<Rightarrow> int \<times> 'a kcon_scheme" where
  "dir_delete d k =
     (if of_nat FS_MAX_INODES \<le> d then (-1, k)
      else (0, printk (''[DIR] Deleted directory with inode %d'' @ NL) [ArgW (ucast d)] k))"

definition dir_add_entry :: "u32 \<Rightarrow> string option \<Rightarrow> u32 \<Rightarrow> u32 \<Rightarrow> 'a kcon_scheme \<Rightarrow> int \<times> 'a kcon_scheme" where
  "dir_add_entry d name n type k =
     (if name = None \<or> of_nat FS_MAX_INODES \<le> d then (-1, k)
      else (0, printk (''[DIR] Added entry '' @ [CHR 0x27] @ ''%s'' @ [CHR 0x27]
                 @ '' (inode %d, type %d) to directory inode %d'' @ NL)
               [ArgS name, ArgW (ucast n), ArgW (ucast type), ArgW (ucast d)] k))"

definition dir_remove_entry :: "u32 \<Rightarrow> string option \<Rightarrow> 'a kcon_scheme \<Rightarrow> int \<times> 'a kcon_scheme" where
  "dir_remove_entry d name k =
     (if name = None \<or> of_nat FS_MAX_INODES \<le> d then (-1, k)
      else (0, printk (''[DIR] Removed entry '' @ [CHR 0x27] @ ''%s'' @ [CHR 0x27]
                 @ '' from directory inode %d'' @ NL) [ArgS name, ArgW (ucast d)] k))"

definition dir_lookup :: "u32 \<Rightarrow> string option \<Rightarrow> 'a kmem_scheme \<Rightarrow> (u64 \<times> 'a kmem_scheme) option" where
  "dir_lookup d name k =
     (if name = None \<or> of_nat FS_MAX_INODES \<le> d then Some (0, k)
      else do {
        let k = printk (''[DIR] Looking up '' @ [CHR 0x27] @ ''%s'' @ [CHR 0x27]
                  @ '' in directory inode %d'' @ NL) [ArgS name, ArgW (ucast d)] k;
        (p, k) \<leftarrow> malloc (of_nat SIZEOF_dir_entry) k;
        if p = 0 then Some (0, k)
        else Some (p, put32 (dir_type p) 0 (put32 (dir_inode_id p) 0 k))
      })"

text \<open>The counter that \<open>entry_count\<close> points to is an argument (\<open>None\<close> for \<open>NULL\<close>) and a result.\<close>

definition dir_list :: "u32 \<Rightarrow> u32 option \<Rightarrow> 'a kmem_scheme \<Rightarrow> (u64 \<times> u32 option \<times> 'a kmem_scheme) option" where
  "dir_list d entry_count k =
     (if entry_count = None \<or> of_nat FS_MAX_INODES \<le> d then Some (0, entry_count, k)
      else do {
        let k = printk (''[DIR] Listing directory inode %d'' @ NL) [ArgW (ucast d)] k;
        let entry_count = Some 0;
        (entries, k) \<leftarrow> malloc (of_nat (SIZEOF_dir_entry * MAX_DIR_ENTRIES)) k;
        if entries = 0
        then Some (0, entry_count, printk (''[DIR] ERROR: Failed to allocate entries'' @ NL) [] k)
        else Some (entries, entry_count, k)
      })"

definition dir_is_empty :: "u32 \<Rightarrow> 'a kmem_scheme \<Rightarrow> (int \<times> 'a kmem_scheme) option" where
  "dir_is_empty d k =
     (if of_nat FS_MAX_INODES \<le> d then Some (-1, k)
      else do {
        (entries, count, k) \<leftarrow> dir_list d (Some 0) k;
        Some (if count = Some 0 then 1 else 0, k)
      })"

subsection \<open>Names\<close>

lemma put8_mem [simp, frame_simps]: "mem (put8 p v k) = (mem k)\<lparr>ram := (kram k)(p := v)\<rparr>"
  by (simp add: put8_def)

definition name_bytes :: "string \<Rightarrow> u8 list" where
  "name_bytes s = map of_char (take 255 (cstr s)) @ [0]"

lemma copy_name:
  assumes "NUL \<in> set name" and "len \<le> length (cstr name)" and "len \<le> 255"
  shows "\<exists>k'. dir_copy_name p name len k = Some k' \<and> mem k'
    = (mem k)\<lparr>ram := store_bytes (kram k) (dir_name p len) (map of_char (drop len (take 255 (cstr name))) @ [0])\<rparr>"
  using assms(2,3)
proof (induction "255 - len" arbitrary: len k)
  case 0
  then have l: "len = 255" by simp
  then have d: "drop len (take 255 (cstr name)) = []" by simp
  have "len < length name" using 0 length_cstr_less [OF assms(1)] by simp
  then show ?case by (subst dir_copy_name.simps) (simp add: l d del: take_eq_Nil)
next
  case (Suc n)
  have lt: "len < length name" using Suc.prems(1) length_cstr_less [OF assms(1)] by simp
  show ?case
  proof (cases "len < length (cstr name)")
    case False
    then have l: "len = length (cstr name)" using Suc.prems(1) by simp
    then have "name ! len = NUL" "drop len (take 255 (cstr name)) = []"
      using nth_length_takeWhile [of "\<lambda>c. c \<noteq> NUL" name] length_cstr_less [OF assms(1)] by (simp_all add: cstr_def)
    then show ?thesis using lt by (subst dir_copy_name.simps) simp
  next
    case True
    have c: "name ! len = cstr name ! len" "name ! len \<noteq> NUL"
      using takeWhile_nth [of len "\<lambda>c. c \<noteq> NUL" name] nth_mem [OF True] True NUL_notin_cstr [of name]
      by (auto simp: cstr_def)
    have l255: "len < 255" using Suc.hyps(2) by simp
    let ?k = "put8 (dir_name p len) (of_char (name ! len)) k"
    have h: "n = 255 - (len + 1)" "len + 1 \<le> length (cstr name)" "len + 1 \<le> 255" using Suc.hyps(2) True l255 by simp_all
    obtain k' where k': "dir_copy_name p name (len + 1) ?k = Some k'"
        "mem k' = (mem ?k)\<lparr>ram := store_bytes (kram ?k) (dir_name p (len + 1)) (map of_char (drop (len + 1) (take 255 (cstr name))) @ [0])\<rparr>"
      using Suc.hyps(1) [OF h, of ?k] by blast
    have d: "drop len (take 255 (cstr name)) = name ! len # drop (len + 1) (take 255 (cstr name))"
      using True l255 c(1) Cons_nth_drop_Suc [of len "take 255 (cstr name)"] by simp
    have a: "dir_name p (Suc len) = dir_name p len + 1" by (simp add: dir_name_def)
    have "dir_copy_name p name len k = Some k'"
      using k'(1) lt c(2) l255 by (subst dir_copy_name.simps) simp
    then show ?thesis using k'(2) by (simp add: d a)
  qed
qed

lemma length_name_bytes: "length (name_bytes s) \<le> 256"
  by (simp add: name_bytes_def)

text \<open>The memory after \<open>dir_create\<close> has filled the cell at \<open>p\<close>.\<close>

definition dir_ram :: "u64 \<Rightarrow> string \<Rightarrow> ram \<Rightarrow> ram" where
  "dir_ram p s m = store_bytes (st32 (st32 (st32 m (dir_inode_id p) 0) (dir_entry_count p) 0) (dir_type p) FS_TYPE_DIR)
     (dir_name p 0) (name_bytes s)"

lemma dir_offset: "dir_inode_id p = p + of_nat 0" "dir_name p 0 = p + of_nat 4" "dir_type p = p + of_nat 260"
    "dir_entry_count p = p + of_nat 264"
  by (simp_all add: dir_inode_id_def dir_name_def dir_type_def dir_entry_count_def)

lemma name_outside: "i + 4 \<le> 4 \<or> 260 \<le> i \<Longrightarrow> i \<le> 1000 \<Longrightarrow>
    ld32 (store_bytes m (p + of_nat 4) (name_bytes s)) (p + of_nat i) = ld32 m (p + of_nat i)"
proof (rule ld32_apart)
  assume "i + 4 \<le> 4 \<or> 260 \<le> i" "i \<le> 1000"
  then show "span (p + of_nat i) 4 \<inter> span (p + of_nat 4) (length (name_bytes s)) = {}"
    using length_name_bytes [of s] by (intro span_off_disjoint) auto
qed (rule store_bytes_other)

lemma dir_ram_reads:
  "ld32 (dir_ram p s m) (dir_inode_id p) = 0" "ld32 (dir_ram p s m) (dir_type p) = FS_TYPE_DIR"
  "ld32 (dir_ram p s m) (dir_entry_count p) = 0"
  "load_bytes (dir_ram p s m) (dir_name p 0) (length (name_bytes s)) = name_bytes s"
proof -
  note o = dir_ram_def dir_offset
  show "ld32 (dir_ram p s m) (dir_inode_id p) = 0"
    using name_outside [of 0 _ p s] ld32_st32_field [of 0 264 _ p] ld32_st32_field [of 0 260 _ p] by (simp add: o)
  show "ld32 (dir_ram p s m) (dir_type p) = FS_TYPE_DIR"
    using name_outside [of 260 _ p s] by (simp add: o)
  show "ld32 (dir_ram p s m) (dir_entry_count p) = 0"
    using name_outside [of 264 _ p s] ld32_st32_field [of 264 260 _ p] by (simp add: o)
  show "load_bytes (dir_ram p s m) (dir_name p 0) (length (name_bytes s)) = name_bytes s"
    using length_name_bytes [of s] by (simp add: o load_store_bytes)
qed

lemma dir_ram_frame:
  assumes "x \<notin> span p 268"
  shows "dir_ram p s m x = m x"
proof -
  have out: "x \<notin> span (p + of_nat i) n" if "i + n \<le> 268" for i n
    using span_offset [OF that, of p] assms by blast
  have "x \<notin> span (p + of_nat 0) 4" "x \<notin> span (p + of_nat 260) 4" "x \<notin> span (p + of_nat 264) 4"
      "x \<notin> span (p + of_nat 4) (length (name_bytes s))"
    by (rule out, use length_name_bytes [of s] in simp)+
  then show ?thesis
    unfolding dir_ram_def dir_offset by (simp add: store_bytes_other st32_other del: of_nat_numeral of_nat_0)
qed

lemma dir_create_fills:
  assumes "malloc 268 k = Some (p, k1)" and "p \<noteq> 0" and "NUL \<in> set name"
  shows "\<exists>k'. dir_create (Some name) k = Some (p, k') \<and> mem k' = mem (set_ram (dir_ram p name (kram k1)) k1)"
proof -
  let ?k = "put32 (dir_type p) FS_TYPE_DIR (put32 (dir_entry_count p) 0 (put32 (dir_inode_id p) 0 k1))"
  obtain k2 where k2: "dir_copy_name p name 0 ?k = Some k2"
      "mem k2 = (mem ?k)\<lparr>ram := store_bytes (kram ?k) (dir_name p 0) (name_bytes name)\<rparr>"
    using copy_name [OF assms(3), of 0 p ?k] by (auto simp: name_bytes_def)
  have "dir_create (Some name) k = Some (p, printk (''[DIR] Created directory: %s'' @ NL) [ArgS (Some name)] k2)"
    unfolding dir_create_def using assms(1,2) k2(1) by simp
  moreover have "mem k2 = mem (set_ram (dir_ram p name (kram k1)) k1)"
    using k2(2) by (simp add: dir_ram_def)
  ultimately show ?thesis by simp
qed

subsection \<open>Properties\<close>


lemma demo_heap_rel: "heap_rel 0xffff800000200000 demo_heap ([], 7)"
  using demo_heap_start by (auto simp: heap_rel_def intro!: exI)


lemma dir_is_empty_eq:
  assumes "d < 2048" and "malloc 67584 (printk (''[DIR] Listing directory inode %d'' @ NL) [ArgW (ucast d)] k) = Some (p, k1)"
  shows "\<exists>k'. dir_is_empty d k = Some (1, k') \<and> mem k' = mem k1"
proof -
  have d: "(of_nat 2048 \<le> d) = False" using assms(1) by auto
  have l: "dir_list d (Some 0) k = Some (p, Some 0, if p = 0 then printk (''[DIR] ERROR: Failed to allocate entries'' @ NL) [] k1 else k1)"
    unfolding dir_list_def Let_def d using assms(2) by simp
  then have "dir_is_empty d k = Some (1, if p = 0 then printk (''[DIR] ERROR: Failed to allocate entries'' @ NL) [] k1 else k1)"
    unfolding dir_is_empty_def d l by simp
  then show ?thesis by auto
qed

lemma malloc_heap:
  fixes k :: "'a kmem_scheme"
  assumes "heap_rel a k st" and "n < 2 ^ 64"
  shows "\<exists>p k1 st1. malloc (of_nat n) k = Some (p, k1) \<and> heap_rel a k1 st1
    \<and> (p = 0 \<and> heap_owned a st1 = heap_owned a st
      \<or> p \<noteq> 0 \<and> (\<exists>l\<ge>n. (p, l) \<notin> heap_owned a st \<and> heap_owned a st1 = insert (p, l) (heap_owned a st)))"
  using kheap.alloc_law [OF assms] by blast

text \<open>\<open>dir_is_empty\<close> calls every directory empty, and each call takes a buffer of 67584 bytes from the
  heap that nothing gives back, as long as there is one.\<close>

theorem dir_is_empty_leaks:
  fixes k :: "'a kmem_scheme"
  assumes "heap_rel a k st" and "d < 2048"
  shows "\<exists>k' st'. dir_is_empty d k = Some (1, k') \<and> heap_rel a k' st'
    \<and> (heap_owned a st' = heap_owned a st
      \<or> (\<exists>p l. 67584 \<le> l \<and> (p, l) \<notin> heap_owned a st \<and> heap_owned a st' = insert (p, l) (heap_owned a st)))"
proof -
  let ?k = "printk (''[DIR] Listing directory inode %d'' @ NL) [ArgW (ucast d)] k"
  have r: "heap_rel a ?k st" using assms(1) by (simp add: heap_rel_def)
  have "67584 < (2 :: nat) ^ 64" by simp
  from malloc_heap [OF r this] obtain p k1 st1 where
    m: "malloc (of_nat 67584) ?k = Some (p, k1)" "heap_rel a k1 st1"
      "p = 0 \<and> heap_owned a st1 = heap_owned a st \<or> p \<noteq> 0 \<and> (\<exists>l\<ge>67584. (p, l) \<notin> heap_owned a st
        \<and> heap_owned a st1 = insert (p, l) (heap_owned a st))" by blast
  obtain k' where k': "dir_is_empty d k = Some (1, k')" "mem k' = mem k1"
    using dir_is_empty_eq [OF assms(2) m(1) [unfolded of_nat_numeral]] by blast
  have "heap_rel a k' st1" using m(2) heap_rel_mem [OF k'(2)] by blast
  then show ?thesis using m(3) k'(1) by blast
qed

theorem dir_is_empty_leaks_witness: "\<exists>k'. dir_is_empty 3 demo_heap = Some (1, k')"
  using dir_is_empty_leaks [OF demo_heap_rel, of 3] by auto

end
