(* ===== verification/Fs.thy ===== *)
theory Fs
  imports Dir
begin

text \<open>
  The file system (\<open>kernel/fs/fs.c\<close>): the inode table and the bitmaps, which \<open>fs_init\<close> takes from the
  heap, the table of open files and the operations on files. File names are character arrays, \<open>None\<close>
  for \<open>NULL\<close>; buffers are addresses. The results are the \<open>int32_t\<close> values of the code.
\<close>

abbreviation (input) FS_MAX_OPEN_FILES :: nat where "FS_MAX_OPEN_FILES \<equiv> 128"

record superblock =
  block_size :: u32
  total_blocks :: u32
  total_inodes :: u32
  free_blocks :: u32
  free_inodes :: u32
  block_bitmap_start :: u32
  inode_bitmap_start :: u32
  inode_table_start :: u32
  data_blocks_start :: u32

record file_descriptor =
  fd :: u32
  fd_inode :: u32
  offset :: u32
  mode :: u32
  fd_refs :: u32

record fs =
  fs_superblock :: superblock
  inode_table :: u64
  block_bitmap :: u64
  inode_bitmap :: u64
  open_files :: "file_descriptor list"
  next_fd :: u32
  last_created_inode :: u32

record kfs = kmem +
  fsys :: fs

definition fs_boot :: fs where
  "fs_boot = \<lparr>fs_superblock = \<lparr>block_size = 0, total_blocks = 0, total_inodes = 0, free_blocks = 0,
       free_inodes = 0, block_bitmap_start = 0, inode_bitmap_start = 0, inode_table_start = 0, data_blocks_start = 0\<rparr>,
     inode_table = 0, block_bitmap = 0, inode_bitmap = 0,
     open_files = replicate FS_MAX_OPEN_FILES \<lparr>fd = 0, fd_inode = 0, offset = 0, mode = 0, fd_refs = 0\<rparr>,
     next_fd = 1, last_created_inode = NONE32\<rparr>"

definition on_fs :: "(fs \<Rightarrow> fs) \<Rightarrow> 'a kfs_scheme \<Rightarrow> 'a kfs_scheme" where
  "on_fs f k = k\<lparr>fsys := f (fsys k)\<rparr>"

definition on_super :: "(superblock \<Rightarrow> superblock) \<Rightarrow> 'a kfs_scheme \<Rightarrow> 'a kfs_scheme" where
  "on_super f = on_fs (\<lambda>s. s\<lparr>fs_superblock := f (fs_superblock s)\<rparr>)"

definition upd_file :: "nat \<Rightarrow> (file_descriptor \<Rightarrow> file_descriptor) \<Rightarrow> 'a kfs_scheme \<Rightarrow> 'a kfs_scheme" where
  "upd_file i f = on_fs (\<lambda>s. s\<lparr>open_files := (open_files s)[i := f (open_files s ! i)]\<rparr>)"

text \<open>\<open>&inode_table[i]\<close>, and a byte of the block bitmap.\<close>

definition inode_at :: "'a kfs_scheme \<Rightarrow> u32 \<Rightarrow> u64" where
  "inode_at k i = inode_table (fsys k) + of_nat SIZEOF_inode * ucast i"

definition bitmap_at :: "'a kfs_scheme \<Rightarrow> nat \<Rightarrow> u64" where
  "bitmap_at k i = block_bitmap (fsys k) + of_nat i"


subsection \<open>Initialisation\<close>

definition fs_init :: "'a kfs_scheme \<Rightarrow> 'a kfs_scheme option" where
  "fs_init k = do {
     let k = printk (''[FS] Initializing file system...'' @ NL) [] k;
     let k = on_super (\<lambda>_. \<lparr>block_size = of_nat FS_BLOCK_SIZE, total_blocks = of_nat FS_MAX_BLOCKS,
               total_inodes = of_nat FS_MAX_INODES, free_blocks = of_nat FS_MAX_BLOCKS,
               free_inodes = of_nat FS_MAX_INODES, block_bitmap_start = 0,
               inode_bitmap_start = of_nat FS_BLOCK_SIZE, inode_table_start = of_nat (FS_BLOCK_SIZE * 2),
               data_blocks_start = of_nat (FS_BLOCK_SIZE * (2 + FS_MAX_INODES div 512))\<rparr>) k;
     (p, k) \<leftarrow> malloc (of_nat FS_BLOCK_SIZE) k;
     let k = on_fs (\<lambda>s. s\<lparr>block_bitmap := p\<rparr>) k;
     (p, k) \<leftarrow> malloc (of_nat FS_BLOCK_SIZE) k;
     let k = on_fs (\<lambda>s. s\<lparr>inode_bitmap := p\<rparr>) k;
     (p, k) \<leftarrow> malloc (of_nat (SIZEOF_inode * FS_MAX_INODES)) k;
     let k = on_fs (\<lambda>s. s\<lparr>inode_table := p\<rparr>) k;
     if block_bitmap (fsys k) = 0 \<or> inode_bitmap (fsys k) = 0 \<or> inode_table (fsys k) = 0
     then Some (printk (''[FS] ERROR: Failed to allocate file system structures'' @ NL) [] k)
     else do {
       let k = fold (\<lambda>i k. put8 (inode_bitmap (fsys k) + of_nat i) 0 (put8 (bitmap_at k i) 0 k)) [0..<FS_BLOCK_SIZE] k;
       let k = fold (\<lambda>i k.
                 let p = inode_at k (of_nat i)
                 in put64 (in_data p) 0 (put32 (in_size p) 0 (put32 (in_type p) 0 (put32 (in_id p) 0 k))))
               [0..<FS_MAX_INODES] k;
       let k = on_fs (\<lambda>s. s\<lparr>open_files := map (\<lambda>f. f\<lparr>fd := 0, fd_inode := 0, fd_refs := 0\<rparr>) (open_files s)\<rparr>) k;
       let root = inode_at k 0;
       let k = put32 (in_id root) 0 k;
       let k = put32 (in_type root) FS_TYPE_DIR k;
       let k = put32 (in_size root) 0 k;
       let k = put32 (in_permissions root) 0x1ED k;
       let k = put32 (in_owner_id root) 0 k;
       let k = put32 (in_link_count root) 1 k;
       let k = printk (''[FS] File system initialized successfully'' @ NL) [] k;
       let k = printk (''[FS] Block size: %d bytes'' @ NL) [ArgW (of_nat FS_BLOCK_SIZE)] k;
       let k = printk (''[FS] Total blocks: %d'' @ NL) [ArgW (of_nat FS_MAX_BLOCKS)] k;
       Some (printk (''[FS] Total inodes: %d'' @ NL) [ArgW (of_nat FS_MAX_INODES)] k)
     }
   }"


subsection \<open>Inodes and blocks\<close>

definition fs_alloc_inode :: "'a kfs_scheme \<Rightarrow> u32 \<times> 'a kfs_scheme" where
  "fs_alloc_inode k =
     (case find (\<lambda>i. ld32 (kram k) (in_id (inode_at k (of_nat i))) = 0) [1..<FS_MAX_INODES] of
        Some i \<Rightarrow>
          let k = put32 (in_id (inode_at k (of_nat i))) (of_nat i) k;
              k = on_super (\<lambda>s. s\<lparr>free_inodes := free_inodes s - 1\<rparr>) k
          in (of_nat i, printk (''[FS] Allocated inode %d'' @ NL) [ArgW (of_nat i)] k)
      | None \<Rightarrow> (NONE32, printk (''[FS] ERROR: No free inodes'' @ NL) [] k))"

definition fs_alloc_block :: "'a kfs_scheme \<Rightarrow> u32 \<times> 'a kfs_scheme" where
  "fs_alloc_block k =
     (case find (\<lambda>i. \<not> i div 8 < FS_BLOCK_SIZE \<or> kram k (bitmap_at k (i div 8)) AND push_bit (i mod 8) 1 = 0)
             [0..<FS_MAX_BLOCKS] of
        Some i \<Rightarrow>
          if \<not> i div 8 < FS_BLOCK_SIZE then (NONE32, k)
          else
            let a = bitmap_at k (i div 8);
                k = put8 a (kram k a OR push_bit (i mod 8) 1) k
            in (of_nat i, on_super (\<lambda>s. s\<lparr>free_blocks := free_blocks s - 1\<rparr>) k)
      | None \<Rightarrow> (NONE32, k))"

definition fs_free_block :: "u32 \<Rightarrow> 'a kfs_scheme \<Rightarrow> 'a kfs_scheme" where
  "fs_free_block n k =
     (if of_nat FS_MAX_BLOCKS \<le> n then k
      else if unat n div 8 < FS_BLOCK_SIZE then
        let a = bitmap_at k (unat n div 8);
            k = put8 a (kram k a AND NOT (push_bit (unat n mod 8) 1)) k
        in on_super (\<lambda>s. s\<lparr>free_blocks := free_blocks s + 1\<rparr>) k
      else k)"


subsection \<open>Names\<close>

definition fs_create_file :: "string option \<Rightarrow> 'a kfs_scheme \<Rightarrow> int \<times> 'a kfs_scheme" where
  "fs_create_file filename k =
     (if filename = None then (-1, k)
      else
        let (n, k) = fs_alloc_inode k
        in if n = NONE32 then (-1, printk (''[FS] ERROR: No free inodes'' @ NL) [] k)
           else
             let p = inode_at k n;
                 k = put32 (in_type p) FS_TYPE_FILE k;
                 k = put32 (in_size p) 0 k;
                 k = put32 (in_permissions p) 0x1A4 k;
                 k = put32 (in_owner_id p) 0 k;
                 k = put32 (in_link_count p) 1 k;
                 k = put32 (in_block_count p) 0 k;
                 k = put64 (in_data p) 0 k;
                 k = on_fs (\<lambda>s. s\<lparr>last_created_inode := n\<rparr>) k
             in (sint n, printk (''[FS] Created file: %s (inode %d)'' @ NL) [ArgS filename, ArgW (ucast n)] k))"

definition fs_delete_file :: "string option \<Rightarrow> 'a kcon_scheme \<Rightarrow> int \<times> 'a kcon_scheme" where
  "fs_delete_file filename k =
     (if filename = None then (-1, k)
      else (0, printk (''[FS] Deleted file: %s'' @ NL) [ArgS filename] k))"

definition fs_create_dir :: "string option \<Rightarrow> 'a kfs_scheme \<Rightarrow> int \<times> 'a kfs_scheme" where
  "fs_create_dir dirname k =
     (if dirname = None then (-1, k)
      else
        let (n, k) = fs_alloc_inode k
        in if n = NONE32 then (-1, printk (''[FS] ERROR: No free inodes'' @ NL) [] k)
           else
             let p = inode_at k n;
                 k = put32 (in_type p) FS_TYPE_DIR k;
                 k = put32 (in_size p) 0 k;
                 k = put32 (in_permissions p) 0x1ED k;
                 k = put32 (in_owner_id p) 0 k;
                 k = put32 (in_link_count p) 2 k;
                 k = put64 (in_data p) 0 k;
                 k = on_fs (\<lambda>s. s\<lparr>last_created_inode := n\<rparr>) k
             in (sint n, printk (''[FS] Created directory:  %s (inode %d)'' @ NL) [ArgS dirname, ArgW (ucast n)] k))"

definition fs_list_dir :: "string option \<Rightarrow> 'a kcon_scheme \<Rightarrow> int \<times> 'a kcon_scheme" where
  "fs_list_dir dirname k =
     (if dirname = None then (-1, k)
      else
        let k = printk (''[FS] Listing directory: %s'' @ NL) [ArgS dirname] k
        in (0, printk (''[FS] (Directory listing not yet implemented)'' @ NL) [] k))"

fun str_compare :: "string \<Rightarrow> string \<Rightarrow> int option" where
  "str_compare (x # a) (y # b) =
     (if x \<noteq> NUL \<and> y \<noteq> NUL then (if x \<noteq> y then Some 0 else str_compare a b)
      else Some (if x = NUL \<and> y = NUL then 1 else 0))"
| "str_compare a b = None"


subsection \<open>Open files\<close>

definition fs_open :: "string option \<Rightarrow> u32 \<Rightarrow> 'a kfs_scheme \<Rightarrow> (int \<times> 'a kfs_scheme) option" where
  "fs_open filename m k =
     (case filename of
        None \<Rightarrow> Some (-1, k)
      | Some s \<Rightarrow> do {
          test \<leftarrow> str_compare s (''test.txt'' @ [NUL]);
          dir \<leftarrow> (if test \<noteq> 0 then Some 0 else str_compare s (''mydir'' @ [NUL]));
          let (n, k) =
            (if test \<noteq> 0 then (1, printk (''[FS] Matched test.txt -> inode 1'' @ NL) [] k)
             else if dir \<noteq> 0 then (2, printk (''[FS] Matched mydir -> inode 2'' @ NL) [] k)
             else
               let n = last_created_inode (fsys k);
                   n = (if n = NONE32 then 1 else n)
               in (n, printk (''[FS] Using fallback inode:  %d'' @ NL) [ArgW (ucast n)] k));
          case find_slot (\<lambda>f. fd_refs f = 0) (open_files (fsys k)) of
            Some i \<Rightarrow>
              let d = next_fd (fsys k);
                  k = on_fs (\<lambda>s. s\<lparr>next_fd := next_fd s + 1\<rparr>) k;
                  k = upd_file i (\<lambda>f. f\<lparr>fd := d, fd_inode := n, mode := m, offset := 0, fd_refs := 1\<rparr>) k;
                  k = printk (''[FS] Opened file: %s (fd %d, inode %d)'' @ NL) [ArgS filename, ArgW (ucast d), ArgW (ucast n)] k
              in Some (sint d, k)
          | None \<Rightarrow> Some (-1, printk (''[FS] ERROR: Too many open files'' @ NL) [] k)
        })"

definition fs_close :: "u32 \<Rightarrow> 'a kfs_scheme \<Rightarrow> int \<times> 'a kfs_scheme" where
  "fs_close d k =
     (case find_slot (\<lambda>f. fd f = d) (open_files (fsys k)) of
        Some i \<Rightarrow>
          let k = upd_file i (\<lambda>f. f\<lparr>fd_refs := fd_refs f - 1\<rparr>) k;
              k = (if fd_refs (open_files (fsys k) ! i) = 0 then upd_file i (\<lambda>f. f\<lparr>fd := 0, fd_inode := 0\<rparr>) k else k)
          in (0, printk (''[FS] Closed file descriptor %d'' @ NL) [ArgW (ucast d)] k)
      | None \<Rightarrow> (-1, k))"

definition fs_write :: "u32 \<Rightarrow> u64 \<Rightarrow> u32 \<Rightarrow> 'a kfs_scheme \<Rightarrow> (int \<times> 'a kfs_scheme) option" where
  "fs_write d buffer n k =
     (if buffer = 0 \<or> n = 0 then Some (-1, k)
      else case find_slot (\<lambda>f. fd f = d \<and> fd_inode f < of_nat FS_MAX_INODES) (open_files (fsys k)) of
        None \<Rightarrow> Some (-1, k)
      | Some i \<Rightarrow> do {
          let id = fd_inode (open_files (fsys k) ! i);
          let p = inode_at k id;
          (ok, k) \<leftarrow>
            (if ld64 (kram k) (in_data p) = 0 then do {
               (q, k) \<leftarrow> malloc (ucast (n + 1)) k;
               let k = put64 (in_data p) q k;
               Some (q \<noteq> 0, k)
             }
             else Some (True, k));
          if \<not> ok
          then Some (-1, printk (''[FS] ERROR: Could not allocate data for inode %d'' @ NL) [ArgW (ucast id)] k)
          else do {
            let k = set_ram (memcpy buffer (ld64 (kram k) (in_data p)) (unat n) (kram k)) k;
            let k = put8 (ld64 (kram k) (in_data p) + ucast n) 0 k;
            let k = put32 (in_size p) n k;
            let k = upd_file i (\<lambda>f. f\<lparr>offset := offset f + n\<rparr>) k;
            Some (sint n, printk (''[FS] Wrote %d bytes to fd %d (inode %d)'' @ NL)
              [ArgW (ucast n), ArgW (ucast d), ArgW (ucast id)] k)
          }
        })"

definition fs_read :: "u32 \<Rightarrow> u64 \<Rightarrow> u32 \<Rightarrow> 'a kfs_scheme \<Rightarrow> int \<times> 'a kfs_scheme" where
  "fs_read d buffer n k =
     (if buffer = 0 \<or> n = 0 then (-1, k)
      else case find_slot (\<lambda>f. fd f = d) (open_files (fsys k)) of
        None \<Rightarrow> (-1, k)
      | Some i \<Rightarrow>
          let id = fd_inode (open_files (fsys k) ! i)
          in if id < of_nat FS_MAX_INODES then
               let p = inode_at k id;
                   file_size = ld32 (kram k) (in_size p);
                   read_size = (if n < file_size then n else file_size);
                   data = ld64 (kram k) (in_data p);
                   k = (if data \<noteq> 0 \<and> 0 < read_size
                        then set_ram (memcpy data buffer (unat read_size) (kram k)) k else k);
                   k = upd_file i (\<lambda>f. f\<lparr>offset := offset f + read_size\<rparr>) k
               in (sint read_size, printk (''[FS] Read %d bytes from fd %d (inode %d)'' @ NL)
                     [ArgW (ucast read_size), ArgW (ucast d), ArgW (ucast id)] k)
             else (0, k))"

definition fs_seek :: "u32 \<Rightarrow> u32 \<Rightarrow> 'a kfs_scheme \<Rightarrow> int \<times> 'a kfs_scheme" where
  "fs_seek d off k =
     (case find_slot (\<lambda>f. fd f = d) (open_files (fsys k)) of
        Some i \<Rightarrow> (0, upd_file i (\<lambda>f. f\<lparr>offset := off\<rparr>) k)
      | None \<Rightarrow> (-1, k))"

definition fs_get_file_size :: "u32 \<Rightarrow> 'a kfs_scheme \<Rightarrow> u32" where
  "fs_get_file_size d k =
     (case find_slot (\<lambda>f. fd f = d \<and> fd_inode f < of_nat FS_MAX_INODES) (open_files (fsys k)) of
        Some i \<Rightarrow> ld32 (kram k) (in_size (inode_at k (fd_inode (open_files (fsys k) ! i))))
      | None \<Rightarrow> 0)"

subsection \<open>Fields of the inode table\<close>

definition ino :: "u64 \<Rightarrow> nat \<Rightarrow> u64" where "ino T i = T + of_nat (104 * i)"

text \<open>The field at offset \<open>off\<close> of inode \<open>i\<close>.\<close>

definition fld :: "u64 \<Rightarrow> nat \<Rightarrow> nat \<Rightarrow> u64" where "fld T i off = T + of_nat (104 * i + off)"

lemma inode_at_ino: "inode_at k i = ino (inode_table (fsys k)) (unat i)"
  by (simp add: inode_at_def ino_def)

lemma in_fields:
  "in_id (ino T i) = fld T i 0" "in_type (ino T i) = fld T i 4"
  "in_size (ino T i) = fld T i 8" "in_permissions (ino T i) = fld T i 12"
  "in_owner_id (ino T i) = fld T i 16" "in_link_count (ino T i) = fld T i 32"
  "in_block_count (ino T i) = fld T i 36" "in_data (ino T i) = fld T i 96"
  by (simp_all add: in_id_def in_type_def in_size_def in_permissions_def in_owner_id_def in_link_count_def
      in_block_count_def in_data_def ino_def fld_def add.assoc)

text \<open>Two fields of the table: of different inodes, or at different offsets of one.\<close>

lemma fields_apart:
  assumes "i \<noteq> j \<or> o1 + n1 \<le> o2 \<or> o2 + n2 \<le> o1" and "o1 + n1 \<le> 104" and "o2 + n2 \<le> 104" and "i < 4096" and "j < 4096"
  shows "span (fld T i o1) n1 \<inter> span (fld T j o2) n2 = {}"
  unfolding fld_def
proof (rule span_off_disjoint)
  show "104 * i + o1 + n1 \<le> 104 * j + o2 \<or> 104 * j + o2 + n2 \<le> 104 * i + o1"
  proof (cases "i = j")
    case False
    then have "i + 1 \<le> j \<or> j + 1 \<le> i" by linarith
    then show ?thesis using assms(2,3) by (elim disjE) linarith+
  qed (use assms(1) in auto)
  have "104 * i + o1 + n1 \<le> 104 * 4096 + 104" "104 * j + o2 + n2 \<le> 104 * 4096 + 104" using assms(2-5) by linarith+
  then show "104 * i + o1 + n1 \<le> 2 ^ 64" "104 * j + o2 + n2 \<le> 2 ^ 64" by simp_all
qed

abbreviation apart :: "nat \<Rightarrow> nat \<Rightarrow> nat \<Rightarrow> nat \<Rightarrow> nat \<Rightarrow> nat \<Rightarrow> bool" where
  "apart i o1 n1 j o2 n2 \<equiv> (i \<noteq> j \<or> o1 + n1 \<le> o2 \<or> o2 + n2 \<le> o1) \<and> o1 + n1 \<le> 104 \<and> o2 + n2 \<le> 104 \<and> i < 4096 \<and> j < 4096"

lemma apartD: "apart i o1 n1 j o2 n2 \<Longrightarrow> span (fld T i o1) n1 \<inter> span (fld T j o2) n2 = {}"
  using fields_apart by blast

lemma field_frames:
  "apart i o1 4 j o2 4 \<Longrightarrow> ld32 (st32 m (fld T j o2) v) (fld T i o1) = ld32 m (fld T i o1)"
  "apart i o1 4 j o2 8 \<Longrightarrow> ld32 (st64 m (fld T j o2) w) (fld T i o1) = ld32 m (fld T i o1)"
  "apart i o1 8 j o2 4 \<Longrightarrow> ld64 (st32 m (fld T j o2) v) (fld T i o1) = ld64 m (fld T i o1)"
  "apart i o1 8 j o2 8 \<Longrightarrow> ld64 (st64 m (fld T j o2) w) (fld T i o1) = ld64 m (fld T i o1)"
  by (drule apartD [of _ _ _ _ _ _ T], erule ld32_apart ld64_apart, rule st32_other st64_other, assumption)+

text \<open>What matters of an inode: its number, type, size and data.\<close>

definition inode_view :: "ram \<Rightarrow> u64 \<Rightarrow> nat \<Rightarrow> u32 \<times> u32 \<times> u32 \<times> u64" where
  "inode_view m T i = (ld32 m (fld T i 0), ld32 m (fld T i 4), ld32 m (fld T i 8), ld64 m (fld T i 96))"

lemma view_st32 [simp]:
  assumes "i < 4096" and "j < 4096"
  shows "inode_view (st32 m (fld T j 0) v) T i = (if i = j then (v, snd (inode_view m T i)) else inode_view m T i)"
    and "inode_view (st32 m (fld T j 4) v) T i = (if i = j then (fst (inode_view m T i), v, snd (snd (inode_view m T i))) else inode_view m T i)"
    and "inode_view (st32 m (fld T j 8) v) T i
      = (if i = j then (let (a, b, c, d) = inode_view m T i in (a, b, v, d)) else inode_view m T i)"
    and "inode_view (st64 m (fld T j 96) w) T i
      = (if i = j then (let (a, b, c, d) = inode_view m T i in (a, b, c, w)) else inode_view m T i)"
  using assms by (auto simp: inode_view_def field_frames)

lemma view_other [simp]:
  assumes "i < 4096" and "j < 4096" and "12 \<le> off" and "off + 4 \<le> 96"
  shows "inode_view (st32 m (fld T j off) v) T i = inode_view m T i"
  using assms by (auto simp: inode_view_def field_frames)

lemma field_in_table: "i < 2048 \<Longrightarrow> off + n \<le> 104 \<Longrightarrow> x \<in> span (fld T i off) n \<Longrightarrow> x \<in> span T 212992"
  using span_offset [of "104 * i + off" n 212992 T] by (auto simp: fld_def)

lemma view_agree:
  assumes "\<And>x. x \<in> span T 212992 \<Longrightarrow> m' x = m x" and "i < 2048"
  shows "inode_view m' T i = inode_view m T i"
proof -
  have f: "m' x = m x" if "x \<in> span (fld T i off) n" "off + n \<le> 104" for x off n
    using field_in_table [OF assms(2) that(2,1)] by (rule assms(1))
  have "ld32 m' (fld T i 0) = ld32 m (fld T i 0)" "ld32 m' (fld T i 4) = ld32 m (fld T i 4)" "ld32 m' (fld T i 8) = ld32 m (fld T i 8)"
    by (rule ld32_cong, erule f, simp)+
  moreover have "ld64 m' (fld T i 96) = ld64 m (fld T i 96)" by (rule ld64_cong, erule f, simp)
  ultimately show ?thesis by (simp add: inode_view_def)
qed

subsection \<open>Frames of the file system's state\<close>

lemma fs_frame [simp, frame_simps]:
  "fsys (printk f as k) = fsys k" "fsys (set_ram m k) = fsys k" "fsys (put32 p v k) = fsys k"
  "fsys (put64 p w k) = fsys k" "fsys (put8 p b k) = fsys k" "fsys (on_fs g k) = g (fsys k)"
  "mem (on_fs g k) = mem k" "mem (on_super h k) = mem k" "mem (upd_file i u k) = mem k"
  "mem (put64 p w k) = (mem k)\<lparr>ram := st64 (kram k) p w\<rparr>"
  "fsys (on_super h k) = (fsys k)\<lparr>fs_superblock := h (fs_superblock (fsys k))\<rparr>"
  "fsys (upd_file i u k) = (fsys k)\<lparr>open_files := (open_files (fsys k))[i := u (open_files (fsys k) ! i)]\<rparr>"
  for k :: "'a kfs_scheme"
  by (simp_all add: printk_def set_ram_def put32_def put64_def put8_def on_fs_def on_super_def upd_file_def split: option.split)

lemma malloc_fsys:
  fixes k :: "'a kfs_scheme"
  assumes "malloc n k = Some (p, k')"
  shows "fsys k' = fsys k"
  using malloc_more [OF assms] by (cases k; cases k') simp

subsection \<open>A fresh file system\<close>

text \<open>The tables are where they should be: in buffers of the heap, of the sizes \<open>fs_init\<close> asks for.\<close>

definition fs_store :: "nat \<Rightarrow> 'a kfs_scheme \<Rightarrow> blocks \<times> nat \<Rightarrow> bool" where
  "fs_store a k st \<longleftrightarrow> heap_rel a k st \<and> length (open_files (fsys k)) = 128 \<and> inode_table (fsys k) \<noteq> 0
     \<and> (\<exists>l\<ge>212992. (inode_table (fsys k), l) \<in> heap_owned a st)
     \<and> (\<exists>l\<ge>4096. (block_bitmap (fsys k), l) \<in> heap_owned a st) \<and> inode_table (fsys k) \<noteq> block_bitmap (fsys k)"

text \<open>Exactly the inodes 1 to \<open>n\<close> are allocated.\<close>

definition inodes_used :: "'a kfs_scheme \<Rightarrow> nat \<Rightarrow> bool" where
  "inodes_used k n \<longleftrightarrow> n < 2048 \<and> free_inodes (fs_superblock (fsys k)) = of_nat (2048 - n)
     \<and> (\<forall>i<2048. fst (inode_view (kram k) (inode_table (fsys k)) i) = (if i \<le> n then of_nat i else 0))"

lemma ram_fold:
  fixes k :: "'a kfs_scheme"
  assumes "\<And>i k. fsys k = s \<Longrightarrow> fsys (f i k) = s \<and> mem (f i k) = (mem k)\<lparr>ram := g i (kram k)\<rparr>" and "fsys k = s"
  shows "fsys (fold f is k) = s \<and> mem (fold f is k) = (mem k)\<lparr>ram := fold g is (kram k)\<rparr>"
  using assms(2)
proof (induction "is" arbitrary: k)
  case (Cons i "is")
  from assms(1) [OF Cons.prems, of i] Cons.IH [of "f i k"] show ?case by simp
qed simp

definition clear_bitmaps :: "u64 \<Rightarrow> u64 \<Rightarrow> ram \<Rightarrow> ram" where
  "clear_bitmaps b c m = fold (\<lambda>i m. m(b + of_nat i := 0, c + of_nat i := 0)) [0..<4096] m"

lemma clear_bitmaps_closed: "fold (\<lambda>i m. m(b + of_nat i := 0, c + of_nat i := 0)) [0..<n] m x
    = (if x \<in> span b n \<or> x \<in> span c n then 0 else (m :: ram) x)"
proof (induction n)
  case (Suc n)
  have "x \<in> span p (Suc n) \<longleftrightarrow> x \<in> span p n \<or> x = p + of_nat n" for p
    by (auto simp: span_def lessThan_Suc)
  with Suc show ?case by auto
qed simp

definition clear_inode :: "u64 \<Rightarrow> nat \<Rightarrow> ram \<Rightarrow> ram" where
  "clear_inode T i m = st64 (st32 (st32 (st32 m (fld T i 0) 0) (fld T i 4) 0) (fld T i 8) 0) (fld T i 96) 0"

definition root_ram :: "u64 \<Rightarrow> ram \<Rightarrow> ram" where
  "root_ram T m = st32 (st32 (st32 (st32 (st32 (st32 m (fld T 0 0) 0) (fld T 0 4) FS_TYPE_DIR) (fld T 0 8) 0)
     (fld T 0 12) 0x1ED) (fld T 0 16) 0) (fld T 0 32) 1"

lemma field_writes_inside:
  assumes "i < 2048" and "off + 4 \<le> 104" and "x \<notin> span T 212992"
  shows "st32 m (fld T i off) v x = m x"
  using assms field_in_table by (intro st32_other) blast

lemma clear_inode_frame: "i < 2048 \<Longrightarrow> x \<notin> span T 212992 \<Longrightarrow> clear_inode T i m x = m x"
proof -
  assume i: "i < 2048" and x: "x \<notin> span T 212992"
  have "x \<notin> span (fld T i 96) 8" using field_in_table [OF i, of 96 8] x by auto
  then show ?thesis using i x by (simp add: clear_inode_def st64_other field_writes_inside)
qed

lemma clear_inode_view: "i < 4096 \<Longrightarrow> j < 4096 \<Longrightarrow> inode_view (clear_inode T j m) T i = (if i = j then (0, 0, 0, 0) else inode_view m T i)"
  by (cases "inode_view m T i"; cases "i = j") (simp_all add: clear_inode_def)

lemma clear_inodes_view:
  "n \<le> 2048 \<Longrightarrow> i < 2048 \<Longrightarrow> inode_view (fold (clear_inode T) [0..<n] m) T i = (if i < n then (0, 0, 0, 0) else inode_view m T i)"
  by (induction n) (auto simp: clear_inode_view less_Suc_eq)

lemma clear_inodes_frame: "n \<le> 2048 \<Longrightarrow> x \<notin> span T 212992 \<Longrightarrow> fold (clear_inode T) [0..<n] m x = m x"
  by (induction n) (auto simp: clear_inode_frame)

definition fs_ram :: "u64 \<Rightarrow> u64 \<Rightarrow> u64 \<Rightarrow> ram \<Rightarrow> ram" where
  "fs_ram b c T m = root_ram T (fold (clear_inode T) [0..<2048] (clear_bitmaps b c m))"

lemma fs_ram_view: "i < 2048 \<Longrightarrow> inode_view (fs_ram b c T m) T i = (0, if i = 0 then FS_TYPE_DIR else 0, 0, 0)"
  by (simp add: fs_ram_def root_ram_def clear_inodes_view del: upt_rec_numeral)

lemma fs_ram_other: "x \<notin> span T 212992 \<Longrightarrow> fs_ram b c T m x = clear_bitmaps b c m x"
  by (simp add: fs_ram_def root_ram_def field_writes_inside clear_inodes_frame del: upt_rec_numeral)

text \<open>What \<open>fs_init\<close> does once the three buffers are there.\<close>

definition fs_tables :: "'a kfs_scheme \<Rightarrow> 'a kfs_scheme" where
  "fs_tables k =
     (let k = fold (\<lambda>i k. put8 (inode_bitmap (fsys k) + of_nat i) 0 (put8 (bitmap_at k i) 0 k)) [0..<4096] k;
          k = fold (\<lambda>i k.
                 let p = inode_at k (of_nat i)
                 in put64 (in_data p) 0 (put32 (in_size p) 0 (put32 (in_type p) 0 (put32 (in_id p) 0 k)))) [0..<2048] k;
          k = on_fs (\<lambda>s. s\<lparr>open_files := map (\<lambda>f. f\<lparr>fd := 0, fd_inode := 0, fd_refs := 0\<rparr>) (open_files s)\<rparr>) k;
          root = inode_at k 0
      in put32 (in_link_count root) 1 (put32 (in_owner_id root) 0 (put32 (in_permissions root) 0x1ED
           (put32 (in_size root) 0 (put32 (in_type root) FS_TYPE_DIR (put32 (in_id root) 0 k))))))"

lemma inode_at_nat: "i < 2048 \<Longrightarrow> inode_at k (of_nat i) = ino (inode_table (fsys k)) i"
  by (simp add: inode_at_ino unat_of_nat)

lemma fs_tables_effect:
  fixes k :: "'a kfs_scheme"
  shows "fsys (fs_tables k) = (fsys k)\<lparr>open_files := map (\<lambda>f. f\<lparr>fd := 0, fd_inode := 0, fd_refs := 0\<rparr>) (open_files (fsys k))\<rparr>
    \<and> mem (fs_tables k) = (mem k)\<lparr>ram := fs_ram (block_bitmap (fsys k)) (inode_bitmap (fsys k)) (inode_table (fsys k)) (kram k)\<rparr>"
proof -
  let ?b = "block_bitmap (fsys k)" and ?c = "inode_bitmap (fsys k)" and ?T = "inode_table (fsys k)"
  let ?f = "\<lambda>i k. put8 (inode_bitmap (fsys k) + of_nat i) 0 (put8 (bitmap_at k i) 0 (k :: 'a kfs_scheme))"
  let ?h = "\<lambda>i k. let p = inode_at k (of_nat i)
     in put64 (in_data p) 0 (put32 (in_size p) 0 (put32 (in_type p) 0 (put32 (in_id p) 0 (k :: 'a kfs_scheme))))"
  let ?k1 = "fold ?f [0..<4096] k"
  have k1: "fsys ?k1 = fsys k \<and> mem ?k1 = (mem k)\<lparr>ram := clear_bitmaps ?b ?c (kram k)\<rparr>"
    unfolding clear_bitmaps_def by (rule ram_fold) (simp_all add: bitmap_at_def)
  let ?k2 = "fold ?h [0..<2048] ?k1"
  have cong: "fold (\<lambda>i. if i < 2048 then clear_inode ?T i else id) [0..<2048] m = fold (clear_inode ?T) [0..<2048] m" for m
    by (rule fold_cong) (auto simp del: upt_rec_numeral)
  have congh: "fold ?h [0..<2048] ?k1 = fold (\<lambda>i. if i < 2048 then ?h i else id) [0..<2048] ?k1"
    by (rule fold_cong) (auto simp del: upt_rec_numeral)
  have "fsys (fold (\<lambda>i. if i < 2048 then ?h i else id) [0..<2048] ?k1) = fsys k
      \<and> mem (fold (\<lambda>i. if i < 2048 then ?h i else id) [0..<2048] ?k1)
        = (mem ?k1)\<lparr>ram := fold (\<lambda>i. if i < 2048 then clear_inode ?T i else id) [0..<2048] (kram ?k1)\<rparr>"
    by (rule ram_fold) (use k1 in \<open>auto simp: Let_def inode_at_nat in_fields clear_inode_def\<close>)
  then have k2: "fsys ?k2 = fsys k \<and> mem ?k2 = (mem k)\<lparr>ram := fold (clear_inode ?T) [0..<2048] (clear_bitmaps ?b ?c (kram k))\<rparr>"
    unfolding cong congh using k1 by simp
  have r: "inode_at k' 0 = ino (inode_table (fsys k')) 0" for k' :: "'a kfs_scheme" by (simp add: inode_at_ino)
  show ?thesis
    unfolding fs_tables_def Let_def using k2 by (simp add: r in_fields fs_ram_def root_ram_def Let_def del: upt_rec_numeral)
qed

subsection \<open>Building the file system\<close>

lemma take_buffer:
  fixes k :: "'a kfs_scheme"
  assumes "heap_rel a k st" and "0 < n" and "n \<le> 2097000"
  obtains p k1 st1 where "malloc (of_nat n) k = Some (p, k1)" "fsys k1 = fsys k" "heap_rel a k1 st1"
    "heap_owned a st \<subseteq> heap_owned a st1" "\<forall>(q, l)\<in>heap_owned a st. \<forall>x\<in>span q l. kram k1 x = kram k x"
    "p = 0 \<or> (\<exists>l\<ge>n. (p, l) \<notin> heap_owned a st \<and> (p, l) \<in> heap_owned a st1)"
    "p = 0 \<longrightarrow> snd st = 0" "snd st \<le> snd st1 + 1"
proof -
  have n: "n < 2 ^ 64" using assms(3) by simp
  obtain p k1 st1 where m: "malloc (of_nat n) k = Some (p, k1)" "heap_rel a k1 st1"
      "\<forall>(q, l)\<in>heap_owned a st. \<forall>x\<in>span q l. kram k1 x = kram k x"
      "p = 0 \<and> heap_owned a st1 = heap_owned a st
        \<or> p \<noteq> 0 \<and> (\<exists>l\<ge>n. (p, l) \<notin> heap_owned a st \<and> heap_owned a st1 = insert (p, l) (heap_owned a st))"
      "0 < snd st \<longrightarrow> p \<noteq> 0 \<and> snd st \<le> snd st1 + 1"
    using malloc_contract [OF assms(1) n] assms(2,3) by blast
  from m(4) have "heap_owned a st \<subseteq> heap_owned a st1" by blast
  moreover from m(4) have "p = 0 \<or> (\<exists>l\<ge>n. (p, l) \<notin> heap_owned a st \<and> (p, l) \<in> heap_owned a st1)" by blast
  moreover from m(5) have "p = 0 \<longrightarrow> snd st = 0" "snd st \<le> snd st1 + 1" by auto
  ultimately show thesis using that [OF m(1) malloc_fsys [OF m(1)] m(2) _ m(3)] by blast
qed

lemma owned_nonzero:
  assumes "heap_rel a k st" and "(p, l) \<in> heap_owned a st"
  shows "p \<noteq> 0" and "unat p + l \<le> 2 ^ 64"
proof -
  obtain x ds where x: "(x, l) \<in> live a (fst st)" "p = of_nat x" "heap_inv (mem k) a (fst st) ds"
    using assms by (auto simp: heap_owned_def heap_rel_def)
  note b = live_address [OF x(3,1)]
  show "p \<noteq> 0" using b(1) of_nat64_eq_0 [OF b(2)] x(2) by simp
  show "unat p + l \<le> 2 ^ 64" using b(3) unat_of_nat64 [OF b(2)] x(2) by simp
qed

text \<open>Writing the three buffers keeps the heap and every other buffer.\<close>

lemma new_apart:
  assumes "heap_rel a k st" and "(p, l) \<in> heap_owned a st" and "(q, j) \<in> heap_owned a st" and "(q, j) \<noteq> (p, l)"
    and "n \<le> l" and "x \<in> span q j"
  shows "x \<notin> span p n"
  using kheap.disjoint [OF assms(1,3,2,4)] assms(6) span_mono [OF assms(5), of p] by blast

definition fs_start :: "'a kfs_scheme \<Rightarrow> 'a kfs_scheme" where
  "fs_start k = on_super (\<lambda>_. \<lparr>block_size = of_nat FS_BLOCK_SIZE, total_blocks = of_nat FS_MAX_BLOCKS,
       total_inodes = of_nat FS_MAX_INODES, free_blocks = of_nat FS_MAX_BLOCKS,
       free_inodes = of_nat FS_MAX_INODES, block_bitmap_start = 0,
       inode_bitmap_start = of_nat FS_BLOCK_SIZE, inode_table_start = of_nat (FS_BLOCK_SIZE * 2),
       data_blocks_start = of_nat (FS_BLOCK_SIZE * (2 + FS_MAX_INODES div 512))\<rparr>)
     (printk (''[FS] Initializing file system...'' @ NL) [] k)"

lemma fs_start_frame:
  fixes k :: "'a kfs_scheme"
  shows "mem (fs_start k) = mem k" and "open_files (fsys (fs_start k)) = open_files (fsys k)"
    and "free_inodes (fs_superblock (fsys (fs_start k))) = 2048" and "next_fd (fsys (fs_start k)) = next_fd (fsys k)"
  by (simp_all add: fs_start_def)

text \<open>The three allocations of \<open>fs_init\<close>.\<close>

definition three_buffers :: "'a kfs_scheme \<Rightarrow> 'a kfs_scheme option" where
  "three_buffers k = do {
     (p, k) \<leftarrow> malloc (of_nat FS_BLOCK_SIZE) (fs_start k);
     let k = on_fs (\<lambda>s. s\<lparr>block_bitmap := p\<rparr>) k;
     (p, k) \<leftarrow> malloc (of_nat FS_BLOCK_SIZE) k;
     let k = on_fs (\<lambda>s. s\<lparr>inode_bitmap := p\<rparr>) k;
     (p, k) \<leftarrow> malloc (of_nat (SIZEOF_inode * FS_MAX_INODES)) k;
     Some (on_fs (\<lambda>s. s\<lparr>inode_table := p\<rparr>) k)
   }"

text \<open>The messages at the end.\<close>

definition fs_report :: "'a kfs_scheme \<Rightarrow> 'a kfs_scheme" where
  "fs_report k =
     (let k = printk (''[FS] File system initialized successfully'' @ NL) [] k;
          k = printk (''[FS] Block size: %d bytes'' @ NL) [ArgW (of_nat FS_BLOCK_SIZE)] k;
          k = printk (''[FS] Total blocks: %d'' @ NL) [ArgW (of_nat FS_MAX_BLOCKS)] k
      in printk (''[FS] Total inodes: %d'' @ NL) [ArgW (of_nat FS_MAX_INODES)] k)"

lemma fs_report_frame: "fsys (fs_report k) = fsys k \<and> mem (fs_report k) = mem k" for k :: "'a kfs_scheme"
  by (simp add: fs_report_def Let_def)

lemma fs_init_form:
  fixes k :: "'a kfs_scheme"
  shows "fs_init k = do {
    k \<leftarrow> three_buffers k;
    if block_bitmap (fsys k) = 0 \<or> inode_bitmap (fsys k) = 0 \<or> inode_table (fsys k) = 0
    then Some (printk (''[FS] ERROR: Failed to allocate file system structures'' @ NL) [] k)
    else Some (fs_report (fs_tables k))
  }"
  unfolding fs_init_def three_buffers_def
  unfolding fs_report_def fs_tables_def fs_start_def Let_def split_beta
  unfolding Option.bind_assoc
  unfolding Option.bind_lunit
  by (rule refl)

lemma three_buffers_taken:
  fixes k :: "'a kfs_scheme"
  assumes "heap_rel a k st"
  obtains k3 st3 where "three_buffers k = Some k3" "heap_rel a k3 st3" "heap_owned a st \<subseteq> heap_owned a st3"
    "\<forall>(q, l)\<in>heap_owned a st. \<forall>x\<in>span q l. kram k3 x = kram k x"
    "open_files (fsys k3) = open_files (fsys k)" "free_inodes (fs_superblock (fsys k3)) = 2048"
    "next_fd (fsys k3) = next_fd (fsys k)"
    "snd st \<le> snd st3 + 3"
    "(block_bitmap (fsys k3) = 0 \<or> inode_bitmap (fsys k3) = 0 \<or> inode_table (fsys k3) = 0) \<and> snd st < 3
     \<or> (\<exists>l\<ge>4096. \<exists>j\<ge>4096. \<exists>i\<ge>212992. (block_bitmap (fsys k3), l) \<in> heap_owned a st3 - heap_owned a st
        \<and> (inode_bitmap (fsys k3), j) \<in> heap_owned a st3 - heap_owned a st - {(block_bitmap (fsys k3), l)}
        \<and> (inode_table (fsys k3), i) \<in> heap_owned a st3 - heap_owned a st - {(block_bitmap (fsys k3), l), (inode_bitmap (fsys k3), j)})"
proof -
  let ?k0 = "fs_start k"
  have b: "(0 :: nat) < 4096" "4096 \<le> (2097000 :: nat)" "0 < SIZEOF_inode * FS_MAX_INODES" "SIZEOF_inode * FS_MAX_INODES \<le> 2097000" by simp_all
  have h0: "heap_rel a ?k0 st" using assms heap_rel_mem [OF fs_start_frame(1)] by blast
  obtain p1 k1 st1 where m1: "malloc (of_nat FS_BLOCK_SIZE) ?k0 = Some (p1, k1)" "fsys k1 = fsys ?k0" "heap_rel a k1 st1"
      "heap_owned a st \<subseteq> heap_owned a st1" "\<forall>(q, l)\<in>heap_owned a st. \<forall>x\<in>span q l. kram k1 x = kram ?k0 x"
      "p1 = 0 \<or> (\<exists>l\<ge>4096. (p1, l) \<notin> heap_owned a st \<and> (p1, l) \<in> heap_owned a st1)"
      "p1 = 0 \<longrightarrow> snd st = 0" "snd st \<le> snd st1 + 1"
    by (rule take_buffer [OF h0 b(1,2)])
  let ?k1 = "on_fs (\<lambda>s. s\<lparr>block_bitmap := p1\<rparr>) k1"
  have h1: "heap_rel a ?k1 st1" using m1(3) heap_rel_mem [of ?k1 k1] by simp
  obtain p2 k2 st2 where m2: "malloc (of_nat FS_BLOCK_SIZE) ?k1 = Some (p2, k2)" "fsys k2 = fsys ?k1" "heap_rel a k2 st2"
      "heap_owned a st1 \<subseteq> heap_owned a st2" "\<forall>(q, l)\<in>heap_owned a st1. \<forall>x\<in>span q l. kram k2 x = kram ?k1 x"
      "p2 = 0 \<or> (\<exists>l\<ge>4096. (p2, l) \<notin> heap_owned a st1 \<and> (p2, l) \<in> heap_owned a st2)"
      "p2 = 0 \<longrightarrow> snd st1 = 0" "snd st1 \<le> snd st2 + 1"
    by (rule take_buffer [OF h1 b(1,2)])
  let ?k2 = "on_fs (\<lambda>s. s\<lparr>inode_bitmap := p2\<rparr>) k2"
  have h2: "heap_rel a ?k2 st2" using m2(3) heap_rel_mem [of ?k2 k2] by simp
  obtain p3 k3 st3 where m3: "malloc (of_nat (SIZEOF_inode * FS_MAX_INODES)) ?k2 = Some (p3, k3)" "fsys k3 = fsys ?k2"
      "heap_rel a k3 st3" "heap_owned a st2 \<subseteq> heap_owned a st3"
      "\<forall>(q, l)\<in>heap_owned a st2. \<forall>x\<in>span q l. kram k3 x = kram ?k2 x"
      "p3 = 0 \<or> (\<exists>l\<ge>SIZEOF_inode * FS_MAX_INODES. (p3, l) \<notin> heap_owned a st2 \<and> (p3, l) \<in> heap_owned a st3)"
      "p3 = 0 \<longrightarrow> snd st2 = 0" "snd st2 \<le> snd st3 + 1"
    by (rule take_buffer [OF h2 b(3,4)])
  let ?k3 = "on_fs (\<lambda>s. s\<lparr>inode_table := p3\<rparr>) k3"
  have t: "three_buffers k = Some ?k3"
    unfolding three_buffers_def Let_def by (simp only: m1(1) m2(1) m3(1) Option.bind_lunit prod.case)
  have h3: "heap_rel a ?k3 st3" using m3(3) heap_rel_mem [of ?k3 k3] by simp
  have f: "block_bitmap (fsys ?k3) = p1" "inode_bitmap (fsys ?k3) = p2" "inode_table (fsys ?k3) = p3"
      "open_files (fsys ?k3) = open_files (fsys k)" "free_inodes (fs_superblock (fsys ?k3)) = 2048"
      "next_fd (fsys ?k3) = next_fd (fsys k)"
    by (simp_all add: m3(2) m2(2) m1(2) fs_start_frame)
  have r: "\<forall>(q, l)\<in>heap_owned a st. \<forall>x\<in>span q l. kram ?k3 x = kram k x"
  proof (intro ballI, clarify)
    fix q l x assume q: "(q, l) \<in> heap_owned a st" "x \<in> span q l"
    have "kram k3 x = kram k2 x" using m3(5) q m1(4) m2(4) by fastforce
    also have "kram k2 x = kram k1 x" using m2(5) q m1(4) by fastforce
    also have "kram k1 x = kram k x" using m1(5) q by (auto simp: fs_start_frame)
    finally show "kram ?k3 x = kram k x" by simp
  qed
  have pages: "snd st \<le> snd st3 + 3" using m1(8) m2(8) m3(8) by linarith
  have o: "(p1 = 0 \<or> p2 = 0 \<or> p3 = 0) \<and> snd st < 3 \<or> (\<exists>l\<ge>4096. \<exists>j\<ge>4096. \<exists>i\<ge>212992. (p1, l) \<in> heap_owned a st3 - heap_owned a st
        \<and> (p2, j) \<in> heap_owned a st3 - heap_owned a st - {(p1, l)}
        \<and> (p3, i) \<in> heap_owned a st3 - heap_owned a st - {(p1, l), (p2, j)})"
  proof (cases "p1 = 0 \<or> p2 = 0 \<or> p3 = 0")
    case False
    then obtain l j i where l: "4096 \<le> l" "(p1, l) \<notin> heap_owned a st" "(p1, l) \<in> heap_owned a st1"
        and j: "4096 \<le> j" "(p2, j) \<notin> heap_owned a st1" "(p2, j) \<in> heap_owned a st2"
        and i: "212992 \<le> i" "(p3, i) \<notin> heap_owned a st2" "(p3, i) \<in> heap_owned a st3"
      using m1(6) m2(6) m3(6) by auto
    have "(p1, l) \<in> heap_owned a st3 - heap_owned a st" "(p2, j) \<in> heap_owned a st3 - heap_owned a st - {(p1, l)}"
        "(p3, i) \<in> heap_owned a st3 - heap_owned a st - {(p1, l), (p2, j)}"
      using l(2,3) j(2,3) i(2,3) m1(4) m2(4) m3(4) by blast+
    with l(1) j(1) i(1) show ?thesis by blast
  next
    case True
    then have "snd st < 3" using m1(7,8) m2(7,8) m3(7,8) by auto
    with True show ?thesis by blast
  qed
  have sub: "heap_owned a st \<subseteq> heap_owned a st3" using m1(4) m2(4) m3(4) by blast
  show thesis
    by (rule that [OF t h3 sub r f(4-6) pages]) (use o in \<open>simp only: f(1-3)\<close>)
qed


text \<open>Writing the fresh tables into the three buffers.\<close>

lemma fs_ram_changes:
  "fs_ram b c T m x \<noteq> m x \<Longrightarrow> x \<in> span b 4096 \<or> x \<in> span c 4096 \<or> x \<in> span T 212992"
  using fs_ram_other [of x T b c m] by (auto simp: clear_bitmaps_def clear_bitmaps_closed split: if_splits)

lemma tables_written:
  fixes k :: "'a kfs_scheme"
  assumes h: "heap_rel a k st"
    and o: "(block_bitmap (fsys k), l) \<in> heap_owned a st" "(inode_bitmap (fsys k), j) \<in> heap_owned a st"
      "(inode_table (fsys k), i) \<in> heap_owned a st" "(inode_table (fsys k), i) \<noteq> (block_bitmap (fsys k), l)"
    and n: "4096 \<le> l" "4096 \<le> j" "212992 \<le> i" "length (open_files (fsys k)) = 128" "inode_table (fsys k) \<noteq> 0"
      "free_inodes (fs_superblock (fsys k)) = 2048"
    and k': "k' = fs_report (fs_tables k)"
  shows "fs_store a k' st" and "inodes_used k' 0"
    and "inode_view (kram k') (inode_table (fsys k')) 0 = (0, FS_TYPE_DIR, 0, 0)"
    and "\<forall>n<4096. kram k' (bitmap_at k' n) = 0" and "\<forall>f\<in>set (open_files (fsys k')). fd f = 0 \<and> fd_inode f = 0 \<and> fd_refs f = 0"
    and "next_fd (fsys k') = next_fd (fsys k)" and "(q, n) \<in> heap_owned a st - {(block_bitmap (fsys k), l), (inode_bitmap (fsys k), j), (inode_table (fsys k), i)}
      \<Longrightarrow> x \<in> span q n \<Longrightarrow> kram k' x = kram k x"
proof -
  let ?b = "block_bitmap (fsys k)" and ?c = "inode_bitmap (fsys k)" and ?T = "inode_table (fsys k)"
  let ?m = "fs_ram ?b ?c ?T (kram k)"
  have e: "mem k' = (mem k)\<lparr>ram := ?m\<rparr>"
      "fsys k' = (fsys k)\<lparr>open_files := map (\<lambda>f. f\<lparr>fd := 0, fd_inode := 0, fd_refs := 0\<rparr>) (open_files (fsys k))\<rparr>"
    using fs_tables_effect [of k] fs_report_frame [of "fs_tables k"] by (simp_all add: k')
  have "heap_rel a (set_ram ?m k) st"
  proof (rule kstore.poke_law [OF h])
    fix x assume "?m x \<noteq> kram k x"
    from fs_ram_changes [OF this] show "\<exists>(q, n)\<in>heap_owned a st. x \<in> span q n"
      using o(1-3) span_mono [OF n(1)] span_mono [OF n(2)] span_mono [OF n(3)] by blast
  qed
  then have h': "heap_rel a k' st" using heap_rel_mem [of k' "set_ram ?m k"] by (simp add: e(1))
  have ne: "?T \<noteq> ?b"
  proof
    assume "?T = ?b"
    with o(4) kheap.same_block [OF h o(1), of i] o(3) n(1,3) show False by auto
  qed
  then show "fs_store a k' st" unfolding fs_store_def using h' n o(1,3) by (auto simp: e(2))
  show "inodes_used k' 0" using n(6) by (simp add: inodes_used_def e fs_ram_view)
  show "inode_view (kram k') (inode_table (fsys k')) 0 = (0, FS_TYPE_DIR, 0, 0)" by (simp add: e fs_ram_view)
  show "\<forall>f\<in>set (open_files (fsys k')). fd f = 0 \<and> fd_inode f = 0 \<and> fd_refs f = 0" by (simp add: e(2))
  show "next_fd (fsys k') = next_fd (fsys k)" by (simp add: e(2))
  show "\<forall>n<4096. kram k' (bitmap_at k' n) = 0"
  proof (intro allI impI)
    fix p :: nat assume "p < 4096"
    then have x: "?b + of_nat p \<in> span ?b 4096" by (simp add: span_def)
    then have "?b + of_nat p \<in> span ?b l" using span_mono [OF n(1)] by blast
    from new_apart [OF h o(3,1) o(4) [symmetric] n(3) this] have "?b + of_nat p \<notin> span ?T 212992" by blast
    with x show "kram k' (bitmap_at k' p) = 0"
      by (simp add: e bitmap_at_def fs_ram_other clear_bitmaps_def clear_bitmaps_closed)
  qed
  show "kram k' x = kram k x"
    if q: "(q, n) \<in> heap_owned a st - {(?b, l), (?c, j), (?T, i)}" and x: "x \<in> span q n"
  proof (rule ccontr)
    assume "kram k' x \<noteq> kram k x"
    then have "?m x \<noteq> kram k x" by (simp add: e(1))
    from fs_ram_changes [OF this] show False
      using new_apart [OF h o(1) _ _ n(1) x] new_apart [OF h o(2) _ _ n(2) x] new_apart [OF h o(3) _ _ n(3) x] q by blast
  qed
qed

lemma fs_init_builds:
  fixes k :: "'a kfs_scheme"
  assumes "heap_rel a k st" and "length (open_files (fsys k)) = 128"
  shows "\<exists>k' st'. fs_init k = Some k' \<and> heap_rel a k' st'
    \<and> (\<forall>(q, n)\<in>heap_owned a st. (q, n) \<in> heap_owned a st' \<and> (\<forall>x\<in>span q n. kram k' x = kram k x))
    \<and> ((block_bitmap (fsys k') = 0 \<or> inode_bitmap (fsys k') = 0 \<or> inode_table (fsys k') = 0) \<and> snd st < 3
       \<or> snd st \<le> snd st' + 3 \<and> fs_store a k' st' \<and> inodes_used k' 0
         \<and> inode_view (kram k') (inode_table (fsys k')) 0 = (0, FS_TYPE_DIR, 0, 0)
         \<and> (\<forall>n<4096. kram k' (bitmap_at k' n) = 0)
         \<and> (\<forall>f\<in>set (open_files (fsys k')). fd f = 0 \<and> fd_inode f = 0 \<and> fd_refs f = 0) \<and> next_fd (fsys k') = next_fd (fsys k))"
proof -
  obtain k3 st3 where t: "three_buffers k = Some k3" "heap_rel a k3 st3" "heap_owned a st \<subseteq> heap_owned a st3"
    "\<forall>(q, l)\<in>heap_owned a st. \<forall>x\<in>span q l. kram k3 x = kram k x"
    "open_files (fsys k3) = open_files (fsys k)" "free_inodes (fs_superblock (fsys k3)) = 2048"
    "next_fd (fsys k3) = next_fd (fsys k)"
    and pages: "snd st \<le> snd st3 + 3"
    and o: "(block_bitmap (fsys k3) = 0 \<or> inode_bitmap (fsys k3) = 0 \<or> inode_table (fsys k3) = 0) \<and> snd st < 3
     \<or> (\<exists>l\<ge>4096. \<exists>j\<ge>4096. \<exists>i\<ge>212992. (block_bitmap (fsys k3), l) \<in> heap_owned a st3 - heap_owned a st
        \<and> (inode_bitmap (fsys k3), j) \<in> heap_owned a st3 - heap_owned a st - {(block_bitmap (fsys k3), l)}
        \<and> (inode_table (fsys k3), i) \<in> heap_owned a st3 - heap_owned a st - {(block_bitmap (fsys k3), l), (inode_bitmap (fsys k3), j)})"
    by (rule three_buffers_taken [OF assms(1)])
  have old: "\<forall>(q, n)\<in>heap_owned a st. (q, n) \<in> heap_owned a st3" using t(3) by blast
  show ?thesis
  proof (cases "block_bitmap (fsys k3) = 0 \<or> inode_bitmap (fsys k3) = 0 \<or> inode_table (fsys k3) = 0")
    case True
    let ?k = "printk (''[FS] ERROR: Failed to allocate file system structures'' @ NL) [] k3"
    have "fs_init k = Some ?k" using True by (simp add: fs_init_form t(1))
    moreover have "heap_rel a ?k st3" using t(2) heap_rel_mem [of ?k k3] by simp
    moreover have "snd st < 3"
    proof (rule ccontr)
      assume "\<not> snd st < 3"
      with o obtain l j i where "4096 \<le> l" "(block_bitmap (fsys k3), l) \<in> heap_owned a st3"
          "4096 \<le> j" "(inode_bitmap (fsys k3), j) \<in> heap_owned a st3"
          "212992 \<le> i" "(inode_table (fsys k3), i) \<in> heap_owned a st3" by blast
      with True show False using owned_nonzero [OF t(2)] by blast
    qed
    ultimately show ?thesis using True t(3,4) by (intro exI [of _ ?k] exI [of _ st3]) auto
  next
    case False
    then obtain l j i where n: "4096 \<le> l" "4096 \<le> j" "212992 \<le> i"
        and w: "(block_bitmap (fsys k3), l) \<in> heap_owned a st3 - heap_owned a st"
          "(inode_bitmap (fsys k3), j) \<in> heap_owned a st3 - heap_owned a st"
          "(inode_table (fsys k3), i) \<in> heap_owned a st3 - heap_owned a st"
          "(inode_table (fsys k3), i) \<noteq> (block_bitmap (fsys k3), l)"
      using o by blast
    let ?k = "fs_report (fs_tables k3)"
    have f: "fs_init k = Some ?k" using False by (simp add: fs_init_form t(1))
    have len: "length (open_files (fsys k3)) = 128" using t(5) assms(2) by simp
    have T: "inode_table (fsys k3) \<noteq> 0" using False by blast
    have w': "(block_bitmap (fsys k3), l) \<in> heap_owned a st3" "(inode_bitmap (fsys k3), j) \<in> heap_owned a st3"
        "(inode_table (fsys k3), i) \<in> heap_owned a st3"
      using w by blast+
    note r = tables_written [OF t(2) w' w(4) n len T t(6) refl]
    have "(q, m) \<in> heap_owned a st3 \<and> (\<forall>x\<in>span q m. kram ?k x = kram k x)" if q: "(q, m) \<in> heap_owned a st" for q m
      using r(7) [of q m] t(3,4) q w(1-3) by fastforce
    moreover have "heap_rel a ?k st3" using r(1) by (simp add: fs_store_def)
    moreover have "next_fd (fsys ?k) = next_fd (fsys k)" using r(6) t(7) by (rule trans)
    ultimately show ?thesis using f r(1-5) pages by (intro exI [of _ ?k] exI [of _ st3]) blast
  qed
qed

text \<open>C8: \<open>fs_init\<close> returns, keeps the heap and every buffer in use, and, unless one of its three
  allocations failed (three free pages are enough), leaves a file system whose tables are buffers of the heap: no inode but the
  root directory is in use, no block is, and every descriptor is free.\<close>

theorem fs_init_builds_fs:
  fixes k :: "'a kfs_scheme"
  assumes "heap_rel a k st" and "length (open_files (fsys k)) = 128"
  shows "\<exists>k' st'. fs_init k = Some k' \<and> heap_rel a k' st'
    \<and> (\<forall>(q, n)\<in>heap_owned a st. (q, n) \<in> heap_owned a st' \<and> (\<forall>x\<in>span q n. kram k' x = kram k x))
    \<and> ((block_bitmap (fsys k') = 0 \<or> inode_bitmap (fsys k') = 0 \<or> inode_table (fsys k') = 0) \<and> snd st < 3
       \<or> snd st \<le> snd st' + 3 \<and> fs_store a k' st' \<and> inodes_used k' 0
         \<and> inode_view (kram k') (inode_table (fsys k')) 0 = (0, FS_TYPE_DIR, 0, 0)
         \<and> (\<forall>n<4096. kram k' (bitmap_at k' n) = 0)
         \<and> (\<forall>f\<in>set (open_files (fsys k')). fd f = 0 \<and> fd_inode f = 0 \<and> fd_refs f = 0) \<and> next_fd (fsys k') = next_fd (fsys k))"
  by (rule fs_init_builds [OF assms])

definition demo_fs :: kfs where
  "demo_fs = \<lparr>con = con demo_heap, mem = mem demo_heap, fsys = fs_boot\<rparr>"

lemma demo_fs_heap: "heap_rel 0xffff800000200000 demo_fs ([], 7)" and demo_fs_files: "length (open_files (fsys demo_fs)) = 128"
  using demo_heap_rel by (simp_all add: heap_rel_def demo_fs_def fs_boot_def)

theorem fs_init_builds_fs_witness:
  "\<exists>k' st'. fs_init demo_fs = Some k' \<and> fs_store 0xffff800000200000 k' st' \<and> inodes_used k' 0"
  using fs_init_builds_fs [OF demo_fs_heap demo_fs_files] by auto

end
