(* ===== verification/Files.thy ===== *)
theory Files
  imports Fs
begin

text \<open>
  The operations on the file system that \<open>fs_init\<close> built: creations number the inodes, the table of
  open files is a bounded map, and what reading and writing move between the caller's buffer and the
  block of the file.
\<close>

subsection \<open>Creating files and directories\<close>

lemma find_from_Some: "find P [a..<b] = Some i \<longleftrightarrow> a \<le> i \<and> i < b \<and> P i \<and> (\<forall>j. a \<le> j \<and> j < i \<longrightarrow> \<not> P j)"
proof
  assume "find P [a..<b] = Some i"
  then obtain n where n: "n < b - a" "P (a + n)" "i = a + n" "\<forall>m<n. \<not> P (a + m)" by (auto simp: find_Some_iff)
  have "\<not> P j" if "a \<le> j" "j < i" for j using n(3,4) that by (metis le_add_diff_inverse less_diff_conv2 nat_add_left_cancel_less)
  with n show "a \<le> i \<and> i < b \<and> P i \<and> (\<forall>j. a \<le> j \<and> j < i \<longrightarrow> \<not> P j)" by simp
next
  assume r: "a \<le> i \<and> i < b \<and> P i \<and> (\<forall>j. a \<le> j \<and> j < i \<longrightarrow> \<not> P j)"
  then show "find P [a..<b] = Some i"
    unfolding find_Some_iff by (intro exI [of _ "i - a"]) (auto simp: nth_upt)
qed

lemma free_inode_search:
  fixes k :: "'a kfs_scheme"
  assumes "inodes_used k n"
  shows "find (\<lambda>i. ld32 (kram k) (in_id (inode_at k (of_nat i))) = 0) [1..<FS_MAX_INODES]
    = (if n < 2047 then Some (n + 1) else None)"
proof -
  have u: "ld32 (kram k) (in_id (inode_at k (of_nat i))) = 0 \<longleftrightarrow> n < i" if "1 \<le> i" "i < 2048" for i
  proof -
    have "ld32 (kram k) (in_id (inode_at k (of_nat i))) = (if i \<le> n then of_nat i else 0)"
      using assms that by (simp add: inode_at_nat in_fields inodes_used_def inode_view_def)
    moreover have "(of_nat i :: u32) \<noteq> 0" using that by (simp add: word_unat_eq_iff unat_of_nat)
    ultimately show ?thesis by auto
  qed
  show ?thesis
  proof (cases "n < 2047")
    case True
    then show ?thesis unfolding find_from_Some if_P [OF True] using u u [of "n + 1"] by auto
  next
    case False
    then show ?thesis using u assms by (auto simp: find_None_iff inodes_used_def)
  qed
qed


datatype creation = NewFile string | NewDir string

fun create :: "creation \<Rightarrow> 'a kfs_scheme \<Rightarrow> int \<times> 'a kfs_scheme" where
  "create (NewFile name) k = fs_create_file (Some name) k"
| "create (NewDir name) k = fs_create_dir (Some name) k"

fun create_type :: "creation \<Rightarrow> u32" where
  "create_type (NewFile name) = FS_TYPE_FILE"
| "create_type (NewDir name) = FS_TYPE_DIR"

fun create_all :: "creation list \<Rightarrow> 'a kfs_scheme \<Rightarrow> int list \<times> 'a kfs_scheme" where
  "create_all [] k = ([], k)"
| "create_all (c # cs) k = (let (r, k) = create c k; (rs, k) = create_all cs k in (r # rs, k))"

lemma sint_small: "n < 2048 \<Longrightarrow> sint (of_nat n :: u32) = int n"
  by (simp add: signed_of_nat signed_take_bit_int_eq_self)

lemma small_id: "n < 2048 \<Longrightarrow> (of_nat n :: u32) \<noteq> NONE32" "n < 2048 \<Longrightarrow> unat (of_nat n :: u32) = n"
  by (simp_all add: word_unat_eq_iff unat_of_nat)

text \<open>The memory after a creation differs from the one before in one row of the table only.\<close>

definition row_only :: "u64 \<Rightarrow> nat \<Rightarrow> ram \<Rightarrow> ram \<Rightarrow> bool" where
  "row_only T i m m' \<longleftrightarrow> (\<forall>x. x \<notin> span T 212992 \<longrightarrow> m' x = m x) \<and> (\<forall>j<2048. j \<noteq> i \<longrightarrow> inode_view m' T j = inode_view m T j)"

lemma row_only_refl: "row_only T i m m" by (simp add: row_only_def)

lemma row_only_st32: "i < 2048 \<Longrightarrow> off \<in> {0, 4, 8} \<or> 12 \<le> off \<and> off + 4 \<le> 96 \<Longrightarrow> row_only T i m m' \<Longrightarrow> row_only T i m (st32 m' (fld T i off) v)"
  by (auto simp: row_only_def field_writes_inside)

lemma row_only_st64: "i < 2048 \<Longrightarrow> row_only T i m m' \<Longrightarrow> row_only T i m (st64 m' (fld T i 96) v)"
proof -
  assume i: "i < 2048" and r: "row_only T i m m'"
  have "x \<notin> span (fld T i 96) 8" if "x \<notin> span T 212992" for x using field_in_table [OF i, of 96 8] that by auto
  then show ?thesis using r i by (auto simp: row_only_def st64_other)
qed

lemma new_inode_step:
  fixes k :: "'a kfs_scheme"
  assumes u: "inodes_used k n" and n: "n < 2047"
  obtains k' where "create c k = (int (n + 1), k')" "inode_table (fsys k') = inode_table (fsys k)"
    "row_only (inode_table (fsys k)) (n + 1) (kram k) (kram k')"
    "inode_view (kram k') (inode_table (fsys k)) (n + 1) = (of_nat (n + 1), create_type c, 0, 0)"
    "mem k' = (mem k)\<lparr>ram := kram k'\<rparr>" "open_files (fsys k') = open_files (fsys k)" "next_fd (fsys k') = next_fd (fsys k)"
    "block_bitmap (fsys k') = block_bitmap (fsys k)" "last_created_inode (fsys k') = of_nat (n + 1)"
    "free_inodes (fs_superblock (fsys k')) = free_inodes (fs_superblock (fsys k)) - 1"
proof -
  define i where "i = n + 1"
  have i: "i < 2048" using n by (simp add: i_def)
  have al: "fs_alloc_inode k = (of_nat i, printk (''[FS] Allocated inode %d'' @ NL) [ArgW (of_nat i)]
      (on_super (\<lambda>s. s\<lparr>free_inodes := free_inodes s - 1\<rparr>) (put32 (fld (inode_table (fsys k)) i 0) (of_nat i) k)))"
    unfolding fs_alloc_inode_def free_inode_search [OF u] if_P [OF n] i_def [symmetric] using i by (simp add: inode_at_nat in_fields Let_def)
  have p: "inode_at k' (of_nat i) = ino (inode_table (fsys k')) i" for k' :: "'a kfs_scheme" using i by (rule inode_at_nat)
  show thesis
  proof (cases c)
    case (NewFile name)
    show thesis
      by (rule that [folded i_def, of "snd (create c k)"])
        (use i in \<open>simp_all add: NewFile fs_create_file_def al Let_def p in_fields small_id sint_small row_only_refl
            row_only_st32 row_only_st64 split_beta\<close>)
  next
    case (NewDir name)
    show thesis
      by (rule that [folded i_def, of "snd (create c k)"])
        (use i in \<open>simp_all add: NewDir fs_create_dir_def al Let_def p in_fields small_id sint_small row_only_refl
            row_only_st32 row_only_st64 split_beta\<close>)
  qed
qed

lemma create_full:
  fixes k :: "'a kfs_scheme"
  assumes u: "inodes_used k 2047"
  obtains k' where "create c k = (-1, k')" "mem k' = mem k" "fsys k' = fsys k"
proof -
  have al: "fs_alloc_inode k = (NONE32, printk (''[FS] ERROR: No free inodes'' @ NL) [] k)"
    unfolding fs_alloc_inode_def free_inode_search [OF u] by simp
  show thesis
    by (rule that [of "snd (create c k)"]; cases c) (simp_all add: fs_create_file_def fs_create_dir_def al)
qed


lemma store_table:
  fixes k :: "'a kfs_scheme"
  assumes s: "fs_store a k st" and m: "mem k' = (mem k)\<lparr>ram := kram k'\<rparr>"
    and w: "\<And>x. x \<notin> span (inode_table (fsys k)) 212992 \<Longrightarrow> kram k' x = kram k x"
    and f: "inode_table (fsys k') = inode_table (fsys k)" "block_bitmap (fsys k') = block_bitmap (fsys k)"
      "length (open_files (fsys k')) = length (open_files (fsys k))"
  shows "fs_store a k' st"
    and "(q, l) \<in> heap_owned a st \<Longrightarrow> q \<noteq> inode_table (fsys k) \<Longrightarrow> x \<in> span q l \<Longrightarrow> kram k' x = kram k x"
proof -
  obtain j where j: "212992 \<le> j" "(inode_table (fsys k), j) \<in> heap_owned a st" and h: "heap_rel a k st"
    using s by (auto simp: fs_store_def)
  have w': "kram k' x = kram k x" if "x \<notin> span (inode_table (fsys k)) j" for x
    using w that span_mono [OF j(1)] by blast
  have "heap_rel a (set_ram (kram k') k) st" using kstore.write_buffer(1) [OF h j(2)] w' by blast
  then have "heap_rel a k' st" using heap_rel_mem [of k' "set_ram (kram k') k"] m by simp
  then show "fs_store a k' st" using s f by (simp add: fs_store_def)
  show "kram k' x = kram k x" if "(q, l) \<in> heap_owned a st" "q \<noteq> inode_table (fsys k)" "x \<in> span q l"
    using new_apart [OF h j(2) that(1) _ order_refl that(3)] that(2) w' by blast
qed

lemma create_run:
  fixes k :: "'a kfs_scheme"
  assumes "fs_store a k st" and "inodes_used k n"
  shows "\<exists>k'. create_all cs k = (map (\<lambda>i. if n + i < 2047 then int (n + i + 1) else -1) [0..<length cs], k')
    \<and> fs_store a k' st \<and> inodes_used k' (min 2047 (n + length cs)) \<and> inode_table (fsys k') = inode_table (fsys k)
    \<and> (\<forall>j<2048. inode_view (kram k') (inode_table (fsys k)) j =
        (if n < j \<and> j \<le> n + length cs then (of_nat j, create_type (cs ! (j - n - 1)), 0, 0)
         else inode_view (kram k) (inode_table (fsys k)) j))"
  using assms
proof (induction cs arbitrary: n k)
  case Nil
  have "n < 2048" using Nil(2) by (simp add: inodes_used_def)
  with Nil show ?case by (auto simp: min_absorb2)
next
  case (Cons c cs)
  let ?T = "inode_table (fsys k)"
  show ?case
  proof (cases "n < 2047")
    case True
    obtain k1 where k1: "create c k = (int (n + 1), k1)" "inode_table (fsys k1) = ?T"
        "row_only ?T (n + 1) (kram k) (kram k1)" "inode_view (kram k1) ?T (n + 1) = (of_nat (n + 1), create_type c, 0, 0)"
        "mem k1 = (mem k)\<lparr>ram := kram k1\<rparr>" "open_files (fsys k1) = open_files (fsys k)"
        "block_bitmap (fsys k1) = block_bitmap (fsys k)"
        "free_inodes (fs_superblock (fsys k1)) = free_inodes (fs_superblock (fsys k)) - 1"
      using new_inode_step [OF Cons.prems(2) True] by metis
    have s1: "fs_store a k1 st"
      using store_table(1) [OF Cons.prems(1) k1(5) _ k1(2,7)] k1(3,6) by (auto simp: row_only_def)
    have v1: "inode_view (kram k1) ?T j = (if j = n + 1 then (of_nat (n + 1), create_type c, 0, 0) else inode_view (kram k) ?T j)"
      if "j < 2048" for j using k1(3,4) that by (simp add: row_only_def)
    have fr: "(of_nat (2048 - n) :: u32) - 1 = of_nat (2048 - (n + 1))" using True by (simp add: of_nat_diff)
    have u1: "inodes_used k1 (n + 1)"
      using Cons.prems(2) True fr by (auto simp: inodes_used_def k1(2,8) v1)
    obtain k' where k': "create_all cs k1 = (map (\<lambda>i. if n + 1 + i < 2047 then int (n + 1 + i + 1) else -1) [0..<length cs], k')"
        "fs_store a k' st" "inodes_used k' (min 2047 (n + 1 + length cs))" "inode_table (fsys k') = ?T"
        "\<And>j. j < 2048 \<Longrightarrow> inode_view (kram k') ?T j =
          (if n + 1 < j \<and> j \<le> n + 1 + length cs then (of_nat j, create_type (cs ! (j - (n + 1) - 1)), 0, 0)
           else inode_view (kram k1) ?T j)"
      using Cons.IH [OF s1 u1] unfolding k1(2) by blast
    have "create_all (c # cs) k = (map (\<lambda>i. if n + i < 2047 then int (n + i + 1) else -1) [0..<length (c # cs)], k')"
      using k1(1) k'(1) True by (simp add: map_upt_Suc del: upt_Suc)
    moreover have "inode_view (kram k') ?T j = (if n < j \<and> j \<le> n + length (c # cs)
        then (of_nat j, create_type ((c # cs) ! (j - n - 1)), 0, 0) else inode_view (kram k) ?T j)" if "j < 2048" for j
      unfolding k'(5) [OF that] v1 [OF that] by (cases "j = n + 1"; cases "j - n - 1") auto
    ultimately show ?thesis using k'(2-4) by (intro exI [of _ k']) simp
  next
    case False
    then have n: "n = 2047" using Cons.prems(2) by (simp add: inodes_used_def)
    obtain k1 where k1: "create c k = (-1, k1)" "mem k1 = mem k" "fsys k1 = fsys k"
      using create_full [of k c] Cons.prems(2) n by blast
    have s1: "fs_store a k1 st" using Cons.prems(1) heap_rel_mem [OF k1(2)] by (simp add: fs_store_def k1(3))
    have u1: "inodes_used k1 2047" using Cons.prems(2) by (simp add: inodes_used_def k1 n)
    obtain k' where k': "create_all cs k1 = (map (\<lambda>i. if 2047 + i < 2047 then int (2047 + i + 1) else -1) [0..<length cs], k')"
        "fs_store a k' st" "inodes_used k' (min 2047 (2047 + length cs))" "inode_table (fsys k') = ?T"
        "\<And>j. j < 2048 \<Longrightarrow> inode_view (kram k') ?T j = inode_view (kram k) ?T j"
      using Cons.IH [OF s1 u1] unfolding k1(2,3) by auto
    have "create_all (c # cs) k = (map (\<lambda>i. if n + i < 2047 then int (n + i + 1) else -1) [0..<length (c # cs)], k')"
      using k1(1) k'(1) by (simp add: n map_upt_Suc del: upt_Suc)
    then show ?thesis using k'(2-5) n by (intro exI [of _ k']) simp
  qed
qed


lemma demo_fs_ready:
  obtains k st where "fs_init demo_fs = Some k" "fs_store 0xffff800000200000 k st" "inodes_used k 0"
    "\<forall>f\<in>set (open_files (fsys k)). fd f = 0 \<and> fd_inode f = 0 \<and> fd_refs f = 0" "4 \<le> snd st" "next_fd (fsys k) = 1"
  using fs_init_builds [OF demo_fs_heap demo_fs_files] by (auto simp: demo_fs_def fs_boot_def)


subsection \<open>Opening and closing\<close>

lemma str_compare_spec:
  "NUL \<in> set s \<Longrightarrow> NUL \<notin> set t \<Longrightarrow> str_compare s (t @ [NUL]) = Some (if cstr s = t then 1 else 0)"
proof (induction s arbitrary: t)
  case (Cons x s)
  show ?case
  proof (cases t)
    case Nil
    then show ?thesis by (cases "x = NUL") simp_all
  next
    case c: (Cons y t')
    with Cons show ?thesis by (cases "x = NUL") auto
  qed
qed simp

text \<open>The inode a name stands for: two fixed names, and the last inode created for every other.\<close>

definition inode_named :: "u32 \<Rightarrow> string \<Rightarrow> u32" where
  "inode_named recent name = (if name = ''test.txt'' then 1 else if name = ''mydir'' then 2
     else if recent = NONE32 then 1 else recent)"

lemma new_descriptor:
  "f\<lparr>fd := d, fd_inode := n, mode := m, offset := p, fd_refs := r\<rparr> = \<lparr>fd = d, fd_inode = n, offset = p, mode = m, fd_refs = r\<rparr>"
  by (cases f) simp

lemma next_then_files: "s\<lparr>next_fd := d, open_files := fs\<rparr> = s\<lparr>open_files := fs, next_fd := d\<rparr>"
  by (cases s) simp

lemma fs_open_form:
  fixes k :: "'a kfs_scheme"
  assumes s: "NUL \<in> set s"
  shows "\<exists>k'. fs_open (Some s) m k = Some ((case find_slot (\<lambda>f. fd_refs f = 0) (open_files (fsys k)) of
        Some i \<Rightarrow> sint (next_fd (fsys k)) | None \<Rightarrow> -1), k') \<and> mem k' = mem k
    \<and> fsys k' = (case find_slot (\<lambda>f. fd_refs f = 0) (open_files (fsys k)) of
        Some i \<Rightarrow> (fsys k)\<lparr>open_files := (open_files (fsys k))[i := \<lparr>fd = next_fd (fsys k), fd_inode = inode_named (last_created_inode (fsys k)) (cstr s),
            offset = 0, mode = m, fd_refs = 1\<rparr>], next_fd := next_fd (fsys k) + 1\<rparr>
      | None \<Rightarrow> fsys k)"
proof -
  have t: "str_compare s (''test.txt'' @ [NUL]) = Some (if cstr s = ''test.txt'' then 1 else 0)"
      "str_compare s (''mydir'' @ [NUL]) = Some (if cstr s = ''mydir'' then 1 else 0)"
    by (rule str_compare_spec [OF s], simp)+
  have n: "''test.txt'' \<noteq> ''mydir''" by simp
  show ?thesis
    unfolding fs_open_def option.case t Option.bind_lunit Let_def inode_named_def
    by (cases "cstr s = ''test.txt''"; cases "cstr s = ''mydir''"; cases "find_slot (\<lambda>f. fd_refs f = 0) (open_files (fsys k))")
      (simp_all add: new_descriptor next_then_files)
qed


text \<open>The table of open files: a free slot is blank, a used one holds a descriptor handed out
  before, and no two hold the same.\<close>

definition free_slot :: "file_descriptor \<Rightarrow> bool" where
  "free_slot f \<longleftrightarrow> fd f = 0 \<and> fd_inode f = 0 \<and> fd_refs f = 0"

definition files_ok :: "fs \<Rightarrow> bool" where
  "files_ok s \<longleftrightarrow> length (open_files s) = 128 \<and> 0 < next_fd s
     \<and> (\<forall>f\<in>set (open_files s). free_slot f \<or> 0 < fd f \<and> fd f < next_fd s \<and> fd_refs f = 1)
     \<and> (\<forall>i<128. \<forall>j<128. fd (open_files s ! i) = fd (open_files s ! j) \<longrightarrow> fd (open_files s ! i) \<noteq> 0 \<longrightarrow> i = j)"

text \<open>What descriptor \<open>d\<close> stands for.\<close>

definition file_of :: "fs \<Rightarrow> u32 \<Rightarrow> (u32 \<times> u32 \<times> u32) option" where
  "file_of s d = map_option (\<lambda>i. let f = open_files s ! i in (fd_inode f, mode f, offset f))
     (if d = 0 then None else find_slot (\<lambda>f. fd f = d) (open_files s))"

lemma files_ok_nth:
  assumes "files_ok s" and "i < 128"
  shows "free_slot (open_files s ! i) \<or> 0 < fd (open_files s ! i) \<and> fd (open_files s ! i) < next_fd s \<and> fd_refs (open_files s ! i) = 1"
  using assms by (auto simp: files_ok_def)

lemma find_fd:
  assumes "files_ok s" and "i < 128" and "fd (open_files s ! i) = d" and "d \<noteq> 0"
  shows "find_slot (\<lambda>f. fd f = d) (open_files s) = Some i"
proof (rule find_slot_eqI)
  show "fd (open_files s ! j) \<noteq> d" if "j < i" for j
  proof
    assume "fd (open_files s ! j) = d"
    then have "j = i" using assms that by (simp add: files_ok_def)
    with that show False by simp
  qed
qed (use assms in \<open>simp_all add: files_ok_def\<close>)

lemma file_of_Some:
  assumes "files_ok s"
  shows "file_of s d = Some v \<longleftrightarrow> d \<noteq> 0
    \<and> (\<exists>i<128. fd (open_files s ! i) = d \<and> v = (fd_inode (open_files s ! i), mode (open_files s ! i), offset (open_files s ! i)))"
proof (cases "d = 0")
  case False
  have len: "length (open_files s) = 128" using assms by (simp add: files_ok_def)
  show ?thesis
  proof (cases "find_slot (\<lambda>f. fd f = d) (open_files s)")
    case None
    have "fd (open_files s ! i) \<noteq> d" if "i < 128" for i
      using None that len nth_mem [of i "open_files s"] by (simp add: find_slot_None)
    moreover have "file_of s d = None" by (simp add: file_of_def None)
    ultimately show ?thesis by auto
  next
    case (Some i)
    from find_slot_Some [OF Some] have i: "i < 128" "fd (open_files s ! i) = d" using len by simp_all
    have only: "j = i" if "j < 128" "fd (open_files s ! j) = d" for j
      using find_fd [OF assms that False] Some by simp
    have f: "file_of s d = Some (fd_inode (open_files s ! i), mode (open_files s ! i), offset (open_files s ! i))"
      using False by (simp add: file_of_def Some Let_def)
    show ?thesis
    proof
      assume "file_of s d = Some v"
      then show "d \<noteq> 0 \<and> (\<exists>i<128. fd (open_files s ! i) = d
          \<and> v = (fd_inode (open_files s ! i), mode (open_files s ! i), offset (open_files s ! i)))"
        using f i False by auto
    next
      assume "d \<noteq> 0 \<and> (\<exists>i<128. fd (open_files s ! i) = d
          \<and> v = (fd_inode (open_files s ! i), mode (open_files s ! i), offset (open_files s ! i)))"
      then obtain j where j: "j < 128" "fd (open_files s ! j) = d"
          and v: "v = (fd_inode (open_files s ! j), mode (open_files s ! j), offset (open_files s ! j))" by blast
      from only [OF j] f v show "file_of s d = Some v" by simp
    qed
  qed
qed (simp add: file_of_def)


lemma find_free_slot:
  assumes "files_ok s"
  shows "find_slot (\<lambda>f. fd_refs f = 0) (open_files s) = Some i \<Longrightarrow> i < 128 \<and> free_slot (open_files s ! i)"
    and "find_slot (\<lambda>f. fd_refs f = 0) (open_files s) = None \<longleftrightarrow> (\<forall>i<128. \<not> free_slot (open_files s ! i))"
proof -
  have len: "length (open_files s) = 128" using assms by (simp add: files_ok_def)
  have r: "fd_refs (open_files s ! i) = 0 \<longleftrightarrow> free_slot (open_files s ! i)" if "i < 128" for i
    using files_ok_nth [OF assms that] by (auto simp: free_slot_def)
  show "find_slot (\<lambda>f. fd_refs f = 0) (open_files s) = Some i \<Longrightarrow> i < 128 \<and> free_slot (open_files s ! i)"
    using find_slot_Some [of "\<lambda>f. fd_refs f = 0" "open_files s" i] r len by auto
  show "find_slot (\<lambda>f. fd_refs f = 0) (open_files s) = None \<longleftrightarrow> (\<forall>i<128. \<not> free_slot (open_files s ! i))"
    using r len by (auto simp: find_slot_None all_set_conv_all_nth)
qed

lemma option_eqI: "(\<And>v. x = Some v \<longleftrightarrow> y = Some v) \<Longrightarrow> x = y"
  by (cases x; cases y) auto

text \<open>Writing one slot of the table.\<close>

lemma files_ok_set:
  assumes ok: "files_ok s" and i: "i < 128" and n: "next_fd s \<le> n"
    and f: "free_slot f \<or> 0 < fd f \<and> fd f < n \<and> fd_refs f = 1"
    and new: "\<And>j. j < 128 \<Longrightarrow> j \<noteq> i \<Longrightarrow> fd f = 0 \<or> fd (open_files s ! j) \<noteq> fd f"
  shows "files_ok (s\<lparr>open_files := (open_files s)[i := f], next_fd := n\<rparr>)"
    and "file_of (s\<lparr>open_files := (open_files s)[i := f], next_fd := n\<rparr>) d =
      (if d \<noteq> 0 \<and> d = fd f then Some (fd_inode f, mode f, offset f)
       else if d = fd (open_files s ! i) then None else file_of s d)"
proof -
  let ?s = "s\<lparr>open_files := (open_files s)[i := f], next_fd := n\<rparr>"
  have len: "length (open_files s) = 128" and n0: "0 < n" using ok n by (auto simp: files_ok_def)
  have nth: "(open_files s)[i := f] ! j = (if j = i then f else open_files s ! j)" if "j < 128" for j
    using that len i by (simp add: nth_list_update)
  have old: "free_slot (open_files s ! j) \<or> 0 < fd (open_files s ! j) \<and> fd (open_files s ! j) < n \<and> fd_refs (open_files s ! j) = 1"
    if "j < 128" for j using files_ok_nth [OF ok that] n by auto
  have uniq: "j = j'" if "j < 128" "j' < 128" "fd (open_files s ! j) = fd (open_files s ! j')" "fd (open_files s ! j) \<noteq> 0" for j j'
    using ok that by (simp add: files_ok_def)
  show ok': "files_ok ?s"
    unfolding files_ok_def
  proof (intro conjI)
    show "\<forall>f\<in>set (open_files ?s). free_slot f \<or> 0 < fd f \<and> fd f < next_fd ?s \<and> fd_refs f = 1"
      using f old by (auto simp: all_set_conv_all_nth len nth)
    show "\<forall>j<128. \<forall>j'<128. fd (open_files ?s ! j) = fd (open_files ?s ! j') \<longrightarrow> fd (open_files ?s ! j) \<noteq> 0 \<longrightarrow> j = j'"
    proof (intro allI impI)
      fix j j' :: nat
      assume a: "j < 128" "j' < 128" "fd (open_files ?s ! j) = fd (open_files ?s ! j')" "fd (open_files ?s ! j) \<noteq> 0"
      show "j = j'"
        using a(3,4) new [OF a(1)] new [OF a(2)] uniq [OF a(1,2)] by (simp add: nth a(1,2) split: if_splits)
    qed
  qed (use len n0 in simp_all)
  let ?g = "\<lambda>j. (open_files s)[i := f] ! j"
  have e: "file_of ?s d = Some v \<longleftrightarrow> d \<noteq> 0 \<and> (\<exists>j<128. fd (?g j) = d \<and> v = (fd_inode (?g j), mode (?g j), offset (?g j)))" for v
    using file_of_Some [OF ok'] by simp
  have gi: "?g i = f" using nth [OF i] by simp
  have gj: "?g j = open_files s ! j" if "j < 128" "j \<noteq> i" for j using nth [OF that(1)] that(2) by simp
  have iff: "file_of ?s d = Some v \<longleftrightarrow> (if d \<noteq> 0 \<and> d = fd f then Some (fd_inode f, mode f, offset f)
       else if d = fd (open_files s ! i) then None else file_of s d) = Some v" for v
  proof -
    consider "d = 0" | "d \<noteq> 0" "d = fd f" | "d \<noteq> 0" "d \<noteq> fd f" "d = fd (open_files s ! i)"
      | "d \<noteq> 0" "d \<noteq> fd f" "d \<noteq> fd (open_files s ! i)" by blast
    then show ?thesis
    proof cases
      case 1
      then show ?thesis by (simp add: file_of_def)
    next
      case 2
      have "j = i" if "j < 128" "fd (?g j) = d" for j
      proof (rule ccontr)
        assume "j \<noteq> i"
        then show False using new [OF that(1)] gj [OF that(1)] that(2) 2 by simp
      qed
      then have "file_of ?s d = Some v \<longleftrightarrow> v = (fd_inode f, mode f, offset f)"
        unfolding e using 2 i gi by metis
      then show ?thesis using 2 by auto
    next
      case 3
      have "fd (?g j) \<noteq> d" if "j < 128" for j
      proof (cases "j = i")
        case False
        then show ?thesis using uniq [OF that i] gj [OF that False] 3 by auto
      qed (use 3 gi in simp)
      then have "file_of ?s d \<noteq> Some v" unfolding e by blast
      then show ?thesis using 3 by simp
    next
      case 4
      have "fd (?g j) = d \<longleftrightarrow> fd (open_files s ! j) = d" if "j < 128" for j
        by (cases "j = i") (use 4 gi gj [OF that] in auto)
      moreover have "?g j = open_files s ! j" if "j < 128" "fd (open_files s ! j) = d" for j
        using gj [OF that(1)] that(2) 4 by blast
      ultimately have "file_of ?s d = Some v \<longleftrightarrow> file_of s d = Some v"
        unfolding e file_of_Some [OF ok] by metis
      then show ?thesis using 4 by simp
    qed
  qed
  show "file_of ?s d = (if d \<noteq> 0 \<and> d = fd f then Some (fd_inode f, mode f, offset f)
       else if d = fd (open_files s ! i) then None else file_of s d)"
    by (rule option_eqI) (rule iff)
qed


lemma file_of_fun: "(\<And>d. file_of s' d = g d) \<Longrightarrow> file_of s' = g" by (rule ext)

lemma same_next: "s\<lparr>open_files := fs, next_fd := next_fd s\<rparr> = s\<lparr>open_files := fs\<rparr>"
  by (cases s) simp

lemma close_effect:
  fixes k :: "'a kfs_scheme"
  assumes ok: "files_ok (fsys k)" and d: "d \<noteq> 0"
  shows "\<exists>k'. fs_close d k = (if file_of (fsys k) d = None then -1 else 0, k') \<and> mem k' = mem k
    \<and> files_ok (fsys k') \<and> file_of (fsys k') = (file_of (fsys k))(d := None)
    \<and> fsys k' = (fsys k)\<lparr>open_files := open_files (fsys k')\<rparr>"
proof (cases "find_slot (\<lambda>f. fd f = d) (open_files (fsys k))")
  case None
  then have n: "file_of (fsys k) d = None" by (simp add: file_of_def)
  then have "file_of (fsys k) = (file_of (fsys k))(d := None)" by auto
  then show ?thesis using n ok None by (intro exI [of _ k]) (simp add: fs_close_def)
next
  case (Some i)
  have len: "length (open_files (fsys k)) = 128" using ok by (simp add: files_ok_def)
  with find_slot_Some [OF Some] have i: "i < 128" "fd (open_files (fsys k) ! i) = d" by simp_all
  then have r: "fd_refs (open_files (fsys k) ! i) = 1"
    using files_ok_nth [OF ok i(1)] d by (auto simp: free_slot_def)
  let ?f = "(open_files (fsys k) ! i)\<lparr>fd_refs := 0, fd := 0, fd_inode := 0\<rparr>"
  obtain k' where k': "fs_close d k = (0, k')" "mem k' = mem k" "fsys k' = (fsys k)\<lparr>open_files := (open_files (fsys k))[i := ?f]\<rparr>"
    using Some r i(1) len by (simp add: fs_close_def)
  have "free_slot ?f" by (simp add: free_slot_def)
  then have f: "free_slot ?f \<or> 0 < fd ?f \<and> fd ?f < next_fd (fsys k) \<and> fd_refs ?f = 1" by (rule disjI1)
  note set = files_ok_set [OF ok i(1) order_refl f, unfolded same_next]
  have z: "fd ?f = 0" by simp
  have "files_ok (fsys k')" "file_of (fsys k') = (file_of (fsys k))(d := None)"
    using set(1) set(2) z i(2) d by (simp_all add: k'(3) fun_eq_iff)
  moreover have "file_of (fsys k) d \<noteq> None" using d Some by (simp add: file_of_def)
  ultimately show ?thesis using k' by (intro exI [of _ k']) simp
qed

lemma seek_effect:
  fixes k :: "'a kfs_scheme"
  assumes ok: "files_ok (fsys k)" and d: "d \<noteq> 0"
  shows "\<exists>k'. fs_seek d p k = (if file_of (fsys k) d = None then -1 else 0, k') \<and> mem k' = mem k
    \<and> files_ok (fsys k')
    \<and> file_of (fsys k') = (file_of (fsys k))(d := map_option (\<lambda>(n, m, _). (n, m, p)) (file_of (fsys k) d))
    \<and> fsys k' = (fsys k)\<lparr>open_files := open_files (fsys k')\<rparr>"
proof (cases "find_slot (\<lambda>f. fd f = d) (open_files (fsys k))")
  case None
  then have n: "file_of (fsys k) d = None" by (simp add: file_of_def)
  then show ?thesis using ok None by (intro exI [of _ k]) (auto simp: fs_seek_def)
next
  case (Some i)
  have len: "length (open_files (fsys k)) = 128" using ok by (simp add: files_ok_def)
  with find_slot_Some [OF Some] have i: "i < 128" "fd (open_files (fsys k) ! i) = d" by simp_all
  let ?f = "(open_files (fsys k) ! i)\<lparr>offset := p\<rparr>"
  obtain k' where k': "fs_seek d p k = (0, k')" "mem k' = mem k" "fsys k' = (fsys k)\<lparr>open_files := (open_files (fsys k))[i := ?f]\<rparr>"
    using Some by (simp add: fs_seek_def)
  have f: "free_slot ?f \<or> 0 < fd ?f \<and> fd ?f < next_fd (fsys k) \<and> fd_refs ?f = 1"
    using files_ok_nth [OF ok i(1)] by (auto simp: free_slot_def)
  have new: "fd ?f = 0 \<or> fd (open_files (fsys k) ! j) \<noteq> fd ?f" if "j < 128" "j \<noteq> i" for j
    using ok that i d by (auto simp: files_ok_def)
  note set = files_ok_set [OF ok i(1) order_refl f new, unfolded same_next]
  have v: "file_of (fsys k) d = Some (fd_inode (open_files (fsys k) ! i), mode (open_files (fsys k) ! i), offset (open_files (fsys k) ! i))"
    using file_of_Some [OF ok] i d by blast
  have "files_ok (fsys k')" unfolding k'(3) by (rule set(1))
  moreover have "file_of (fsys k') = (file_of (fsys k))(d := map_option (\<lambda>(n, m, _). (n, m, p)) (file_of (fsys k) d))"
    unfolding k'(3) by (rule ext) (subst set(2), use v i(2) d in \<open>auto\<close>)
  ultimately show ?thesis using k' v by (intro exI [of _ k']) simp
qed

text \<open>The number of descriptors in use.\<close>

lemma card_files:
  assumes ok: "files_ok s"
  shows "card (dom (file_of s)) < 128 \<longleftrightarrow> (\<exists>i<128. free_slot (open_files s ! i))"
proof -
  let ?U = "{i. i < 128 \<and> \<not> free_slot (open_files s ! i)}"
  have nz: "fd (open_files s ! i) \<noteq> 0" if "i < 128" "\<not> free_slot (open_files s ! i)" for i
    using files_ok_nth [OF ok that(1)] that(2) by auto
  have "dom (file_of s) = (\<lambda>i. fd (open_files s ! i)) ` ?U"
  proof (rule set_eqI)
    fix d
    have "d \<in> dom (file_of s) \<longleftrightarrow> d \<noteq> 0 \<and> (\<exists>i<128. fd (open_files s ! i) = d)"
      unfolding domIff not_None_eq file_of_Some [OF ok] by blast
    also have "\<dots> \<longleftrightarrow> d \<in> (\<lambda>i. fd (open_files s ! i)) ` ?U"
      using nz by (auto simp: free_slot_def image_iff)
    finally show "d \<in> dom (file_of s) \<longleftrightarrow> d \<in> (\<lambda>i. fd (open_files s ! i)) ` ?U" .
  qed
  moreover have "inj_on (\<lambda>i. fd (open_files s ! i)) ?U"
    using ok nz by (auto simp: inj_on_def files_ok_def)
  ultimately have c: "card (dom (file_of s)) = card ?U" by (simp add: card_image)
  show ?thesis
  proof
    assume "\<exists>i<128. free_slot (open_files s ! i)"
    then have "?U \<subset> {..<128}" by auto
    then have "card ?U < card {..<128 :: nat}" by (intro psubset_card_mono) simp_all
    then show "card (dom (file_of s)) < 128" by (simp add: c)
  next
    assume lt: "card (dom (file_of s)) < 128"
    show "\<exists>i<128. free_slot (open_files s ! i)"
    proof (rule ccontr)
      assume "\<not> (\<exists>i<128. free_slot (open_files s ! i))"
      then have "?U = {..<128}" by auto
      with lt c show False by simp
    qed
  qed
qed

lemma open_effect:
  fixes k :: "'a kfs_scheme"
  assumes ok: "files_ok (fsys k)" and s: "NUL \<in> set s" and n: "next_fd (fsys k) < next_fd (fsys k) + 1"
  shows "\<exists>k'. fs_open (Some s) m k = Some (if card (dom (file_of (fsys k))) < 128 then sint (next_fd (fsys k)) else -1, k')
    \<and> mem k' = mem k \<and> files_ok (fsys k')
    \<and> (if card (dom (file_of (fsys k))) < 128
       then file_of (fsys k') = (file_of (fsys k))(next_fd (fsys k) \<mapsto> (inode_named (last_created_inode (fsys k)) (cstr s), m, 0))
         \<and> fsys k' = (fsys k)\<lparr>open_files := open_files (fsys k'), next_fd := next_fd (fsys k) + 1\<rparr>
       else fsys k' = fsys k)"
proof -
  obtain k' where o: "fs_open (Some s) m k = Some ((case find_slot (\<lambda>f. fd_refs f = 0) (open_files (fsys k)) of
        Some i \<Rightarrow> sint (next_fd (fsys k)) | None \<Rightarrow> -1), k')" "mem k' = mem k"
      and f: "fsys k' = (case find_slot (\<lambda>f. fd_refs f = 0) (open_files (fsys k)) of
        Some i \<Rightarrow> (fsys k)\<lparr>open_files := (open_files (fsys k))[i := \<lparr>fd = next_fd (fsys k),
            fd_inode = inode_named (last_created_inode (fsys k)) (cstr s), offset = 0, mode = m, fd_refs = 1\<rparr>], next_fd := next_fd (fsys k) + 1\<rparr>
      | None \<Rightarrow> fsys k)"
    using fs_open_form [OF s, of m k] by blast
  show ?thesis
  proof (cases "find_slot (\<lambda>f. fd_refs f = 0) (open_files (fsys k))")
    case None
    then have "\<not> card (dom (file_of (fsys k))) < 128" using card_files [OF ok] find_free_slot(2) [OF ok] by blast
    then show ?thesis using o f ok None by (intro exI [of _ k']) simp
  next
    case (Some i)
    then have i: "i < 128" "free_slot (open_files (fsys k) ! i)" using find_free_slot(1) [OF ok] by blast+
    then have c: "card (dom (file_of (fsys k))) < 128" using card_files [OF ok] by blast
    let ?f = "\<lparr>fd = next_fd (fsys k), fd_inode = inode_named (last_created_inode (fsys k)) (cstr s), offset = 0, mode = m, fd_refs = 1\<rparr>"
    have n0: "0 < next_fd (fsys k)" using ok by (simp add: files_ok_def)
    have v: "free_slot ?f \<or> 0 < fd ?f \<and> fd ?f < next_fd (fsys k) + 1 \<and> fd_refs ?f = 1" using n n0 by simp
    have new: "fd ?f = 0 \<or> fd (open_files (fsys k) ! j) \<noteq> fd ?f" if "j < 128" "j \<noteq> i" for j
      using files_ok_nth [OF ok that(1)] n0 by (auto simp: free_slot_def)
    note set = files_ok_set [OF ok i(1) less_imp_le [OF n] v new]
    have fk: "fsys k' = (fsys k)\<lparr>open_files := (open_files (fsys k))[i := ?f], next_fd := next_fd (fsys k) + 1\<rparr>"
      using f Some by simp
    have fi: "fd (open_files (fsys k) ! i) = 0" using i(2) by (simp add: free_slot_def)
    have "files_ok (fsys k')" unfolding fk by (rule set(1))
    moreover have "file_of (fsys k') = (file_of (fsys k))(next_fd (fsys k) \<mapsto> (inode_named (last_created_inode (fsys k)) (cstr s), m, 0))"
      unfolding fk by (rule ext) (subst set(2), use n0 fi in \<open>auto simp: file_of_def\<close>)
    ultimately show ?thesis using o Some c fk by (intro exI [of _ k']) simp
  qed
qed

text \<open>A sequence of operations on descriptors, and what a file table should do with it: a finite map
  from descriptors to files, with at most 128 entries, and the next descriptor.\<close>

datatype file_op = Open string u32 | Close u32 | Seek u32 u32

fun do_file_op :: "file_op \<Rightarrow> 'a kfs_scheme \<Rightarrow> (int \<times> 'a kfs_scheme) option" where
  "do_file_op (Open s m) k = fs_open (Some s) m k"
| "do_file_op (Close d) k = Some (fs_close d k)"
| "do_file_op (Seek d p) k = Some (fs_seek d p k)"

fun do_file_ops :: "file_op list \<Rightarrow> 'a kfs_scheme \<Rightarrow> (int list \<times> 'a kfs_scheme) option" where
  "do_file_ops [] k = Some ([], k)"
| "do_file_ops (e # es) k = do {
     (r, k) \<leftarrow> do_file_op e k;
     (rs, k) \<leftarrow> do_file_ops es k;
     Some (r # rs, k)
   }"

type_synonym file_table = "(u32 \<rightharpoonup> u32 \<times> u32 \<times> u32) \<times> u32"

fun abs_file_op :: "u32 \<Rightarrow> file_op \<Rightarrow> file_table \<Rightarrow> int \<times> file_table" where
  "abs_file_op recent (Open s m) (M, d) =
     (if card (dom M) < 128 then (sint d, M(d \<mapsto> (inode_named recent (cstr s), m, 0)), d + 1) else (-1, M, d))"
| "abs_file_op recent (Close c) (M, d) = (if M c = None then -1 else 0, M(c := None), d)"
| "abs_file_op recent (Seek c p) (M, d) =
     (if M c = None then -1 else 0, M(c := map_option (\<lambda>(n, m, _). (n, m, p)) (M c)), d)"

fun abs_file_ops :: "u32 \<Rightarrow> file_op list \<Rightarrow> file_table \<Rightarrow> int list \<times> file_table" where
  "abs_file_ops recent [] t = ([], t)"
| "abs_file_ops recent (e # es) t =
     (let (r, t) = abs_file_op recent e t; (rs, t) = abs_file_ops recent es t in (r # rs, t))"

fun legal_file_op :: "file_op \<Rightarrow> bool" where
  "legal_file_op (Open s m) \<longleftrightarrow> NUL \<in> set s"
| "legal_file_op (Close d) \<longleftrightarrow> d \<noteq> 0"
| "legal_file_op (Seek d p) \<longleftrightarrow> d \<noteq> 0"

definition file_table :: "'a kfs_scheme \<Rightarrow> file_table" where
  "file_table k = (file_of (fsys k), next_fd (fsys k))"

lemma no_wrap: "unat d + 1 < 2 ^ 32 \<Longrightarrow> d < d + 1 \<and> unat (d + 1) = unat d + 1" for d :: u32
  by (simp add: word_less_nat_alt unat_word_ariths)

lemma file_op_step:
  fixes k :: "'a kfs_scheme"
  assumes ok: "files_ok (fsys k)" and legal: "legal_file_op e" and n: "unat (next_fd (fsys k)) + 1 < 2 ^ 32"
  shows "\<exists>r k'. do_file_op e k = Some (r, k') \<and> abs_file_op (last_created_inode (fsys k)) e (file_table k) = (r, file_table k')
    \<and> files_ok (fsys k') \<and> mem k' = mem k \<and> last_created_inode (fsys k') = last_created_inode (fsys k)
    \<and> unat (next_fd (fsys k')) \<le> unat (next_fd (fsys k)) + 1"
proof (cases e)
  case (Open s m)
  with legal have s: "NUL \<in> set s" by simp
  obtain k' where k': "fs_open (Some s) m k = Some (if card (dom (file_of (fsys k))) < 128 then sint (next_fd (fsys k)) else -1, k')"
      "mem k' = mem k" "files_ok (fsys k')"
      "if card (dom (file_of (fsys k))) < 128
       then file_of (fsys k') = (file_of (fsys k))(next_fd (fsys k) \<mapsto> (inode_named (last_created_inode (fsys k)) (cstr s), m, 0))
         \<and> fsys k' = (fsys k)\<lparr>open_files := open_files (fsys k'), next_fd := next_fd (fsys k) + 1\<rparr>
       else fsys k' = fsys k"
    using open_effect [OF ok s conjunct1 [OF no_wrap [OF n]], of m] by blast
  have x: "next_fd (fsys k') = (if card (dom (file_of (fsys k))) < 128 then next_fd (fsys k) + 1 else next_fd (fsys k))
      \<and> last_created_inode (fsys k') = last_created_inode (fsys k)"
    using k'(4) by (auto split: if_splits dest: arg_cong [of _ _ next_fd] arg_cong [of _ _ last_created_inode])
  have "abs_file_op (last_created_inode (fsys k)) e (file_table k)
      = (if card (dom (file_of (fsys k))) < 128 then sint (next_fd (fsys k)) else -1, file_table k')"
    using k'(4) x by (auto simp: Open file_table_def split: if_splits)
  moreover have "unat (next_fd (fsys k')) \<le> unat (next_fd (fsys k)) + 1" using no_wrap [OF n] x by auto
  ultimately show ?thesis using k'(1-3) x Open by auto
next
  case (Close d)
  with legal have "d \<noteq> 0" by simp
  from close_effect [OF ok this] obtain k' where k': "fs_close d k = (if file_of (fsys k) d = None then -1 else 0, k')"
      "mem k' = mem k" "files_ok (fsys k')" "file_of (fsys k') = (file_of (fsys k))(d := None)"
      "fsys k' = (fsys k)\<lparr>open_files := open_files (fsys k')\<rparr>"
    by blast
  have x: "next_fd (fsys k') = next_fd (fsys k)" "last_created_inode (fsys k') = last_created_inode (fsys k)"
    using arg_cong [OF k'(5), of next_fd] arg_cong [OF k'(5), of last_created_inode] by simp_all
  then show ?thesis using k'(1-4)
    by (intro exI [of _ "if file_of (fsys k) d = None then -1 else 0"] exI [of _ k']) (simp add: Close file_table_def)
next
  case (Seek d p)
  with legal have "d \<noteq> 0" by simp
  from seek_effect [OF ok this, of p] obtain k' where k': "fs_seek d p k = (if file_of (fsys k) d = None then -1 else 0, k')"
      "mem k' = mem k" "files_ok (fsys k')"
      "file_of (fsys k') = (file_of (fsys k))(d := map_option (\<lambda>(n, m, _). (n, m, p)) (file_of (fsys k) d))"
      "fsys k' = (fsys k)\<lparr>open_files := open_files (fsys k')\<rparr>"
    by blast
  have x: "next_fd (fsys k') = next_fd (fsys k)" "last_created_inode (fsys k') = last_created_inode (fsys k)"
    using arg_cong [OF k'(5), of next_fd] arg_cong [OF k'(5), of last_created_inode] by simp_all
  then show ?thesis using k'(1-4)
    by (intro exI [of _ "if file_of (fsys k) d = None then -1 else 0"] exI [of _ k']) (simp add: Seek file_table_def)
qed

text \<open>C6: the table of open files is a map: any sequence of opens, closes and seeks (of descriptors
  other than 0) gives the answers of, and ends in the state of, a finite map from descriptors to an
  inode, a mode and an offset that holds at most 128 files: opening fails exactly when it is full,
  closing and seeking exactly when the descriptor is not open.\<close>

theorem open_files_refine_map:
  fixes k :: "'a kfs_scheme"
  assumes "files_ok (fsys k)" and "list_all legal_file_op es" and "unat (next_fd (fsys k)) + length es < 2 ^ 32"
  shows "\<exists>rs k'. do_file_ops es k = Some (rs, k') \<and> files_ok (fsys k') \<and> mem k' = mem k
    \<and> abs_file_ops (last_created_inode (fsys k)) es (file_table k) = (rs, file_table k')"
  using assms
proof (induction es arbitrary: k)
  case (Cons e es)
  from file_op_step [OF Cons.prems(1), of e] Cons.prems(2,3) obtain r k1 where k1: "do_file_op e k = Some (r, k1)"
      "abs_file_op (last_created_inode (fsys k)) e (file_table k) = (r, file_table k1)" "files_ok (fsys k1)" "mem k1 = mem k"
      "last_created_inode (fsys k1) = last_created_inode (fsys k)" "unat (next_fd (fsys k1)) \<le> unat (next_fd (fsys k)) + 1"
    by auto
  obtain rs k' where k': "do_file_ops es k1 = Some (rs, k')" "files_ok (fsys k')" "mem k' = mem k1"
      "abs_file_ops (last_created_inode (fsys k)) es (file_table k1) = (rs, file_table k')"
    using Cons.IH [OF k1(3)] Cons.prems(2,3) k1(5,6) by auto
  then show ?case using k1 by simp
qed simp

lemma files_ok_fresh:
  assumes "length (open_files s) = 128" and "0 < next_fd s" and "\<forall>f\<in>set (open_files s). fd f = 0 \<and> fd_inode f = 0 \<and> fd_refs f = 0"
  shows "files_ok s" and "file_of s = Map.empty"
  using assms by (auto simp: files_ok_def free_slot_def file_of_def find_slot_None)

lemma demo_files: "files_ok (fsys demo_fs)" "file_table demo_fs = (Map.empty, 1)" "last_created_inode (fsys demo_fs) = NONE32"
  "next_fd (fsys demo_fs) = 1"
  using files_ok_fresh [of fs_boot] by (simp_all add: demo_fs_def fs_boot_def file_table_def)

theorem open_files_refine_map_witness:
  "\<exists>k'. do_file_ops [Open (''a'' @ [NUL]) 0, Open (''mydir'' @ [NUL]) 1, Seek 2 9, Close 1, Close 1] demo_fs = Some ([1, 2, 0, 0, -1], k')
    \<and> file_table k' = ([2 \<mapsto> (2, 1, 9)], 3)"
proof -
  let ?es = "[Open (''a'' @ [NUL]) 0, Open (''mydir'' @ [NUL]) 1, Seek 2 9, Close 1, Close 1]"
  have "abs_file_ops NONE32 ?es (Map.empty, 1) = ([1, 2, 0, 0, -1], [2 \<mapsto> (2, 1, 9)], 3)"
    by (simp add: inode_named_def fun_upd_twist)
  with open_files_refine_map [OF demo_files(1), of ?es] show ?thesis
    by (auto simp: demo_files(2-) simp del: do_file_ops.simps abs_file_ops.simps)
qed

subsection \<open>Reading and writing\<close>

text \<open>The memory after the bytes \<open>bs\<close> went to the data block \<open>q\<close> of inode \<open>i\<close>: the bytes, the
  terminator the code puts after them, and the new size.\<close>

definition written :: "u64 \<Rightarrow> nat \<Rightarrow> u64 \<Rightarrow> u8 list \<Rightarrow> ram \<Rightarrow> ram" where
  "written T i q bs m = st32 ((store_bytes m q bs)(q + of_nat (length bs) := 0)) (fld T i 8) (of_nat (length bs))"

lemma span_insert: "x \<in> span q (n + 1) \<longleftrightarrow> x \<in> span q n \<or> x = q + of_nat n"
  by (auto simp: span_def lessThan_Suc)

lemma data_bytes_other: "x \<notin> span q (length bs + 1) \<Longrightarrow> ((store_bytes m q bs)(q + of_nat (length bs) := 0)) x = m x"
  using span_insert [of x q "length bs"] by (simp add: store_bytes_other)

lemma written_other: "i < 2048 \<Longrightarrow> x \<notin> span q (length bs + 1) \<Longrightarrow> x \<notin> span T 212992 \<Longrightarrow> written T i q bs m x = m x"
  unfolding written_def by (simp add: field_writes_inside data_bytes_other del: fun_upd_apply)

lemma written_view:
  assumes "span T 212992 \<inter> span q (length bs + 1) = {}" and "i < 2048" and "j < 2048"
  shows "inode_view (written T i q bs m) T j
    = (if j = i then (let (a, b, c, d) = inode_view m T i in (a, b, of_nat (length bs), d)) else inode_view m T j)"
proof -
  have v: "inode_view ((store_bytes m q bs)(q + of_nat (length bs) := 0)) T j = inode_view m T j" if "j < 2048" for j
    using that by (intro view_agree data_bytes_other) (use assms(1) in blast)
  show ?thesis unfolding written_def using assms(2,3) by (simp add: v split_beta)
qed

lemma written_bytes:
  assumes "span T 212992 \<inter> span q (length bs + 1) = {}" and "i < 2048" and "length bs < 2 ^ 32"
  shows "load_bytes (written T i q bs m) q (length bs) = bs" and "written T i q bs m (q + of_nat (length bs)) = 0"
proof -
  let ?m = "(store_bytes m q bs)(q + of_nat (length bs) := 0)"
  have w: "written T i q bs m x = ?m x" if "x \<in> span q (length bs + 1)" for x
    unfolding written_def using assms(1,2) that by (intro field_writes_inside) auto
  have n: "q + of_nat (length bs) \<notin> span q (length bs)"
  proof
    assume "q + of_nat (length bs) \<in> span q (length bs)"
    then obtain j where j: "j < length bs" "(of_nat (length bs) :: u64) = of_nat j" by (auto simp: span_def)
    then have "length bs = j" using assms(3) unat_of_nat64 [of "length bs"] unat_of_nat64 [of j] by simp
    with j(1) show False by simp
  qed
  have "load_bytes (written T i q bs m) q (length bs) = load_bytes (store_bytes m q bs) q (length bs)"
  proof (rule load_bytes_cong)
    fix x assume x: "x \<in> span q (length bs)"
    then have "x \<noteq> q + of_nat (length bs)" using n by blast
    moreover have "x \<in> span q (length bs + 1)" using x span_insert by blast
    ultimately show "written T i q bs m x = store_bytes m q bs x" using w by simp
  qed
  also have "\<dots> = bs" using assms(3) by (intro load_store_bytes) simp_all
  finally show "load_bytes (written T i q bs m) q (length bs) = bs" .
  have "q + of_nat (length bs) \<in> span q (length bs + 1)" using span_insert by blast
  from w [OF this] show "written T i q bs m (q + of_nat (length bs)) = 0" by simp
qed

lemma data_of_view: "ld64 m (fld T i 96) = snd (snd (snd (inode_view m T i)))" and size_of_view: "ld32 m (fld T i 8) = fst (snd (snd (inode_view m T i)))"
  by (simp_all add: inode_view_def)

text \<open>The slot of a descriptor and the number of the inode it leads to.\<close>

definition opened :: "fs \<Rightarrow> u32 \<Rightarrow> nat \<Rightarrow> nat \<Rightarrow> bool" where
  "opened s d i n \<longleftrightarrow> find_slot (\<lambda>f. fd f = d) (open_files s) = Some i \<and> fd_inode (open_files s ! i) = of_nat n \<and> n < 2048"

lemma opened_slot: "opened s d i n \<Longrightarrow> find_slot (\<lambda>f. fd f = d \<and> fd_inode f < of_nat FS_MAX_INODES) (open_files s) = Some i"
proof -
  assume o: "opened s d i n"
  then have f: "find_slot (\<lambda>f. fd f = d) (open_files s) = Some i" and n: "fd_inode (open_files s ! i) = of_nat n" "n < 2048"
    by (simp_all add: opened_def)
  from find_slot_Some [OF f] have i: "i < length (open_files s)" "fd (open_files s ! i) = d" "\<forall>j<i. fd (open_files s ! j) \<noteq> d" by auto
  have "fd_inode (open_files s ! i) < of_nat FS_MAX_INODES" using n by (simp add: word_less_nat_alt unat_of_nat)
  with i show ?thesis by (intro find_slot_eqI) simp_all
qed

lemma opened_offset:
  "opened s d i n \<Longrightarrow> opened (s\<lparr>open_files := (open_files s)[i := (open_files s ! i)\<lparr>offset := p\<rparr>]\<rparr>) d i n"
proof -
  assume o: "opened s d i n"
  then have f: "find_slot (\<lambda>f. fd f = d) (open_files s) = Some i" by (simp add: opened_def)
  have "find_slot (\<lambda>f. fd f = d) ((open_files s)[i := (open_files s ! i)\<lparr>offset := p\<rparr>]) = find_slot (\<lambda>f. fd f = d) (open_files s)"
    using find_slot_Some [OF f] by (intro find_slot_cong) (auto simp: nth_list_update)
  with o find_slot_Some [OF f] show ?thesis by (simp add: opened_def)
qed

lemma write_at:
  fixes k :: "'a kfs_scheme"
  assumes o: "opened (fsys k) d i ii" and q: "ld64 (kram k) (fld (inode_table (fsys k)) ii 96) = q" "q \<noteq> 0" and src: "src \<noteq> 0"
    and n: "0 < n" "n < 2 ^ 31" and disj: "span src n \<inter> span q n = {}" "span (inode_table (fsys k)) 212992 \<inter> span q (n + 1) = {}"
  shows "\<exists>k'. fs_write d src (of_nat n) k = Some (int n, k')
    \<and> mem k' = (mem k)\<lparr>ram := written (inode_table (fsys k)) ii q (load_bytes (kram k) src n) (kram k)\<rparr>
    \<and> fsys k' = (fsys k)\<lparr>open_files := (open_files (fsys k))[i := (open_files (fsys k) ! i)\<lparr>offset := offset (open_files (fsys k) ! i) + of_nat n\<rparr>]\<rparr>"
proof -
  let ?T = "inode_table (fsys k)" and ?bs = "load_bytes (kram k) src n"
  have ii: "fd_inode (open_files (fsys k) ! i) = of_nat ii" "ii < 2048" using o by (simp_all add: opened_def)
  have un: "unat (of_nat n :: u32) = n" using n(2) by (simp add: unat_of_nat)
  have uc: "(ucast (of_nat n :: u32) :: u64) = of_nat n" using n(2) by (simp add: word_unat_eq_iff unat_of_nat unat_ucast_32_64)
  have n0: "(of_nat n :: u32) \<noteq> 0" using n un by auto
  have sn: "sint (of_nat n :: u32) = int n" using n(2) by (simp add: signed_of_nat signed_take_bit_int_eq_self)
  have f96: "x \<notin> span q (n + 1)" if "x \<in> span (fld ?T ii 96) 8" for x
    using that disj(2) field_in_table [OF ii(2), of 96 8 x ?T] by auto
  have c: "memcpy src q n (kram k) = store_bytes (kram k) q ?bs" using disj(1) by (rule memcpy_copies)
  have l: "ld64 (store_bytes (kram k) q ?bs) (fld ?T ii 96) = q"
  proof -
    have "ld64 (store_bytes (kram k) q ?bs) (fld ?T ii 96) = ld64 (kram k) (fld ?T ii 96)"
      by (rule ld64_cong) (use f96 span_mono [of n "n + 1" q] in \<open>auto intro!: store_bytes_other\<close>)
    then show ?thesis using q(1) by simp
  qed
  show ?thesis
    unfolding fs_write_def opened_slot [OF o]
    using src n0 q ii by (simp add: Let_def inode_at_nat in_fields un uc sn c l written_def)
qed

lemma read_at:
  fixes k :: "'a kfs_scheme"
  assumes o: "opened (fsys k) d i ii" and v: "inode_view (kram k) (inode_table (fsys k)) ii = (a, b, of_nat s, q)" "q \<noteq> 0"
    and dst: "dst \<noteq> 0" and n: "0 < n" "n < 2 ^ 31" "0 < s" "s < 2 ^ 31" and disj: "span q (min n s) \<inter> span dst (min n s) = {}"
  shows "\<exists>k'. fs_read d dst (of_nat n) k = (int (min n s), k')
    \<and> mem k' = (mem k)\<lparr>ram := store_bytes (kram k) dst (load_bytes (kram k) q (min n s))\<rparr>
    \<and> fsys k' = (fsys k)\<lparr>open_files := (open_files (fsys k))[i := (open_files (fsys k) ! i)\<lparr>offset := offset (open_files (fsys k) ! i) + of_nat (min n s)\<rparr>]\<rparr>"
proof -
  let ?T = "inode_table (fsys k)" and ?r = "min n s"
  have sl: "find_slot (\<lambda>f. fd f = d) (open_files (fsys k)) = Some i" using o by (simp add: opened_def)
  have ii: "fd_inode (open_files (fsys k) ! i) = of_nat ii" "ii < 2048" using o by (simp_all add: opened_def)
  have lt: "(of_nat ii :: u32) < of_nat FS_MAX_INODES" using ii(2) by (simp add: word_less_nat_alt unat_of_nat)
  have f: "ld64 (kram k) (fld ?T ii 96) = q" "ld32 (kram k) (fld ?T ii 8) = of_nat s" by (simp_all add: data_of_view size_of_view v)
  have un: "unat (of_nat j :: u32) = j" if "j < 2 ^ 31" for j using that by (simp add: unat_of_nat)
  have n0: "(of_nat n :: u32) \<noteq> 0" using n(1) un [OF n(2)] by auto
  have r: "(if (of_nat n :: u32) < of_nat s then of_nat n else of_nat s) = (of_nat ?r :: u32)"
    using un [OF n(2)] un [OF n(4)] by (simp add: word_less_nat_alt min_def)
  have rr: "?r < 2 ^ 31" "0 < ?r" using n by auto
  have r0: "(0 :: u32) < of_nat ?r" using un [OF rr(1)] rr(2) by (simp only: word_less_nat_alt unat_0)
  have sr: "sint (of_nat ?r :: u32) = int ?r" using rr(1) by (simp add: signed_of_nat signed_take_bit_int_eq_self del: of_nat_min)
  have c: "memcpy q dst ?r (kram k) = store_bytes (kram k) dst (load_bytes (kram k) q ?r)" using disj by (rule memcpy_copies)
  have D: "(dst = 0 \<or> (of_nat n :: u32) = 0) = False" using dst n0 by simp
  have Q: "(q \<noteq> 0 \<and> (0 :: u32) < of_nat ?r) = True" using v(2) r0 by simp
  show ?thesis
    unfolding fs_read_def sl option.case ii(1) Let_def inode_at_nat [OF ii(2)] in_fields f r D Q un [OF rr(1)] c sr
    using lt by simp
qed

lemma write_alloc:
  fixes k :: "'a kfs_scheme"
  assumes o: "opened (fsys k) d i ii" and z: "ld64 (kram k) (fld (inode_table (fsys k)) ii 96) = 0"
    and m: "malloc (ucast (n + 1)) k = Some (q, k1)" and q: "q \<noteq> 0"
    and nz: "src \<noteq> 0" "n \<noteq> 0"
  shows "fs_write d src n k = fs_write d src n (put64 (fld (inode_table (fsys k)) ii 96) q k1)"
proof -
  have id: "fd_inode (open_files (fsys k) ! i) = of_nat ii" "ii < 2048" using o by (simp_all add: opened_def)
  have f: "fsys k1 = fsys k" by (rule malloc_fsys [OF m])
  let ?k = "put64 (fld (inode_table (fsys k)) ii 96) q k1"
  have o': "opened (fsys ?k) d i ii" using o f by simp
  show ?thesis
    unfolding fs_write_def opened_slot [OF o] opened_slot [OF o']
    using q nz by (simp add: f id Let_def inode_at_nat in_fields z m)
qed

lemma write_fresh:
  fixes k :: "'a kfs_scheme"
  assumes s: "fs_store a k st" and o: "opened (fsys k) d i ii" and T: "T = inode_table (fsys k)"
    and v: "inode_view (kram k) T ii = (x, y, z, 0)"
    and src: "(src, l1) \<in> heap_owned a st" "src \<noteq> T" "n \<le> l1" and n: "0 < n" "n < 2097000" and pg: "0 < snd st"
  obtains k' st' q l where "fs_write d src (of_nat n) k = Some (int n, k')" "fs_store a k' st'"
    "heap_owned a st \<subseteq> heap_owned a st'" "inode_view (kram k') T ii = (x, y, of_nat n, q)" "q \<noteq> 0" "n + 1 \<le> l"
    "(q, l) \<in> heap_owned a st' - heap_owned a st" "load_bytes (kram k') q n = load_bytes (kram k) src n"
    "\<And>p j y. (p, j) \<in> heap_owned a st \<Longrightarrow> p \<noteq> T \<Longrightarrow> y \<in> span p j \<Longrightarrow> kram k' y = kram k y"
    "\<And>j. j < 2048 \<Longrightarrow> j \<noteq> ii \<Longrightarrow> inode_view (kram k') T j = inode_view (kram k) T j"
    "fsys k' = (fsys k)\<lparr>open_files := (open_files (fsys k))[i := (open_files (fsys k) ! i)\<lparr>offset := offset (open_files (fsys k) ! i) + of_nat n\<rparr>]\<rparr>"
    "snd st \<le> snd st' + 1"
proof -
  have ii: "ii < 2048" using o by (simp add: opened_def)
  obtain t where t: "212992 \<le> t" "(T, t) \<in> heap_owned a st" and h: "heap_rel a k st"
    using s by (auto simp: fs_store_def T)
  have un: "unat (of_nat n + 1 :: u32) = n + 1" using n(2) by (simp add: unat_word_ariths unat_of_nat)
  have uc: "(ucast (of_nat n + 1 :: u32) :: u64) = of_nat (n + 1)"
    unfolding word_unat_eq_iff unat_ucast_32_64 un using unat_of_nat64 [of "n + 1"] n(2) by simp
  obtain q k1 st1 where m: "malloc (of_nat (n + 1)) k = Some (q, k1)" "fsys k1 = fsys k" "heap_rel a k1 st1"
      "heap_owned a st \<subseteq> heap_owned a st1" "\<forall>(p, l)\<in>heap_owned a st. \<forall>x\<in>span p l. kram k1 x = kram k x"
      "q = 0 \<or> (\<exists>l\<ge>n + 1. (q, l) \<notin> heap_owned a st \<and> (q, l) \<in> heap_owned a st1)" "q = 0 \<longrightarrow> snd st = 0" "snd st \<le> snd st1 + 1"
    by (rule take_buffer [OF h, of "n + 1"]) (use n in simp_all)
  have q: "q \<noteq> 0" using m(7) pg by auto
  with m(6) obtain l where l: "n + 1 \<le> l" "(q, l) \<notin> heap_owned a st" "(q, l) \<in> heap_owned a st1" by blast
  let ?k = "put64 (fld T ii 96) q k1"
  have apart: "y \<notin> span q l" if "(p, j) \<in> heap_owned a st" "y \<in> span p j" for p j y
    using new_apart [OF m(3) l(3) _ _ order_refl that(2)] that(1) l(2) m(4) by blast
  have sub: "span q n \<subseteq> span q l" "span q (n + 1) \<subseteq> span q l" using l(1) by (simp_all add: span_mono)
  have Tq: "span T 212992 \<inter> span q (n + 1) = {}" using apart [OF t(2)] span_mono [OF t(1), of T] sub by blast
  have sq: "span src n \<inter> span q n = {}" using apart [OF src(1)] span_mono [OF src(3), of src] sub by blast
  have old: "kram k1 y = kram k y" if "(p, j) \<in> heap_owned a st" "y \<in> span p j" for p j y using m(5) that by blast
  have tab: "kram k1 y = kram k y" if "y \<in> span T 212992" for y using old [OF t(2)] that span_mono [OF t(1)] by blast
  have v1: "inode_view (kram k1) T j = inode_view (kram k) T j" if "j < 2048" for j
    by (rule view_agree) (use tab that in simp_all)
  have v2: "inode_view (kram ?k) T j = (if j = ii then (x, y, z, q) else inode_view (kram k) T j)" if "j < 2048" for j
    using that ii v by (simp add: v1)
  have out: "kram ?k y = kram k1 y" if "y \<notin> span T 212992" for y
  proof -
    have "y \<notin> span (fld T ii 96) 8" using field_in_table [OF ii, of 96 8] that by auto
    then show ?thesis by (simp add: st64_other)
  qed
  have Tsrc: "y \<notin> span T t" if "(p, j) \<in> heap_owned a st" "p \<noteq> T" "y \<in> span p j" for p j y
    using new_apart [OF h t(2) that(1) _ order_refl that(3)] that(2) by blast
  have ob: "kram ?k y = kram k y" if "(p, j) \<in> heap_owned a st" "p \<noteq> T" "y \<in> span p j" for p j y
    using out [of y] old [OF that(1,3)] Tsrc [OF that] span_mono [OF t(1)] by auto
  have bytes: "load_bytes (kram ?k) src n = load_bytes (kram k) src n"
    by (rule load_bytes_cong) (use ob [OF src(1,2)] span_mono [OF src(3)] in blast)
  let ?W = "written T ii q (load_bytes (kram k) src n) (kram ?k)"
  have o': "opened (fsys ?k) d i ii" using o m(2) by simp
  have Tk: "inode_table (fsys ?k) = T" using m(2) T by simp
  have sn: "src \<noteq> 0" by (rule owned_nonzero(1) [OF h src(1)])
  have n0: "(of_nat n :: u32) \<noteq> 0" using n by (simp add: word_unat_eq_iff unat_of_nat)
  have w: "fs_write d src (of_nat n) k = fs_write d src (of_nat n) ?k"
    unfolding T by (rule write_alloc [OF o]) (use v m(1) uc q sn n0 in \<open>simp_all add: data_of_view T [symmetric]\<close>)
  have dq: "ld64 (kram ?k) (fld (inode_table (fsys ?k)) ii 96) = q" unfolding Tk by simp
  have n31: "n < 2 ^ 31" using n(2) by simp
  obtain k' where k': "fs_write d src (of_nat n) ?k = Some (int n, k')" "mem k' = (mem ?k)\<lparr>ram := ?W\<rparr>"
      "fsys k' = (fsys k)\<lparr>open_files := (open_files (fsys k))[i := (open_files (fsys k) ! i)\<lparr>offset := offset (open_files (fsys k) ! i) + of_nat n\<rparr>]\<rparr>"
    using write_at [OF o' dq q sn n(1) n31 sq] Tq m(2) unfolding Tk bytes by auto
  have len: "length (load_bytes (kram k) src n) = n" by simp
  have Wo: "?W y = kram k1 y" if "y \<notin> span q (n + 1)" "y \<notin> span T 212992" for y
    using written_other [OF ii, of y q "load_bytes (kram k) src n" T "kram ?k"] that out unfolding len by simp
  have rel: "heap_rel a (set_ram ?W k1) st1"
  proof (rule kstore.poke_law [OF m(3)])
    fix y assume "?W y \<noteq> kram k1 y"
    then have "y \<in> span q (n + 1) \<or> y \<in> span T 212992" using Wo by blast
    then show "\<exists>(p, j)\<in>heap_owned a st1. y \<in> span p j" using sub l(3) t(2) m(4) span_mono [OF t(1)] by blast
  qed
  have hk: "heap_rel a k' st1" using rel heap_rel_mem [of k' "set_ram ?W k1"] k'(2) by simp
  have store: "fs_store a k' st1" using s hk m(4) unfolding fs_store_def k'(3) by auto
  have view: "inode_view (kram k') T j = (if j = ii then (x, y, of_nat n, q) else inode_view (kram k) T j)" if "j < 2048" for j
  proof -
    have kk: "kram k' = ?W" using k'(2) by simp
    have tq: "span T 212992 \<inter> span q (length (load_bytes (kram k) src n) + 1) = {}" using Tq unfolding len .
    show ?thesis
      unfolding kk written_view [OF tq ii that] len v2 [OF that] v2 [OF ii] by simp
  qed
  have lb: "load_bytes (kram k') q n = load_bytes (kram k) src n"
    using written_bytes(1) [of T q "load_bytes (kram k) src n" ii "kram ?k"] Tq ii n31 k'(2) unfolding len by simp
  have keep: "kram k' y = kram k y" if "(p, j) \<in> heap_owned a st" "p \<noteq> T" "y \<in> span p j" for p j y
  proof -
    have "y \<notin> span q (n + 1)" "y \<notin> span T 212992"
      using apart [OF that(1,3)] sub Tsrc [OF that] span_mono [OF t(1)] by blast+
    then show ?thesis using Wo old [OF that(1,3)] k'(2) by simp
  qed
  show thesis
  proof (rule that [of k' st1 q l])
    show "fs_write d src (of_nat n) k = Some (int n, k')" using w k'(1) by simp
    show "inode_view (kram k') T ii = (x, y, of_nat n, q)" using view [OF ii] by simp
    show "inode_view (kram k') T j = inode_view (kram k) T j" if "j < 2048" "j \<noteq> ii" for j using view that by simp
    show "(q, l) \<in> heap_owned a st1 - heap_owned a st" using l by blast
  qed (use store m(4,8) q l(1) lb k'(3) keep in \<open>(assumption | blast)+\<close>)
qed

lemma load_bytes_prefix: "r \<le> n \<Longrightarrow> load_bytes m a r = take r (load_bytes m a n)"
  by (simp add: load_bytes_def take_map)

lemma files_cong:
  assumes "open_files s' = open_files s" and "next_fd s' = next_fd s"
  shows "files_ok s' = files_ok s" and "file_of s' = file_of s"
  using assms by (auto simp: files_ok_def file_of_def fun_eq_iff)

text \<open>Writing into a buffer of the heap that is not the inode table.\<close>

lemma store_buffer:
  fixes k :: "'a kfs_scheme"
  assumes s: "fs_store a k st" and b: "(p, l) \<in> heap_owned a st" and bs: "length bs \<le> l"
    and m: "mem k' = (mem k)\<lparr>ram := store_bytes (kram k) p bs\<rparr>"
    and f: "fsys k' = (fsys k)\<lparr>open_files := fs\<rparr>" "length fs = 128"
  shows "fs_store a k' st"
proof -
  have h: "heap_rel a k st" using s by (simp add: fs_store_def)
  have "heap_rel a (set_ram (store_bytes (kram k) p bs) k) st"
    by (rule kstore.write_buffer(1) [OF h b]) (use span_mono [OF bs] in \<open>blast intro: store_bytes_other\<close>)
  then have "heap_rel a k' st" using heap_rel_mem [of k' "set_ram (store_bytes (kram k) p bs) k"] m by simp
  then show ?thesis using s f by (simp add: fs_store_def)
qed

lemma opened_new:
  assumes ok: "files_ok s" and f: "file_of s d = Some (of_nat n, m, p)" and n: "n < 2048"
  obtains i where "opened s d i n" "i < 128" "fd_refs (open_files s ! i) = 1"
proof -
  from f file_of_Some [OF ok] obtain i where d: "d \<noteq> 0" and i: "i < 128" "fd (open_files s ! i) = d"
      "fd_inode (open_files s ! i) = of_nat n" by auto
  have "fd_refs (open_files s ! i) = 1" using files_ok_nth [OF ok i(1)] d i(2) by (auto simp: free_slot_def)
  with that [of i] find_fd [OF ok i(1,2) d] i n show thesis by (simp add: opened_def)
qed

text \<open>C2: what is written to a new file is read back: creating a file, opening it by its name (any but
  the two built-in ones), writing a buffer and reading into another return the new inode's number,
  the new descriptor and the two counts, the size of the file is the number of bytes written, the
  bytes read are the bytes written, and the heap stays well formed.\<close>

theorem file_round_trip:
  fixes k :: "'a kfs_scheme"
  assumes "fs_store a k st" and "inodes_used k n" and "n < 2047" and "0 < snd st"
    and "files_ok (fsys k)" and "card (dom (file_of (fsys k))) < 128" and "unat (next_fd (fsys k)) + 1 < 2 ^ 32"
    and "NUL \<in> set s" and "cstr s \<noteq> ''test.txt''" and "cstr s \<noteq> ''mydir''"
    and "(src, l1) \<in> heap_owned a st" and "src \<noteq> inode_table (fsys k)" and "len \<le> l1" and "0 < len" and "len < 2097000"
    and "(dst, l2) \<in> heap_owned a st" and "dst \<noteq> inode_table (fsys k)" and "min cnt len \<le> l2" and "0 < cnt" and "cnt < 2 ^ 31"
  shows "\<exists>k1 k2 k3 k4 st'. fs_create_file (Some s) k = (int (n + 1), k1)
    \<and> fs_open (Some s) md k1 = Some (sint (next_fd (fsys k)), k2)
    \<and> fs_write (next_fd (fsys k)) src (of_nat len) k2 = Some (int len, k3)
    \<and> fs_get_file_size (next_fd (fsys k)) k3 = of_nat len
    \<and> fs_read (next_fd (fsys k)) dst (of_nat cnt) k3 = (int (min cnt len), k4)
    \<and> load_bytes (kram k4) dst (min cnt len) = load_bytes (kram k) src (min cnt len) \<and> fs_store a k4 st'"
proof -
  let ?T = "inode_table (fsys k)" and ?d = "next_fd (fsys k)" and ?r = "min cnt len"
  have i: "n + 1 < 2048" using assms(3) by simp
  obtain k1 where k1: "create (NewFile s) k = (int (n + 1), k1)" "inode_table (fsys k1) = ?T"
      "row_only ?T (n + 1) (kram k) (kram k1)" "inode_view (kram k1) ?T (n + 1) = (of_nat (n + 1), create_type (NewFile s), 0, 0)"
      "mem k1 = (mem k)\<lparr>ram := kram k1\<rparr>" "open_files (fsys k1) = open_files (fsys k)" "next_fd (fsys k1) = ?d"
      "block_bitmap (fsys k1) = block_bitmap (fsys k)" "last_created_inode (fsys k1) = of_nat (n + 1)"
    using new_inode_step [OF assms(2,3)] by metis
  have s1: "fs_store a k1 st" and b1: "\<And>q l y. (q, l) \<in> heap_owned a st \<Longrightarrow> q \<noteq> ?T \<Longrightarrow> y \<in> span q l \<Longrightarrow> kram k1 y = kram k y"
    using store_table [OF assms(1) k1(5) _ k1(2,8)] k1(3,6) by (auto simp: row_only_def)
  have ok1: "files_ok (fsys k1)" "file_of (fsys k1) = file_of (fsys k)" using files_cong [OF k1(6,7)] assms(5) by simp_all
  have nw: "next_fd (fsys k1) < next_fd (fsys k1) + 1" using no_wrap [OF assms(7)] k1(7) by simp
  have nm: "inode_named (last_created_inode (fsys k1)) (cstr s) = of_nat (n + 1)"
    unfolding inode_named_def k1(9) using assms(9,10) small_id(1) [OF i] by simp
  obtain k2 where k2: "fs_open (Some s) md k1 = Some (sint ?d, k2)" "mem k2 = mem k1" "files_ok (fsys k2)"
      "file_of (fsys k2) = (file_of (fsys k1))(?d \<mapsto> (of_nat (n + 1), md, 0))"
      "fsys k2 = (fsys k1)\<lparr>open_files := open_files (fsys k2), next_fd := next_fd (fsys k1) + 1\<rparr>"
    using open_effect [OF ok1(1) assms(8) nw, of md] assms(6) unfolding ok1(2) nm k1(7) by auto
  have f2: "inode_table (fsys k2) = ?T" "block_bitmap (fsys k2) = block_bitmap (fsys k)"
    using arg_cong [OF k2(5), of inode_table] arg_cong [OF k2(5), of block_bitmap] k1(2,8) by simp_all
  have s2: "fs_store a k2 st"
    using s1 k2(3) heap_rel_mem [OF k2(2)] by (simp add: fs_store_def files_ok_def f2 k1(2,8))
  have fo: "file_of (fsys k2) ?d = Some (of_nat (n + 1), md, 0)" using k2(4) by simp
  obtain j where j: "opened (fsys k2) ?d j (n + 1)" by (rule opened_new [OF k2(3) fo i])
  have v2: "inode_view (kram k2) ?T (n + 1) = (of_nat (n + 1), FS_TYPE_FILE, 0, 0)" using k1(4) k2(2) by simp
  have Tk2: "?T = inode_table (fsys k2)" using f2 by simp
  obtain k3 st' q l where k3: "fs_write ?d src (of_nat len) k2 = Some (int len, k3)" "fs_store a k3 st'"
    "heap_owned a st \<subseteq> heap_owned a st'" "inode_view (kram k3) ?T (n + 1) = (of_nat (n + 1), FS_TYPE_FILE, of_nat len, q)" "q \<noteq> 0" "len + 1 \<le> l"
    "(q, l) \<in> heap_owned a st' - heap_owned a st" "load_bytes (kram k3) q len = load_bytes (kram k2) src len"
    and f3: "fsys k3 = (fsys k2)\<lparr>open_files := (open_files (fsys k2))[j := (open_files (fsys k2) ! j)\<lparr>offset := offset (open_files (fsys k2) ! j) + of_nat len\<rparr>]\<rparr>"
    by (rule write_fresh [OF s2 j(1) Tk2 v2 assms(11-15,4)]) (rule that; assumption)
  have o3: "opened (fsys k3) ?d j (n + 1)" unfolding f3 by (rule opened_offset [OF j(1)])
  have Tk3: "inode_table (fsys k3) = ?T" using f3 f2 by simp
  have fi: "fd_inode (open_files (fsys k3) ! j) = of_nat (n + 1)" using o3 by (simp add: opened_def)
  have gs: "fs_get_file_size ?d k3 = of_nat len"
    unfolding fs_get_file_size_def opened_slot [OF o3] option.case fi inode_at_nat [OF i] Tk3 in_fields size_of_view k3(4) by simp
  have h3: "heap_rel a k3 st'" using k3(2) by (simp add: fs_store_def)
  have d3: "(dst, l2) \<in> heap_owned a st'" "(q, l) \<in> heap_owned a st'" "(dst, l2) \<noteq> (q, l)" using assms(16) k3(3,7) by auto
  have "span q l \<inter> span dst l2 = {}" using kheap.disjoint [OF h3 d3(2,1)] d3(3) by auto
  moreover have "span q ?r \<subseteq> span q l" "span dst ?r \<subseteq> span dst l2"
    by (rule span_mono, use k3(6) assms(18) in simp)+
  ultimately have sep: "span q ?r \<inter> span dst ?r = {}" by blast
  have v3: "inode_view (kram k3) (inode_table (fsys k3)) (n + 1) = (of_nat (n + 1), FS_TYPE_FILE, of_nat len, q)" using k3(4) Tk3 by simp
  have dn: "dst \<noteq> 0" by (rule owned_nonzero(1) [OF h3 d3(1)])
  have l31: "len < 2 ^ 31" using assms(15) by simp
  from read_at [OF o3 v3 k3(5) dn assms(19,20,14) l31 sep]
  obtain k4 where k4: "fs_read ?d dst (of_nat cnt) k3 = (int ?r, k4)"
      "mem k4 = (mem k3)\<lparr>ram := store_bytes (kram k3) dst (load_bytes (kram k3) q ?r)\<rparr>"
      and f4: "fsys k4 = (fsys k3)\<lparr>open_files := (open_files (fsys k3))[j := (open_files (fsys k3) ! j)\<lparr>offset := offset (open_files (fsys k3) ! j) + of_nat ?r\<rparr>]\<rparr>"
    by (elim exE conjE)
  have s4: "fs_store a k4 st'"
    by (rule store_buffer [OF k3(2) d3(1) _ k4(2) f4]) (use assms(18) k3(2) in \<open>simp_all add: fs_store_def\<close>)
  have r: "?r \<le> len" "?r \<le> 2 ^ 64" using assms(20) by simp_all
  have "load_bytes (kram k4) dst ?r = load_bytes (kram k3) q ?r"
    unfolding k4(2) using r(2) by (simp add: load_store_bytes)
  also have "\<dots> = load_bytes (kram k2) src ?r"
    using k3(8) load_bytes_prefix [OF r(1), of "kram k3" q] load_bytes_prefix [OF r(1), of "kram k2" src] by simp
  also have "\<dots> = load_bytes (kram k) src ?r"
  proof (rule load_bytes_cong)
    fix y assume "y \<in> span src ?r"
    then have "y \<in> span src l1" using span_mono [OF le_trans [OF r(1) assms(13)]] by blast
    from b1 [OF assms(11,12) this] k2(2) show "kram k2 y = kram k y" by simp
  qed
  finally have rd: "load_bytes (kram k4) dst ?r = load_bytes (kram k) src ?r" .
  have c: "fs_create_file (Some s) k = (int (n + 1), k1)" using k1(1) by simp
  show ?thesis
    by (intro exI conjI) (rule c k2(1) k3(1) gs k4(1) rd s4)+
qed


text \<open>A new file system with a buffer of 64 bytes for the caller.\<close>

lemma demo_buffer:
  obtains k0 k p l st where "fs_init demo_fs = Some k0" "malloc (of_nat 64) k0 = Some (p, k)" "fs_store 0xffff800000200000 k st"
    "inodes_used k 0" "files_ok (fsys k)" "file_of (fsys k) = Map.empty" "next_fd (fsys k) = 1" "0 < snd st"
    "(p, l) \<in> heap_owned 0xffff800000200000 st" "64 \<le> l" "p \<noteq> inode_table (fsys k)"
proof -
  let ?a = "0xffff800000200000 :: nat"
  obtain k0 st0 where k0: "fs_init demo_fs = Some k0" "fs_store ?a k0 st0" "inodes_used k0 0"
    "\<forall>f\<in>set (open_files (fsys k0)). fd f = 0 \<and> fd_inode f = 0 \<and> fd_refs f = 0" "4 \<le> snd st0" "next_fd (fsys k0) = 1"
    by (rule demo_fs_ready)
  have h0: "heap_rel ?a k0 st0" and len: "length (open_files (fsys k0)) = 128" using k0(2) by (simp_all add: fs_store_def)
  obtain p k st where m: "malloc (of_nat 64) k0 = Some (p, k)" "fsys k = fsys k0" "heap_rel ?a k st"
      "heap_owned ?a st0 \<subseteq> heap_owned ?a st" "\<forall>(q, l)\<in>heap_owned ?a st0. \<forall>x\<in>span q l. kram k x = kram k0 x"
      "p = 0 \<or> (\<exists>l\<ge>64. (p, l) \<notin> heap_owned ?a st0 \<and> (p, l) \<in> heap_owned ?a st)" "p = 0 \<longrightarrow> snd st0 = 0" "snd st0 \<le> snd st + 1"
    by (rule take_buffer [OF h0, of 64]) simp_all
  have p0: "p \<noteq> 0" using m(7) k0(5) by auto
  with m(6) obtain l where l: "64 \<le> l" "(p, l) \<notin> heap_owned ?a st0" "(p, l) \<in> heap_owned ?a st" by blast
  obtain t where t: "212992 \<le> t" "(inode_table (fsys k0), t) \<in> heap_owned ?a st0" using k0(2) by (auto simp: fs_store_def)
  have "p \<noteq> inode_table (fsys k0)"
    using kheap.same_block [OF m(3) l(3), of t] t l m(4) by auto
  moreover have "fs_store ?a k st" using k0(2) m(3,4) by (auto simp: fs_store_def m(2))
  moreover have "inode_view (kram k) (inode_table (fsys k0)) i = inode_view (kram k0) (inode_table (fsys k0)) i" if "i < 2048" for i
    by (rule view_agree) (use m(5) t span_mono [OF t(1)] that in blast)+
  then have "inodes_used k 0" using k0(3) by (simp add: inodes_used_def m(2))
  moreover have "files_ok (fsys k)" "file_of (fsys k) = Map.empty"
    using files_ok_fresh [OF len _ k0(4)] k0(6) m(2) by simp_all
  ultimately show thesis using that [OF k0(1) m(1)] k0(5,6) m(2,8) l by auto
qed

theorem file_round_trip_witness:
  "\<exists>k0 p k k1 k2 k3 k4. fs_init demo_fs = Some k0 \<and> malloc (of_nat 64) k0 = Some (p, k)
    \<and> fs_create_file (Some (''log'' @ [NUL])) k = (1, k1) \<and> fs_open (Some (''log'' @ [NUL])) 0 k1 = Some (1, k2)
    \<and> fs_write 1 p 40 k2 = Some (40, k3) \<and> fs_read 1 p 64 k3 = (40, k4)
    \<and> load_bytes (kram k4) p 40 = load_bytes (kram k) p 40"
proof -
  obtain k0 k p l st where k: "fs_init demo_fs = Some k0" "malloc (of_nat 64) k0 = Some (p, k)" "fs_store 0xffff800000200000 k st"
    "inodes_used k 0" "files_ok (fsys k)" "file_of (fsys k) = Map.empty" "next_fd (fsys k) = 1" "0 < snd st"
    "(p, l) \<in> heap_owned 0xffff800000200000 st" "64 \<le> l" "p \<noteq> inode_table (fsys k)"
    by (rule demo_buffer)
  have n: "NUL \<in> set (''log'' @ [NUL])" "cstr (''log'' @ [NUL]) \<noteq> ''test.txt''" "cstr (''log'' @ [NUL]) \<noteq> ''mydir''"
    by (simp_all add: cstr_def)
  have x: "card (dom (file_of (fsys k))) < 128" "unat (next_fd (fsys k)) + 1 < 2 ^ 32" by (simp_all add: k(6,7))
  from file_round_trip [OF k(3,4) _ k(8,5) x n k(9,11) _ _ _ k(9,11), of 40 64 0] k(10)
  obtain k1 k2 k3 k4 where "fs_create_file (Some (''log'' @ [NUL])) k = (1, k1)" "fs_open (Some (''log'' @ [NUL])) 0 k1 = Some (1, k2)"
      "fs_write 1 p 40 k2 = Some (40, k3)" "fs_read 1 p 64 k3 = (40, k4)" "load_bytes (kram k4) p 40 = load_bytes (kram k) p 40"
    by (auto simp: k(7))
  with k(1,2) show ?thesis by blast
qed

text \<open>C30: writing a file a second time reuses its block without asking how long it is: whatever the
  length \<open>l\<close> of the block, a write of \<open>n \<ge> l\<close> bytes is reported as a success and its bytes and the
  terminator land past the end of the block.\<close>

theorem rewrite_overruns_block:
  fixes k :: "'a kfs_scheme"
  assumes "opened (fsys k) d i j" and "inode_view (kram k) (inode_table (fsys k)) j = (x, y, z, q)" and "q \<noteq> 0" and "src \<noteq> 0"
    and "0 < n" and "n < 2 ^ 31" and "l \<le> n"
    and "span src n \<inter> span q n = {}" and "span (inode_table (fsys k)) 212992 \<inter> span q (n + 1) = {}"
  shows "\<exists>k'. fs_write d src (of_nat n) k = Some (int n, k') \<and> q + of_nat n \<notin> span q l \<and> kram k' (q + of_nat n) = 0
    \<and> load_bytes (kram k') q n = load_bytes (kram k) src n"
proof -
  have j: "j < 2048" using assms(1) by (simp add: opened_def)
  have d: "ld64 (kram k) (fld (inode_table (fsys k)) j 96) = q" by (simp add: data_of_view assms(2))
  obtain k' where k': "fs_write d src (of_nat n) k = Some (int n, k')"
      "mem k' = (mem k)\<lparr>ram := written (inode_table (fsys k)) j q (load_bytes (kram k) src n) (kram k)\<rparr>"
    using write_at [OF assms(1) d assms(3-6,8,9)] by blast
  have "q + of_nat n \<notin> span q l"
  proof
    assume "q + of_nat n \<in> span q l"
    then obtain p where p: "p < l" "(of_nat n :: u64) = of_nat p" by (auto simp: span_def)
    then have "n = p" using assms(6,7) unat_of_nat64 [of n] unat_of_nat64 [of p] by simp
    with p(1) assms(7) show False by simp
  qed
  moreover have "kram k' (q + of_nat n) = 0" "load_bytes (kram k') q n = load_bytes (kram k) src n"
    using written_bytes [of "inode_table (fsys k)" q "load_bytes (kram k) src n" j "kram k"] assms(6,9) j k'(2) by simp_all
  ultimately show ?thesis using k'(1) by blast
qed

text \<open>A file whose block is at \<open>0x1000\<close>, open as descriptor 1.\<close>

definition demo_file :: kfs where
  "demo_file = set_ram (st64 (\<lambda>_. 0) (fld 0x300000 1 96) 0x1000) (on_fs (\<lambda>s. s\<lparr>inode_table := 0x300000,
     open_files := [\<lparr>fd = 1, fd_inode = 1, offset = 0, mode = 0, fd_refs = 1\<rparr>]\<rparr>) demo_fs)"

theorem rewrite_overruns_block_witness:
  "\<exists>k'. fs_write 1 0x8000 16 demo_file = Some (16, k') \<and> 0x1010 \<notin> span (0x1000 :: u64) 8 \<and> kram k' 0x1010 = 0
    \<and> load_bytes (kram k') 0x1000 16 = load_bytes (kram demo_file) 0x8000 16"
proof -
  have T: "inode_table (fsys demo_file) = 0x300000" by (simp add: demo_file_def)
  have o: "opened (fsys demo_file) 1 0 1"
    unfolding opened_def by (simp add: demo_file_def find_slot_def)
  have v: "inode_view (kram demo_file) (inode_table (fsys demo_file)) 1 = (fst (inode_view (\<lambda>_. 0) 0x300000 1),
      fst (snd (inode_view (\<lambda>_. 0) 0x300000 1)), fst (snd (snd (inode_view (\<lambda>_. 0) 0x300000 1))), 0x1000)"
    unfolding T by (simp add: demo_file_def split_beta)
  have d1: "span 0x8000 16 \<inter> span (0x1000 :: u64) 16 = {}" and d2: "span (0x300000 :: u64) 212992 \<inter> span 0x1000 (16 + 1) = {}"
    using span_off_disjoint [of "0x8000" 16 "0x1000" 16 0] span_off_disjoint [of "0x300000" 212992 "0x1000" "16 + 1" 0] by simp_all
  from rewrite_overruns_block [OF o v, of "0x8000" 16 8] d1 d2 show ?thesis unfolding T by simp
qed

text \<open>Descriptor 0 can be closed although it is never handed out: while a slot is free, the call
  answers with success, lets the reference count of the first free slot wrap to \<open>2 ^ 32 - 1\<close>, and that
  slot is not free any more.\<close>

theorem close_zero_takes_slot:
  fixes k :: "'a kfs_scheme"
  assumes "files_ok (fsys k)" and "\<exists>i<128. free_slot (open_files (fsys k) ! i)"
  shows "\<exists>k' i. fs_close 0 k = (0, k') \<and> i < 128 \<and> free_slot (open_files (fsys k) ! i)
    \<and> open_files (fsys k') = (open_files (fsys k))[i := (open_files (fsys k) ! i)\<lparr>fd_refs := 0xFFFFFFFF\<rparr>]
    \<and> \<not> files_ok (fsys k')"
proof -
  have len: "length (open_files (fsys k)) = 128" using assms(1) by (simp add: files_ok_def)
  have iff: "fd (open_files (fsys k) ! i) = 0 \<longleftrightarrow> free_slot (open_files (fsys k) ! i)" if "i < 128" for i
    using files_ok_nth [OF assms(1) that] by (auto simp: free_slot_def)
  obtain i where i: "find_slot (\<lambda>f. fd f = 0) (open_files (fsys k)) = Some i"
  proof (cases "find_slot (\<lambda>f. fd f = 0) (open_files (fsys k))")
    case None
    then show thesis using assms(2) iff len by (auto simp: find_slot_None all_set_conv_all_nth)
  qed
  have lt: "i < 128" and f: "free_slot (open_files (fsys k) ! i)"
    using find_slot_Some [OF i] len iff by auto
  then have r: "fd_refs (open_files (fsys k) ! i) = 0" "fd (open_files (fsys k) ! i) = 0" by (simp_all add: free_slot_def)
  have minus_one: "(-1 :: u32) = 0xFFFFFFFF" by simp
  obtain k' where k': "fs_close 0 k = (0, k')"
      "fsys k' = (fsys k)\<lparr>open_files := (open_files (fsys k))[i := (open_files (fsys k) ! i)\<lparr>fd_refs := 0xFFFFFFFF\<rparr>]\<rparr>"
    using i r lt len by (simp add: fs_close_def minus_one)
  have "\<not> files_ok (fsys k')"
    using files_ok_nth [of "fsys k'" i] lt r len by (auto simp: k'(2) free_slot_def)
  then show ?thesis using k' lt f by (intro exI [of _ k'] exI [of _ i]) simp
qed

theorem close_zero_takes_slot_witness: "\<exists>k'. fs_close 0 demo_fs = (0, k') \<and> \<not> files_ok (fsys k')"
proof -
  have "free_slot (open_files (fsys demo_fs) ! 0)" by (simp add: demo_fs_def fs_boot_def free_slot_def)
  then have "\<exists>i<128. free_slot (open_files (fsys demo_fs) ! i)" by (intro exI [of _ 0]) simp
  from close_zero_takes_slot [OF demo_files(1) this] show ?thesis by blast
qed

end
