(* ===== verification/Bios.thy ===== *)
theory Bios
  imports Ram
begin

text \<open>
  OS-2, the sixteen-bit exercise (\<open>OS-2/src/kernel\<close>): it asks the BIOS for the memory map and
  reports through the BIOS teletype. \<open>types.h\<close> makes \<open>uint32_t\<close> an unsigned char, so every field of
  its structures has one byte. The BIOS is a parameter: what \<open>int 0x15\<close> answers to the registers
  and the memory it is called with.
\<close>

subsection \<open>Types\<close>

text \<open>\<open>memory_raw_t\<close>: five fields of type \<open>uint32_t\<close>, that is, five bytes.\<close>

record memory_raw_t =
  base_l :: u8
  base_h :: u8
  length_l :: u8
  length_h :: u8
  raw_type :: u8

definition SIZEOF_memory_raw :: u32 where "SIZEOF_memory_raw = 5"

definition MEMORY_MAX_COUNT :: u32 where "MEMORY_MAX_COUNT = 24"

text \<open>The memory, and what the teletype was sent: pairs of \<open>al\<close> and \<open>bl\<close>.\<close>

record k16 =
  ram16 :: ram
  tty16 :: "(u8 \<times> u8) list"

record regs16 =
  eax :: u32
  ebx :: u32
  ecx :: u32
  edx :: u32
  edi :: u32

text \<open>The answer of \<open>int 0x15\<close>: the registers \<open>eax\<close>, \<open>ecx\<close> and \<open>ebx\<close>, and the memory.\<close>

type_synonym bios = "regs16 \<Rightarrow> ram \<Rightarrow> (u32 \<times> u32 \<times> u32) \<times> ram"

text \<open>\<open>memory_info\<close> stands at a 32-bit address; an entry's address wraps as the code computes it.\<close>

definition raw_ptr :: "u32 \<Rightarrow> u32 \<Rightarrow> u32" where
  "raw_ptr info index = info + SIZEOF_memory_raw * index"

definition raw_at :: "ram \<Rightarrow> u32 \<Rightarrow> memory_raw_t" where
  "raw_at m p = \<lparr>base_l = m (ucast p), base_h = m (ucast (p + 1)), length_l = m (ucast (p + 2)),
     length_h = m (ucast (p + 3)), raw_type = m (ucast (p + 4))\<rparr>"

definition count_ptr :: "u32 \<Rightarrow> u32" where
  "count_ptr info = info + SIZEOF_memory_raw * MEMORY_MAX_COUNT"


subsection \<open>Operations\<close>

definition int10_teletype :: "u8 \<Rightarrow> u8 \<Rightarrow> k16 \<Rightarrow> k16" where
  "int10_teletype al bl k = k\<lparr>tty16 := tty16 k @ [(al, bl)]\<rparr>"

definition show_string :: "string \<Rightarrow> u8 \<Rightarrow> k16 \<Rightarrow> k16" where
  "show_string str color k =
     (let color = color AND 0xFF
      in fold (\<lambda>p. let c = of_char p AND 0xFF in int10_teletype c color) (cstr str) k)"

definition sign32 :: u32 where "sign32 = 0x534D4150"

definition sign16 :: u32 where "sign16 = 0xE820"

definition MSG_error :: string where
  "MSG_error = ''Memory check error! '' @ [CHR 0x0D, CHR 0x0A]"

definition MSG_success :: string where
  "MSG_success = ''Memory check success! '' @ [CHR 0x0D, CHR 0x0A]"

partial_function (option) memory_check_loop :: "bios \<Rightarrow> u32 \<Rightarrow> u32 \<Rightarrow> k16 \<Rightarrow> k16 option" where
  "memory_check_loop int15 info index k =
     (let memory_raw = raw_ptr info index;
          ((signature, bytes, index), m) =
            int15 \<lparr>eax = sign16, ebx = index, ecx = MEMORY_MAX_COUNT, edx = sign32, edi = memory_raw\<rparr> (ram16 k);
          k = k\<lparr>ram16 := m\<rparr>;
          k = (if signature \<noteq> sign32 then show_string MSG_error 0xFF k else k);
          count = ucast (count_ptr info);
          k = k\<lparr>ram16 := (ram16 k)(count := ram16 k count + 1)\<rparr>
      in if index = 0 then Some (show_string MSG_success 0xF0 k)
         else memory_check_loop int15 info index k)"

definition memory_check :: "bios \<Rightarrow> u32 \<Rightarrow> k16 \<Rightarrow> k16 option" where
  "memory_check int15 info k = memory_check_loop int15 info 0 k"

text \<open>\<open>kernel_init\<close> of OS-2; the exchange of \<open>bx\<close> with itself is a breakpoint of the emulator.\<close>

definition kernel_init16 :: "bios \<Rightarrow> u32 \<Rightarrow> k16 \<Rightarrow> k16 option" where
  "kernel_init16 int15 info k = memory_check int15 info k"


subsection \<open>What the teletype shows\<close>

definition shown :: "string \<Rightarrow> u8 \<Rightarrow> (u8 \<times> u8) list" where
  "shown str color = map (\<lambda>c. (of_char c, color)) str"

lemma of_char_AND_FF: "(of_char c :: u8) AND 0xFF = of_char c"
proof -
  have "(0xFF :: u8) = - 1" by simp
  then show ?thesis by (simp only: and.right_neutral)
qed

lemma show_string_shown:
  "show_string str color k = k\<lparr>tty16 := tty16 k @ shown (cstr str) color\<rparr>"
proof -
  have mask: "color AND 0xFF = color"
  proof -
    have "(0xFF :: u8) = - 1" by simp
    then show ?thesis by (simp only: and.right_neutral)
  qed
  have "fold (\<lambda>p. int10_teletype (of_char p) color) cs k = k\<lparr>tty16 := tty16 k @ shown cs color\<rparr>" for cs
    by (induction cs arbitrary: k) (simp_all add: int10_teletype_def shown_def)
  then show ?thesis
    by (simp only: show_string_def of_char_AND_FF mask Let_def)
qed

lemma cstr_messages [simp]: "cstr MSG_error = MSG_error" "cstr MSG_success = MSG_success"
  by (simp_all add: MSG_error_def MSG_success_def cstr_def)


subsection \<open>A BIOS that lists the memory map\<close>

text \<open>
  The documented answer to function E820: the signature, the 20 bytes of one entry at the buffer
  and the number of the next entry, 0 after the last.
\<close>

definition bios_lists :: "bios \<Rightarrow> u8 list list \<Rightarrow> bool" where
  "bios_lists int15 es \<longleftrightarrow> (\<forall>e\<in>set es. length e = 20) \<and>
     (\<forall>i<length es. \<forall>p m. int15 \<lparr>eax = sign16, ebx = of_nat i, ecx = MEMORY_MAX_COUNT, edx = sign32, edi = p\<rparr> m =
        ((sign32, 20, if Suc i < length es then of_nat (Suc i) else 0), store_bytes m (ucast p) (es ! i)))"

text \<open>One round of the loop on such a BIOS.\<close>

definition check_round :: "u32 \<Rightarrow> u8 list \<Rightarrow> nat \<Rightarrow> ram \<Rightarrow> ram" where
  "check_round info e i m =
     (let m = store_bytes m (ucast (raw_ptr info (of_nat i))) e; c = ucast (count_ptr info) in m(c := m c + 1))"

lemma loop_round:
  assumes "bios_lists int15 es" and "i < length es"
  shows "memory_check_loop int15 info (of_nat i) k =
    (let k = k\<lparr>ram16 := check_round info (es ! i) i (ram16 k)\<rparr>
     in if Suc i < length es \<and> (of_nat (Suc i) :: u32) \<noteq> 0 then memory_check_loop int15 info (of_nat (Suc i)) k
        else Some (k\<lparr>tty16 := tty16 k @ shown MSG_success 0xF0\<rparr>))"
  using assms
  by (subst memory_check_loop.simps)
     (simp add: bios_lists_def check_round_def show_string_shown Let_def del: of_nat_Suc)

text \<open>The loop runs through all entries and stops after the last.\<close>

lemma loop_rounds:
  assumes "bios_lists int15 es" and "length es < 2 ^ 32" and "i < length es"
  shows "memory_check_loop int15 info (of_nat i) k =
    Some (k\<lparr>ram16 := fold (\<lambda>i. check_round info (es ! i) i) [i..<length es] (ram16 k),
           tty16 := tty16 k @ shown MSG_success 0xF0\<rparr>)"
  using assms(3)
proof (induction "length es - Suc i" arbitrary: i k)
  case 0
  then have last: "Suc i = length es" by simp
  then have "[i..<length es] = [i]" by (simp flip: last)
  with 0 last show ?case
    by (subst loop_round [OF assms(1)]) (simp_all add: Let_def)
next
  case (Suc d)
  then have i: "Suc i < length es" and d: "d = length es - Suc (Suc i)" by auto
  have "(of_nat (Suc i) :: u32) \<noteq> 0"
    using i assms(2) by (simp only: word_of_nat_eq_0_iff) (auto dest!: dvd_imp_le)
  moreover have "[i..<length es] = i # [Suc i..<length es]"
    using i by (simp add: upt_conv_Cons)
  ultimately show ?case
    using i by (subst loop_round [OF assms(1)]) (simp_all add: Let_def Suc.hyps(1) [OF d] del: of_nat_Suc upt_Suc)
qed

lemma info_offset:
  fixes info :: u32
  assumes "unat info + 121 \<le> 2 ^ 32" and "n \<le> 120"
  shows "ucast (info + of_nat n) = (ucast info + of_nat n :: u64)"
proof (rule word_unat_eq_iff [THEN iffD2])
  have "unat (info + of_nat n) = unat info + n" and "unat (ucast info + of_nat n :: u64) = unat info + n"
    using assms by (simp_all add: unat_word_ariths unat_of_nat unat_ucast_32_64)
  then show "unat (ucast (info + of_nat n) :: u64) = unat (ucast info + of_nat n :: u64)"
    by (simp add: unat_ucast_32_64)
qed

lemma raw_ptr_offset: "raw_ptr info (of_nat i) + of_nat t = info + of_nat (5 * i + t)"
  by (simp add: raw_ptr_def SIZEOF_memory_raw_def)

lemma entry_address:
  assumes "unat info + 121 \<le> 2 ^ 32" and "i < 24"
  shows "ucast (raw_ptr info (of_nat i)) = (ucast info + of_nat (5 * i) :: u64)"
    and "ucast (count_ptr info) = (ucast info + of_nat 120 :: u64)"
  using info_offset [OF assms(1), of "5 * i"] info_offset [OF assms(1), of 120] assms(2)
  by (simp_all add: raw_ptr_def count_ptr_def SIZEOF_memory_raw_def MEMORY_MAX_COUNT_def)

text \<open>
  The memory after \<open>i\<close> rounds: of the entries so far each has left its first five bytes, the last
  one all of its 20, and the counter has counted them. Only the structure is written.
\<close>

definition rounds_done :: "u64 \<Rightarrow> u8 list list \<Rightarrow> nat \<Rightarrow> ram \<Rightarrow> ram \<Rightarrow> bool" where
  "rounds_done a es i m0 m \<longleftrightarrow>
     (\<forall>j<i. \<forall>t<(if Suc j = i then 20 else 5). m (a + of_nat (5 * j + t)) = es ! j ! t) \<and>
     m (a + of_nat 120) = m0 (a + of_nat 120) + of_nat i \<and>
     (\<forall>x. x \<notin> span a (5 * i + 15) \<and> x \<noteq> a + of_nat 120 \<longrightarrow> m x = m0 x)"

lemma offset_eq_iff:
  "p \<le> 120 \<Longrightarrow> q \<le> 120 \<Longrightarrow> a + of_nat p = a + (of_nat q :: u64) \<longleftrightarrow> p = q"
  unfolding add_left_cancel by (simp add: word_unat_eq_iff unat_of_nat)

lemma offset_split: "q \<le> p \<Longrightarrow> a + of_nat p = a + of_nat q + (of_nat (p - q) :: u64)"
  by (metis add.assoc le_add_diff_inverse of_nat_add)

lemma offset_in_span:
  assumes "p \<le> 120" and "q + n \<le> 120"
  shows "a + of_nat p \<in> span (a + of_nat q) n \<longleftrightarrow> q \<le> p \<and> p < q + (n :: nat)"
proof
  assume "a + of_nat p \<in> span (a + of_nat q) n"
  then obtain i where i: "i < n" and "a + of_nat p = a + of_nat (q + i)"
    by (auto simp: span_def add.assoc)
  then have "p = q + i" using assms i by (subst (asm) offset_eq_iff) auto
  with i show "q \<le> p \<and> p < q + n" by simp
next
  assume p: "q \<le> p \<and> p < q + n"
  then have "a + of_nat p = a + of_nat q + of_nat (p - q)" and "p - q < n" by (auto intro: offset_split)
  then show "a + of_nat p \<in> span (a + of_nat q) n" unfolding span_def by blast
qed

lemma check_round_bytes:
  assumes "unat info + 121 \<le> 2 ^ 32" and "i < 21" and "length e = 20" and "p \<le> 120"
  shows "check_round info e i m (ucast info + of_nat p) =
    (if p = 120 then m (ucast info + of_nat p) + 1
     else if 5 * i \<le> p \<and> p < 5 * i + 20 then e ! (p - 5 * i) else m (ucast info + of_nat p))"
proof -
  let ?a = "ucast info :: u64"
  have at: "ucast (raw_ptr info (of_nat i)) = ?a + of_nat (5 * i)" "ucast (count_ptr info) = ?a + of_nat 120"
    using entry_address [of info i] assms(1,2) by simp_all
  have stored: "store_bytes m (?a + of_nat (5 * i)) e (?a + of_nat q) =
      (if 5 * i \<le> q \<and> q < 5 * i + 20 then e ! (q - 5 * i) else m (?a + of_nat q))" if "q \<le> 120" for q
  proof (cases "5 * i \<le> q \<and> q < 5 * i + 20")
    case True
    then have eq: "?a + of_nat q = ?a + of_nat (5 * i) + of_nat (q - 5 * i)" by (intro offset_split) simp
    have "store_bytes m (?a + of_nat (5 * i)) e (?a + of_nat q) = e ! (q - 5 * i)"
      unfolding eq by (rule store_bytes_nth) (use True assms(3) in auto)
    with True show ?thesis by simp
  next
    case False
    have "?a + of_nat q \<notin> span (?a + of_nat (5 * i)) (length e)"
      unfolding assms(3) by (subst offset_in_span) (use False that assms(2) in auto)
    with False show ?thesis by (simp only: store_bytes_other if_False not_False_eq_True)
  qed
  show ?thesis
    using assms(2,4) stored [of p] stored [of 120]
    by (simp only: check_round_def at Let_def fun_upd_apply offset_eq_iff order_refl) auto
qed


lemma check_round_frame:
  assumes "unat info + 121 \<le> 2 ^ 32" and "i < 21" and "length e = 20"
    and "x \<notin> span (ucast info) (5 * i + 20)" and "x \<noteq> ucast info + of_nat 120"
  shows "check_round info e i m x = m x"
proof -
  have "ucast (raw_ptr info (of_nat i)) = (ucast info + of_nat (5 * i) :: u64)"
    and "ucast (count_ptr info) = (ucast info + of_nat 120 :: u64)"
    using entry_address [of info i] assms(1,2) by simp_all
  moreover have "x \<notin> span (ucast info + of_nat (5 * i)) (length e)"
    using assms(3,4) span_offset [of "5 * i" 20 "5 * i + 20"] by auto
  ultimately show ?thesis
    using assms(5) by (simp add: check_round_def Let_def store_bytes_other)
qed

lemma rounds_step:
  assumes "unat info + 121 \<le> 2 ^ 32" and "i < 21" and "length (es ! i) = 20"
    and "rounds_done (ucast info) es i m0 m"
  shows "rounds_done (ucast info) es (Suc i) m0 (check_round info (es ! i) i m)"
  unfolding rounds_done_def
proof (intro conjI allI impI)
  fix j t assume j: "j < Suc i" and t: "t < (if Suc j = Suc i then 20 else 5 :: nat)"
  then have "j < i \<Longrightarrow> m (ucast info + of_nat (5 * j + t)) = es ! j ! t"
    using assms(4) by (auto simp: rounds_done_def)
  moreover have "5 * j + t < 120"
    using j t assms(2) by (auto split: if_splits)
  ultimately show "check_round info (es ! i) i m (ucast info + of_nat (5 * j + t)) = es ! j ! t"
    using j t by (subst check_round_bytes [OF assms(1-3)]) (auto split: if_splits)
next
  show "check_round info (es ! i) i m (ucast info + of_nat 120) = m0 (ucast info + of_nat 120) + of_nat (Suc i)"
    using assms(4) by (subst check_round_bytes [OF assms(1-3)]) (auto simp: rounds_done_def)
next
  fix x assume x: "x \<notin> span (ucast info) (5 * Suc i + 15) \<and> x \<noteq> ucast info + of_nat 120"
  then have "x \<notin> span (ucast info) (5 * i + 20)" and "x \<notin> span (ucast info) (5 * i + 15)"
    using span_mono [of "5 * i + 15" "5 * i + 20" "ucast info"] by (auto simp: algebra_simps)
  with x assms(4) show "check_round info (es ! i) i m x = m0 x"
    by (simp add: check_round_frame [OF assms(1-3)] rounds_done_def)
qed

lemma rounds_all:
  assumes "unat info + 121 \<le> 2 ^ 32" and "\<forall>e\<in>set es. length e = 20" and "n \<le> length es" and "n \<le> 21"
  shows "rounds_done (ucast info) es n m (fold (\<lambda>i. check_round info (es ! i) i) [0..<n] m)"
  using assms(3,4)
proof (induction n)
  case (Suc n)
  then show ?case
    using rounds_step [OF assms(1), of n es] assms(2) by simp
qed (simp add: rounds_done_def)

lemma offset_in_span': "n < k \<Longrightarrow> a + of_nat n \<in> span a k"
  by (auto simp: span_def)

lemma load_bytes_at:
  assumes "length e = n" and "\<And>t. t < n \<Longrightarrow> m (a + of_nat t) = e ! t"
  shows "load_bytes m a n = e"
  using assms by (auto intro: nth_equalityI)


lemma rounds_raw_at:
  assumes "unat info + 121 \<le> 2 ^ 32" and "n \<le> 21" and "rounds_done (ucast info) es n m0 m" and "i < n"
  shows "raw_at m (raw_ptr info (of_nat i)) =
    \<lparr>base_l = es ! i ! 0, base_h = es ! i ! 1, length_l = es ! i ! 2, length_h = es ! i ! 3,
     raw_type = es ! i ! 4\<rparr>"
proof -
  have "m (ucast (raw_ptr info (of_nat i) + of_nat t)) = es ! i ! t" if "t < 5" for t
  proof -
    have "ucast (raw_ptr info (of_nat i) + of_nat t) = (ucast info + of_nat (5 * i + t) :: u64)"
      unfolding raw_ptr_offset by (rule info_offset [OF assms(1)]) (use assms(2,4) that in simp)
    then show ?thesis
      using assms(3,4) that by (auto simp: rounds_done_def simp del: of_nat_add of_nat_mult)
  qed
  from this [of 0] this [of 1] this [of 2] this [of 3] this [of 4] show ?thesis
    by (simp add: raw_at_def)
qed

lemma rounds_last:
  assumes "unat info + 121 \<le> 2 ^ 32" and "n \<le> 21" and "rounds_done (ucast info) es (Suc n) m0 m"
    and "length (es ! n) = 20"
  shows "load_bytes m (ucast (raw_ptr info (of_nat n))) 20 = es ! n"
proof (rule load_bytes_at [OF assms(4)])
  fix t :: nat assume "t < 20"
  then have "m (ucast info + of_nat (5 * n + t)) = es ! n ! t"
    using assms(3) by (simp add: rounds_done_def)
  then show "m (ucast (raw_ptr info (of_nat n)) + of_nat t) = es ! n ! t"
    using entry_address(1) [OF assms(1), of n] assms(2) by (simp add: add.assoc)
qed

subsection \<open>The check of the memory\<close>


definition demo_bios :: bios where
  "demo_bios r m =
     ((sign32, 20, if ebx r = 0 then 1 else 0),
      store_bytes m (ucast (edi r)) (map of_nat (if ebx r = 0 then [1..<21] else [41..<61])))"


text \<open>A BIOS that does not know the function answers without the signature and with \<open>ebx = 0\<close>:
  \<open>memory_check\<close> reports the error, counts an entry all the same, and then reports success.\<close>

theorem memory_check_error_is_success:
  assumes "int15 \<lparr>eax = sign16, ebx = 0, ecx = MEMORY_MAX_COUNT, edx = sign32, edi = info\<rparr> (ram16 k) =
      ((sg, n, 0), ram16 k)" and "sg \<noteq> sign32"
  shows "memory_check int15 info k = Some (k\<lparr>
    ram16 := (ram16 k)(ucast (count_ptr info) := ram16 k (ucast (count_ptr info)) + 1),
    tty16 := tty16 k @ shown MSG_error 0xFF @ shown MSG_success 0xF0\<rparr>)"
  using assms
  by (subst memory_check_def, subst memory_check_loop.simps)
     (simp add: show_string_shown raw_ptr_def Let_def)

end
