(* ===== verification/Spec2Isabelle.thy ===== *)
theory Spec2Isabelle
  imports Kernel Files Bios
begin

text \<open>
  A model of the LightNightOS kernel (\<open>src/OS/OS/src/kernel\<close>, with \<open>lib.h\<close> and the \<open>fs\<close> directory)
  and the properties that make its parts correct.

  \<^bold>\<open>The program.\<close> A 64-bit kernel for one processor. The boot code loads it and jumps to
  \<open>kernel_init\<close> (\<open>kernel.c\<close>), which installs the descriptor tables, clears the screen, programs the
  interrupt controllers, the keyboard and the timer, builds the heap from the BIOS memory map and
  starts the shell. From then on everything happens in interrupt handlers: the keyboard's passes key
  codes to the line editor of the shell, which runs commands; the timer's counts ticks. A cooperative
  scheduler and a file system in memory are part of the kernel; nothing starts them by default. Every
  part prints through the console, and all that allocate do so from the one heap.

  \<^bold>\<open>The state\<close> grows with the layers, by record extension: \<open>kcon\<close> (the console), \<open>kmem\<close> (and
  memory), \<open>ksched\<close> (and the process table and registers), \<open>kirq\<close> (and descriptor tables), \<open>ktimer\<close>,
  \<open>kshell\<close>, \<open>kkbd\<close>; the file system's parts extend \<open>kmem\<close>: \<open>kblk\<close>, \<open>kino\<close>, \<open>kfs\<close>. An operation is
  a function on any extension of the record it needs. Memory is one function from addresses to bytes;
  structures behind pointers are read and written there at their offsets, so aliasing is as in the
  code. \<open>None\<close> is undefined behaviour or a loop that does not end.

  \<^bold>\<open>Theories\<close>, each with the source it models:

  \<^item> \<open>Prelude\<close>, \<open>Ram\<close>: C integers, strings and arrays, counted and searching
    loops, bytes and words in memory, the locales \<open>simulation\<close>, \<open>bounded_log\<close>,
    \<open>cell_field\<close> and \<open>cell_fields\<close>.
  \<^item> \<open>CLib\<close>: \<open>lib.h\<close>. The string instructions copy and fill as list
    operations; \<open>memcpy\<close> takes the source first.
  \<^item> \<open>Console\<close>, \<open>Screen\<close>, \<open>Printk\<close>: \<open>console.c\<close>, its
    operations in \<open>Console\<close> and \<open>Printk\<close>. An invariant of screen, terminals and line
    history under every operation, what scrolling and the history viewer show, and \<open>vprintk\<close>
    conversions against decimal and positional numerals.
  \<^item> \<open>Memory\<close>, \<open>Blocks\<close>, \<open>FirstFit\<close>, \<open>Heap\<close>:
    \<open>memory.c\<close>, its operations in \<open>Memory\<close>. \<open>Blocks\<close> relates the header
    list in memory to a list of blocks, \<open>FirstFit\<close> proves that \<open>malloc\<close> and
    \<open>free\<close> refine an abstract first-fit allocator, and states what a client may rely on as the
    locale \<open>allocator\<close>, interpreted by the code's model (\<open>kheap\<close>);
    \<open>Heap\<close> has the page list and the properties.
  \<^item> \<open>Scheduler\<close>: \<open>scheduler.c\<close> and \<open>context_switch.asm\<close>. An
    invariant that ties every used slot to a stack it owns in the heap, fairness of the round robin, exit and
    creation.
  \<^item> \<open>Interrupts\<close>, \<open>Timer\<close>: \<open>interrupts.c\<close>,
    \<open>interrupt.c\<close>, \<open>timer.c\<close>. The gates the processor finds for a vector after each
    initialiser, and what the panic screen shows.
  \<^item> \<open>Shell\<close>, \<open>Editor\<close>, \<open>Keyboard\<close>: \<open>shell.c\<close> (its
    operations in \<open>Shell\<close>), \<open>keyboard.c\<close>. The shell refines an abstract line editor
    with a bounded history; the keyboard's handler feeds it the keys of the bytes the controller holds.
  \<^item> \<open>Kernel\<close>: \<open>kernel.c\<close>. Start-up as a whole, and the turns of the
    demonstration processes.
  \<^item> \<open>Slots\<close>, \<open>Buffers\<close>: tables searched from the front, the locale
    \<open>pin_cache\<close> of the two caches, and the locale \<open>buffer_store\<close> of clients that
    keep their data in heap buffers.
  \<^item> \<open>Block\<close>, \<open>Inode\<close>, \<open>Dir\<close>, \<open>Fs\<close>,
    \<open>Files\<close>: \<open>fs/block.c\<close>, \<open>fs/inode.c\<close>, \<open>fs/dir.c\<close>,
    \<open>fs/fs.c\<close>. The caches refine tables of pinned keys; \<open>Fs\<close> has the operations of
    \<open>fs.c\<close> and shows that the tables \<open>fs_init\<close> builds stay in their buffers;
    \<open>Files\<close> shows that creations number the inodes, that the open files are a bounded map, and
    that what is written to a file is read back.
  \<^item> \<open>Bios\<close>: the sixteen-bit exercise \<open>OS-2\<close> (\<open>memory.c\<close>,
    \<open>tty.c\<close>), a state of its own: what its memory check leaves of the map the BIOS lists, and
    what it reports.

  \<^bold>\<open>Bounds.\<close> Loops with a counter are folds over their index range, so nothing is cut off. Loops that
  follow pointers or poll a device are partial functions, and the theorems that need their result prove
  that they return (the allocator's from the heap invariant, the keyboard's from a controller that
  runs empty). Two parameters bound histories: a run of the scheduler makes fewer than
  \<open>2 ^ 64 - 1\<close> steps and one of the file table fewer than \<open>2 ^ 32\<close>, before their counters wrap.

  \<^bold>\<open>Parameters.\<close> The linker's addresses (\<open>code_addr\<close>, \<open>irq_addr\<close>, the static arrays of the caches), the
  end of the kernel image, the memory map the boot code left, the answers of the keyboard
  controller to port reads, and for \<open>OS-2\<close> the answers of the BIOS.

  \<^bold>\<open>Not modelled.\<close> The boot sectors and the assembly stubs (they run before the kernel or
  save registers around its handlers); the contents of process stacks, so an interrupted or switched-out
  process is its saved registers; the delay loops and the final halt loop of \<open>kernel.c\<close>, which
  have no state; the store of \<open>%n\<close> in \<open>vprintk\<close>; the exercise OS-1, a single
  breakpoint; the rest of the repository, which is study notes.
\<close>

end
